(* ===== verification/Kprelude.thy ===== *)
theory Kprelude
  imports Main "HOL-Library.Word"
begin

text \<open>
  Shared vocabulary of the development: the machine integer types of the 32-bit x86 build, the
  outcome type of code that can hit a \<open>BUG_ON\<close>, the arithmetic macros of
  \<open>include/linux/math.h\<close>, \<open>include/linux/minmax.h\<close> and \<open>include/linux/pfn.h\<close>, and the generic
  facts on words, lists and intervals that the component theories use.
\<close>

unbundle bit_operations_syntax

type_synonym u8 = "8 word"
type_synonym u16 = "16 word"
type_synonym u32 = "32 word"
type_synonym u64 = "64 word"

text \<open>
  \<open>phys_addr_t\<close> is \<open>u32\<close> (\<open>include/linux/types.h\<close>): the build has neither PAE nor 64-bit mode.
\<close>

type_synonym phys_addr = u32

text \<open>
  The outcome of code that may stop the machine: \<open>Ok\<close> is a normal return, \<open>Bug\<close> a
  \<open>BUG_ON\<close> that fired, \<open>OutOfFuel\<close> a recursion deeper than the bound given to the model.
\<close>

datatype 'a outcome = Ok 'a | Bug | OutOfFuel

fun obind :: "'a outcome \<Rightarrow> ('a \<Rightarrow> 'b outcome) \<Rightarrow> 'b outcome" where
  "obind (Ok a) f = f a"
| "obind Bug f = Bug"
| "obind OutOfFuel f = OutOfFuel"

lemma obind_eq_Ok: "obind m f = Ok b \<longleftrightarrow> (\<exists>a. m = Ok a \<and> f a = Ok b)"
  by (cases m) auto

named_theorems word_nat "moving comparisons and sums of words to natural numbers"

lemma unat_add_nowrap [word_nat]:
  fixes a b :: "'a::len word"
  assumes "unat a + unat b < 2 ^ LENGTH('a)"
  shows "unat (a + b) = unat a + unat b"
  using assms unat_add_lem by blast

lemma unat_u32_bound: "unat (a :: u32) < 4294967296"
  using unsigned_less [of a] by simp

lemma unat_u64_bound: "unat (a :: u64) < 18446744073709551616"
  using unsigned_less [of a] by simp

lemma unat_min: "unat (min a b) = min (unat a) (unat b)"
  by (simp add: min_def word_le_nat_alt)

lemma unat_max: "unat (max a b) = max (unat a) (unat b)"
  by (simp add: max_def word_le_nat_alt)

text \<open>
  The rounding macros of \<open>include/linux/math.h\<close>, \<open>clamp\<close> of \<open>include/linux/minmax.h\<close>, the page
  macros, and \<open>__ffs\<close> (the position of the lowest set bit; \<open>arch/x86/include/asm/bitops.h\<close>).
  On an argument without a set bit the instruction has no defined result; the model then
  returns the width.
\<close>

definition round_mask :: "'a::len word \<Rightarrow> 'a word" where
  "round_mask y = y - 1"

definition round_up :: "'a::len word \<Rightarrow> 'a word \<Rightarrow> 'a word" where
  "round_up x y = ((x - 1) OR round_mask y) + 1"

definition round_down :: "'a::len word \<Rightarrow> 'a word \<Rightarrow> 'a word" where
  "round_down x y = x AND NOT (round_mask y)"

definition clamp :: "'a::linorder \<Rightarrow> 'a \<Rightarrow> 'a \<Rightarrow> 'a" where
  "clamp v lo hi = min (max v lo) hi"

definition PAGE_SHIFT :: nat where
  "PAGE_SHIFT = 12"

definition PAGE_SIZE :: u32 where
  "PAGE_SIZE = push_bit PAGE_SHIFT 1"

definition PAGE_ALIGN :: "u32 \<Rightarrow> u32" where
  "PAGE_ALIGN addr = (addr + (PAGE_SIZE - 1)) AND NOT (PAGE_SIZE - 1)"

definition PFN_UP :: "u32 \<Rightarrow> u32" where
  "PFN_UP x = drop_bit PAGE_SHIFT (x + PAGE_SIZE - 1)"

definition PFN_DOWN :: "u32 \<Rightarrow> u32" where
  "PFN_DOWN x = drop_bit PAGE_SHIFT x"

primrec ffs_upto :: "nat \<Rightarrow> 'a::len word \<Rightarrow> nat" where
  "ffs_upto 0 x = 0"
| "ffs_upto (Suc n) x = (if odd x then 0 else Suc (ffs_upto n (drop_bit 1 x)))"

definition ffs_word :: "'a::len word \<Rightarrow> nat" where
  "ffs_word x = ffs_upto LENGTH('a) x"

lemmas unat_compare = word_le_nat_alt word_less_nat_alt unat_min unat_max

section \<open>Rounding\<close>

lemma round_mask_exp: "round_mask (2 ^ k) = mask k"
  by (simp add: round_mask_def mask_eq_exp_minus_1)

lemma drop_bit_mask_or:
  fixes x :: "'a::len word"
  shows "drop_bit k (x OR mask k) = drop_bit k x"
  by (rule bit_eqI) (auto simp: bit_simps)

lemma unat_mask:
  assumes "k < LENGTH('a::len)"
  shows "unat (mask k :: 'a word) = 2 ^ k - 1"
proof -
  have "unat (mask k :: 'a word) = take_bit k (unat (- 1 :: 'a word))"
    unfolding unsigned_take_bit_eq [symmetric] by (simp add: take_bit_minus_one_eq_mask)
  also have "\<dots> = take_bit k (mask LENGTH('a))"
    by (simp only: unsigned_minus_1_eq_mask)
  also have "\<dots> = mask k" using assms by (simp add: min_def)
  finally show ?thesis by (simp only: mask_eq_exp_minus_1)
qed

lemma unat_or_mask:
  fixes x :: "'a::len word"
  assumes "k < LENGTH('a)"
  shows "unat (x OR mask k) = unat x div 2 ^ k * 2 ^ k + (2 ^ k - 1)"
proof -
  have "unat (drop_bit k (x OR mask k)) = unat (drop_bit k x)" by (simp only: drop_bit_mask_or)
  then have d: "unat (x OR mask k) div 2 ^ k = unat x div 2 ^ k"
    unfolding unat_drop_bit_eq by (simp add: drop_bit_eq_div)
  have "take_bit k (x OR mask k) = mask k"
    by (rule bit_eqI) (auto simp: bit_simps)
  then have "unat (take_bit k (x OR mask k)) = unat (mask k :: 'a word)" by (simp only:)
  then have "take_bit k (unat (x OR mask k)) = unat (mask k :: 'a word)"
    by (simp only: unsigned_take_bit_eq)
  then have "unat (x OR mask k) mod 2 ^ k = 2 ^ k - 1"
    using assms by (simp add: take_bit_eq_mod unat_mask)
  with d show ?thesis by (metis div_mult_mod_eq)
qed

lemma unat_and_not_mask:
  fixes x :: "'a::len word"
  assumes "k < LENGTH('a)"
  shows "unat (x AND NOT (mask k)) = unat x div 2 ^ k * 2 ^ k"
proof -
  have "drop_bit k (x AND NOT (mask k)) = drop_bit k x"
    by (rule bit_eqI) (auto simp: bit_simps dest: bit_imp_le_length)
  then have "unat (drop_bit k (x AND NOT (mask k))) = unat (drop_bit k x)" by (simp only:)
  then have d: "unat (x AND NOT (mask k)) div 2 ^ k = unat x div 2 ^ k"
    unfolding unat_drop_bit_eq by (simp add: drop_bit_eq_div)
  have "take_bit k (x AND NOT (mask k)) = 0"
    by (rule bit_eqI) (auto simp: bit_simps)
  then have "unat (take_bit k (x AND NOT (mask k))) = unat (0 :: 'a word)" by (simp only:)
  then have "take_bit k (unat (x AND NOT (mask k))) = unat (0 :: 'a word)"
    by (simp only: unsigned_take_bit_eq)
  then have "unat (x AND NOT (mask k)) mod 2 ^ k = 0"
    by (simp add: take_bit_eq_mod)
  with d show ?thesis by (metis add.right_neutral div_mult_mod_eq)
qed

lemma round_up_eq: "round_up x (2 ^ k) = 1 + ((x - 1) OR mask k)"
  by (simp add: round_up_def round_mask_exp)

lemma round_up_0 [simp]: "round_up 0 y = 0"
  by (simp add: round_up_def)

lemma round_up_ge:
  assumes "round_up x y \<noteq> 0"
  shows "unat x \<le> unat (round_up x y)"
proof -
  let ?z = "(x - 1) OR round_mask y"
  have e: "round_up x y = 1 + ?z" by (simp add: round_up_def)
  have z: "unat (round_up x y) = Suc (unat ?z)" using assms unfolding e by (rule unatSuc)
  have "unat (x - 1) \<le> unat ?z"
    using le_word_or2 [of "x - 1" "round_mask y"] by (simp add: word_le_nat_alt or.commute)
  moreover have "x \<noteq> 0" using assms by auto
  ultimately show ?thesis unfolding z using unat_minus_one [of x] by linarith
qed

lemma round_up_aligned:
  fixes x :: "'a::len word"
  assumes k: "k < LENGTH('a)"
  shows "2 ^ k dvd unat (round_up x (2 ^ k))"
proof (cases "round_up x (2 ^ k) = 0")
  case False
  then have "unat (round_up x (2 ^ k)) = Suc (unat ((x - 1) OR mask k))"
    unfolding round_up_eq by (rule unatSuc)
  also have "\<dots> = (unat (x - 1) div 2 ^ k + 1) * 2 ^ k"
    by (simp add: unat_or_mask [OF k])
  finally show ?thesis by simp
qed simp

lemma round_up_least:
  fixes x :: "'a::len word"
  assumes k: "k < LENGTH('a)" and x: "x \<noteq> 0" and c: "2 ^ k dvd c" "unat x \<le> c" "c < 2 ^ LENGTH('a)"
  shows "unat (round_up x (2 ^ k)) \<le> c" and "round_up x (2 ^ k) \<noteq> 0"
proof -
  let ?z = "(x - 1) OR mask k"
  from c(1) obtain q where q: "c = 2 ^ k * q" by auto
  have "unat (x - 1) < c" using unat_minus_one [OF x] x c(2) unat_gt_0 [of x] by linarith
  then have "unat (x - 1) div 2 ^ k < q" unfolding q by (simp add: less_mult_imp_div_less mult.commute)
  then have "Suc (unat (x - 1) div 2 ^ k) * 2 ^ k \<le> q * 2 ^ k" by (intro mult_le_mono1) simp
  then have s: "Suc (unat ?z) \<le> c" by (simp add: unat_or_mask [OF k] q mult.commute)
  have nz: "1 + ?z \<noteq> 0"
  proof
    assume "1 + ?z = 0"
    then have "?z = - 1" by (metis add_eq_0_iff)
    then have "unat ?z = 2 ^ LENGTH('a) - 1"
      by (simp add: unsigned_minus_1_eq_mask mask_eq_exp_minus_1)
    with s c(3) show False by simp
  qed
  then show "round_up x (2 ^ k) \<noteq> 0" by (simp add: round_up_eq)
  show "unat (round_up x (2 ^ k)) \<le> c" using s unfolding round_up_eq unatSuc [OF nz] .
qed

lemma round_down_le: "unat (round_down x y) \<le> unat x"
  using word_and_le2 [of x "NOT (round_mask y)"]
  by (simp add: round_down_def word_le_nat_alt and.commute)

lemma unat_round_down:
  fixes x :: "'a::len word"
  assumes k: "k < LENGTH('a)"
  shows "unat (round_down x (2 ^ k)) = unat x div 2 ^ k * 2 ^ k"
  by (simp add: round_down_def round_mask_exp unat_and_not_mask [OF k])

lemma round_down_greatest:
  fixes x :: "'a::len word"
  assumes k: "k < LENGTH('a)" and c: "2 ^ k dvd c" "c \<le> unat x"
  shows "c \<le> unat (round_down x (2 ^ k))"
proof -
  from c(1) obtain q where q: "c = 2 ^ k * q" by auto
  then have "q \<le> unat x div 2 ^ k" using c(2) by (simp add: less_eq_div_iff_mult_less_eq mult.commute)
  then show ?thesis by (simp add: unat_round_down [OF k] q)
qed

end
