(* ===== verification/Memblock.thy ===== *)
theory Memblock
  imports Kprelude
begin

text \<open>
  The early boot memory allocator, \<open>mm/memblock.c\<close> with \<open>include/linux/memblock.h\<close>: the sorted
  tables of memory and reserved ranges, adding, isolating, removing and merging ranges, growing a
  table, walking the free ranges, and allocating from them.

  A table is the list of the first \<open>cnt\<close> entries of the C array (entries behind \<open>cnt\<close> are never
  read), so \<open>cnt\<close> is its length and \<open>memmove\<close> by one entry is an insertion or a deletion in the
  list. \<open>t_max\<close> is the capacity, \<open>t_array\<close> the physical address of the array (\<open>None\<close> for the
  static initial arrays). The build has one NUMA node, so the node of a region is the constant
  0 of \<open>memblock_get_region_node\<close>. Debug printing and \<open>WARN_ON\<close> have no effect on the state.
\<close>

section \<open>Data\<close>

record memblock_region =
  r_base :: phys_addr
  r_size :: phys_addr
  r_flags :: u32

record memblock_type =
  t_max :: nat
  total_size :: phys_addr
  regions :: "memblock_region list"
  t_array :: "phys_addr option"

datatype mb_kind = Memory | Reserved

record memblock =
  bottom_up :: bool
  current_limit :: phys_addr
  memory :: memblock_type
  reserved :: memblock_type
  system_has_some_mirror :: bool
  memblock_can_resize :: bool
  memblock_memory_in_slab :: bool
  memblock_reserved_in_slab :: bool

text \<open>
  What memblock asks of the slab allocator and of the address map: whether slab is up, the
  physical address of a \<open>kmalloc\<close> block, \<open>phys_to_virt\<close>, and the cache line size
  \<open>SMP_CACHE_BYTES\<close>, which the kernel configuration sets.
\<close>

record mb_env =
  slab_is_available :: bool
  kmalloc :: "phys_addr \<Rightarrow> phys_addr option"
  phys_to_virt :: "phys_addr \<Rightarrow> u32"
  SMP_CACHE_BYTES :: u32

definition MEMBLOCK_NONE :: u32 where "MEMBLOCK_NONE = 0"
definition MEMBLOCK_HOTPLUG :: u32 where "MEMBLOCK_HOTPLUG = 1"
definition MEMBLOCK_MIRROR :: u32 where "MEMBLOCK_MIRROR = 2"
definition MEMBLOCK_NOMAP :: u32 where "MEMBLOCK_NOMAP = 4"
definition MEMBLOCK_DRIVER_MANAGED :: u32 where "MEMBLOCK_DRIVER_MANAGED = 8"

definition PHYS_ADDR_MAX :: phys_addr where "PHYS_ADDR_MAX = NOT 0"
definition MEMBLOCK_ALLOC_ANYWHERE :: phys_addr where "MEMBLOCK_ALLOC_ANYWHERE = NOT 0"
definition MEMBLOCK_ALLOC_ACCESSIBLE :: phys_addr where "MEMBLOCK_ALLOC_ACCESSIBLE = 0"
definition MEMBLOCK_ALLOC_NOLEAKTRACE :: phys_addr where "MEMBLOCK_ALLOC_NOLEAKTRACE = 1"

definition NUMA_NO_NODE :: int where "NUMA_NO_NODE = -1"
definition MAX_NUMNODES :: int where "MAX_NUMNODES = 1"
definition ENOMEM :: int where "ENOMEM = 12"
definition INIT_MEMBLOCK_REGIONS :: nat where "INIT_MEMBLOCK_REGIONS = 128"
definition SIZEOF_REGION :: nat where "SIZEOF_REGION = 12"

definition memblock_get_region_node :: "memblock_region \<Rightarrow> int" where
  "memblock_get_region_node r = 0"

abbreviation cnt :: "memblock_type \<Rightarrow> nat" where
  "cnt t \<equiv> length (regions t)"

definition empty_region :: memblock_region where
  "empty_region = \<lparr>r_base = 0, r_size = 0, r_flags = 0\<rparr>"

definition init_type :: memblock_type where
  "init_type = \<lparr>t_max = INIT_MEMBLOCK_REGIONS, total_size = 0, regions = [empty_region],
     t_array = None\<rparr>"

definition memblock_init :: memblock where
  "memblock_init = \<lparr>bottom_up = False, current_limit = MEMBLOCK_ALLOC_ANYWHERE,
     memory = init_type, reserved = init_type, system_has_some_mirror = False,
     memblock_can_resize = False, memblock_memory_in_slab = False,
     memblock_reserved_in_slab = False\<rparr>"

fun get_type :: "mb_kind \<Rightarrow> memblock \<Rightarrow> memblock_type" where
  "get_type Memory mb = memory mb"
| "get_type Reserved mb = reserved mb"

fun set_type :: "mb_kind \<Rightarrow> memblock_type \<Rightarrow> memblock \<Rightarrow> memblock" where
  "set_type Memory t mb = mb\<lparr>memory := t\<rparr>"
| "set_type Reserved t mb = mb\<lparr>reserved := t\<rparr>"

fun get_in_slab :: "mb_kind \<Rightarrow> memblock \<Rightarrow> bool" where
  "get_in_slab Memory mb = memblock_memory_in_slab mb"
| "get_in_slab Reserved mb = memblock_reserved_in_slab mb"

fun set_in_slab :: "mb_kind \<Rightarrow> bool \<Rightarrow> memblock \<Rightarrow> memblock" where
  "set_in_slab Memory b mb = mb\<lparr>memblock_memory_in_slab := b\<rparr>"
| "set_in_slab Reserved b mb = mb\<lparr>memblock_reserved_in_slab := b\<rparr>"

definition r_end :: "memblock_region \<Rightarrow> phys_addr" where
  "r_end r = r_base r + r_size r"

section \<open>Table operations\<close>

definition choose_memblock_flags :: "memblock \<Rightarrow> u32" where
  "choose_memblock_flags mb =
     (if system_has_some_mirror mb then MEMBLOCK_MIRROR else MEMBLOCK_NONE)"

definition memblock_cap_size :: "phys_addr \<Rightarrow> phys_addr \<Rightarrow> phys_addr" where
  "memblock_cap_size base sz = min sz (PHYS_ADDR_MAX - base)"

definition memblock_addrs_overlap ::
    "phys_addr \<Rightarrow> phys_addr \<Rightarrow> phys_addr \<Rightarrow> phys_addr \<Rightarrow> bool" where
  "memblock_addrs_overlap base1 size1 base2 size2 \<longleftrightarrow>
     base1 < base2 + size2 \<and> base2 < base1 + size1"

definition memblock_overlaps_region :: "memblock_type \<Rightarrow> phys_addr \<Rightarrow> phys_addr \<Rightarrow> bool" where
  "memblock_overlaps_region t base sz =
     (let sz = memblock_cap_size base sz
      in \<exists>r \<in> set (regions t). memblock_addrs_overlap base sz (r_base r) (r_size r))"

definition memblock_remove_region :: "memblock_type \<Rightarrow> nat \<Rightarrow> memblock_type" where
  "memblock_remove_region t r =
     (let t1 = t\<lparr>total_size := total_size t - r_size (regions t ! r),
                regions := take r (regions t) @ drop (r + 1) (regions t)\<rparr>
      in if cnt t1 = 0 then t1\<lparr>regions := [empty_region]\<rparr> else t1)"

definition memblock_insert_region ::
    "memblock_type \<Rightarrow> nat \<Rightarrow> phys_addr \<Rightarrow> phys_addr \<Rightarrow> int \<Rightarrow> u32 \<Rightarrow> memblock_type outcome" where
  "memblock_insert_region t idx base sz nid flags =
     (if t_max t \<le> cnt t then Bug
      else Ok (t\<lparr>regions := take idx (regions t)
                   @ \<lparr>r_base = base, r_size = sz, r_flags = flags\<rparr> # drop idx (regions t),
                 total_size := total_size t + sz\<rparr>))"

lemma memblock_insert_region_cnt:
  "memblock_insert_region t idx base sz nid flags = Ok t' \<Longrightarrow> cnt t' = Suc (cnt t)"
  by (auto simp: memblock_insert_region_def split: if_splits)

function memblock_merge_from :: "nat \<Rightarrow> memblock_type \<Rightarrow> memblock_type outcome" where
  "memblock_merge_from i t =
     (if i < cnt t - 1 then
        let this = regions t ! i; next = regions t ! (i + 1)
        in if r_base this + r_size this \<noteq> r_base next
              \<or> memblock_get_region_node this \<noteq> memblock_get_region_node next
              \<or> r_flags this \<noteq> r_flags next
           then if r_base this + r_size this > r_base next then Bug
                else memblock_merge_from (i + 1) t
           else memblock_merge_from i
                  (t\<lparr>regions := take i (regions t)
                       @ this\<lparr>r_size := r_size this + r_size next\<rparr> # drop (i + 2) (regions t)\<rparr>)
      else Ok t)"
  by pat_completeness auto
termination
  by (relation "measure (\<lambda>(i, t). cnt t - i)") auto

declare memblock_merge_from.simps [simp del]

definition memblock_merge_regions :: "memblock_type \<Rightarrow> memblock_type outcome" where
  "memblock_merge_regions t = memblock_merge_from 0 t"

text \<open>
  The loop of \<open>memblock_add_range\<close> over the table, in its counting pass (\<open>ins\<close> false) and its
  inserting pass; it returns the table, the position where it stopped, the part of the new range
  still to add, and \<open>nr_new\<close>.
\<close>

function add_range_loop ::
    "bool \<Rightarrow> phys_addr \<Rightarrow> int \<Rightarrow> u32 \<Rightarrow> memblock_type \<Rightarrow> nat \<Rightarrow> phys_addr \<Rightarrow> nat
     \<Rightarrow> (memblock_type \<times> nat \<times> phys_addr \<times> nat) outcome" where
  "add_range_loop ins end nid flags t idx base nr_new =
     (if idx < cnt t then
        let rgn = regions t ! idx; rbase = r_base rgn; rend = rbase + r_size rgn
        in if rbase \<ge> end then Ok (t, idx, base, nr_new)
           else if rend \<le> base then add_range_loop ins end nid flags t (idx + 1) base nr_new
           else if rbase > base then
             (if ins then
                (case memblock_insert_region t idx base (rbase - base) nid flags of
                   Ok t' \<Rightarrow> add_range_loop ins end nid flags t' (idx + 2) (min rend end) (nr_new + 1)
                 | Bug \<Rightarrow> Bug
                 | OutOfFuel \<Rightarrow> OutOfFuel)
              else add_range_loop ins end nid flags t (idx + 1) (min rend end) (nr_new + 1))
           else add_range_loop ins end nid flags t (idx + 1) (min rend end) nr_new
      else Ok (t, idx, base, nr_new))"
  by pat_completeness auto
termination
  by (relation "measure (\<lambda>(ins, end, nid, flags, t, idx, base, nr_new). cnt t - idx)")
     (auto dest: memblock_insert_region_cnt)

declare add_range_loop.simps [simp del]

definition add_range_pass ::
    "bool \<Rightarrow> phys_addr \<Rightarrow> phys_addr \<Rightarrow> int \<Rightarrow> u32 \<Rightarrow> memblock_type \<Rightarrow> (memblock_type \<times> nat) outcome" where
  "add_range_pass ins obase end nid flags t =
     obind (add_range_loop ins end nid flags t 0 obase 0) (\<lambda>(t, idx, base, nr_new).
       if base < end then
         (if ins
          then obind (memblock_insert_region t idx base (end - base) nid flags)
                 (\<lambda>t. Ok (t, nr_new + 1))
          else Ok (t, nr_new + 1))
       else Ok (t, nr_new))"

text \<open>
  The loop of \<open>memblock_isolate_range\<close>: a region that crosses \<open>base\<close> or \<open>end\<close> is split there;
  \<open>start_rgn\<close> and \<open>end_rgn\<close> delimit the regions inside.
\<close>

definition isolate_weight :: "phys_addr \<Rightarrow> phys_addr \<Rightarrow> memblock_region \<Rightarrow> nat" where
  "isolate_weight base end r =
     (if r_base r \<ge> end then 0
      else 1 + (if r_base r < base then 1 else 0) + (if r_base r + r_size r > end then 1 else 0))"

definition isolate_measure :: "phys_addr \<Rightarrow> phys_addr \<Rightarrow> memblock_type \<Rightarrow> nat \<Rightarrow> nat" where
  "isolate_measure base end t idx =
     sum_list (map (isolate_weight base end) (drop idx (regions t)))"

definition shrink_front :: "memblock_type \<Rightarrow> nat \<Rightarrow> phys_addr \<Rightarrow> memblock_type" where
  "shrink_front t idx at =
     (let rgn = regions t ! idx
      in t\<lparr>regions := (regions t)[idx := rgn\<lparr>r_base := at, r_size := r_size rgn - (at - r_base rgn)\<rparr>],
           total_size := total_size t - (at - r_base rgn)\<rparr>)"

lemma isolate_measure_skip:
  assumes "idx < cnt t" and "\<not> r_base (regions t ! idx) \<ge> end"
  shows "isolate_measure base end t (idx + 1) < isolate_measure base end t idx"
  using assms by (simp add: isolate_measure_def isolate_weight_def flip: Cons_nth_drop_Suc)

lemma isolate_measure_split:
  assumes idx: "idx < cnt t" and rb: "\<not> r_base (regions t ! idx) \<ge> end"
    and ok: "memblock_insert_region (shrink_front t idx at) idx (r_base (regions t ! idx))
               (at - r_base (regions t ! idx)) nid flags = Ok t'"
  shows "at = base \<Longrightarrow> r_base (regions t ! idx) < base \<Longrightarrow>
           isolate_measure base end t' (idx + 1) < isolate_measure base end t idx"
    and "at = end \<Longrightarrow> \<not> r_base (regions t ! idx) < base \<Longrightarrow>
           r_base (regions t ! idx) + r_size (regions t ! idx) > end \<Longrightarrow>
           isolate_measure base end t' idx < isolate_measure base end t idx"
proof -
  let ?r = "regions t ! idx"
  have t': "regions t' = take idx (regions t)
      @ \<lparr>r_base = r_base ?r, r_size = at - r_base ?r, r_flags = flags\<rparr>
      # ?r\<lparr>r_base := at, r_size := r_size ?r - (at - r_base ?r)\<rparr> # drop (Suc idx) (regions t)"
    using ok idx by (auto simp: memblock_insert_region_def shrink_front_def Let_def
        drop_update_swap Cons_nth_drop_Suc [symmetric] split: if_splits)
  have d: "drop idx (regions t) = ?r # drop (Suc idx) (regions t)"
    using idx by (simp add: Cons_nth_drop_Suc)
  show "at = base \<Longrightarrow> r_base ?r < base \<Longrightarrow>
      isolate_measure base end t' (idx + 1) < isolate_measure base end t idx"
    using idx rb by (simp add: isolate_measure_def t' d isolate_weight_def add.commute)
  show "at = end \<Longrightarrow> \<not> r_base ?r < base \<Longrightarrow> r_base ?r + r_size ?r > end \<Longrightarrow>
      isolate_measure base end t' idx < isolate_measure base end t idx"
    using idx rb by (simp add: isolate_measure_def t' d isolate_weight_def)
qed

function isolate_loop ::
    "phys_addr \<Rightarrow> phys_addr \<Rightarrow> memblock_type \<Rightarrow> nat \<Rightarrow> nat \<Rightarrow> nat
     \<Rightarrow> (memblock_type \<times> nat \<times> nat) outcome" where
  "isolate_loop base end t idx start_rgn end_rgn =
     (if idx < cnt t then
        let rgn = regions t ! idx; rbase = r_base rgn; rend = rbase + r_size rgn
        in if rbase \<ge> end then Ok (t, start_rgn, end_rgn)
           else if rend \<le> base then isolate_loop base end t (idx + 1) start_rgn end_rgn
           else if rbase < base then
             (case memblock_insert_region (shrink_front t idx base) idx rbase (base - rbase)
                     (memblock_get_region_node rgn) (r_flags rgn) of
                Ok t' \<Rightarrow> isolate_loop base end t' (idx + 1) start_rgn end_rgn
              | Bug \<Rightarrow> Bug
              | OutOfFuel \<Rightarrow> OutOfFuel)
           else if rend > end then
             (case memblock_insert_region (shrink_front t idx end) idx rbase (end - rbase)
                     (memblock_get_region_node rgn) (r_flags rgn) of
                Ok t' \<Rightarrow> isolate_loop base end t' idx start_rgn end_rgn
              | Bug \<Rightarrow> Bug
              | OutOfFuel \<Rightarrow> OutOfFuel)
           else isolate_loop base end t (idx + 1) (if end_rgn = 0 then idx else start_rgn) (idx + 1)
      else Ok (t, start_rgn, end_rgn))"
  by pat_completeness auto
termination
  by (relation "measure (\<lambda>(base, end, t, idx, s, e). isolate_measure base end t idx)")
     (auto intro: isolate_measure_skip [simplified] isolate_measure_split [simplified])

declare isolate_loop.simps [simp del]

section \<open>Walking the free ranges\<close>

definition should_skip_region :: "mb_kind \<Rightarrow> memblock_region \<Rightarrow> int \<Rightarrow> u32 \<Rightarrow> bool" where
  "should_skip_region k m nid flags =
     (if k \<noteq> Memory then False
      else if nid \<noteq> NUMA_NO_NODE \<and> nid \<noteq> memblock_get_region_node m then True
      else if flags AND MEMBLOCK_MIRROR \<noteq> 0 \<and> r_flags m AND MEMBLOCK_MIRROR = 0 then True
      else if flags AND MEMBLOCK_NOMAP = 0 \<and> r_flags m AND MEMBLOCK_NOMAP \<noteq> 0 then True
      else if flags AND MEMBLOCK_DRIVER_MANAGED = 0 \<and> r_flags m AND MEMBLOCK_DRIVER_MANAGED \<noteq> 0
      then True
      else False)"

text \<open>
  The gap before entry \<open>j\<close> of a table: \<open>r_start\<close> and \<open>r_end\<close> of \<open>__next_mem_range\<close>. The test
  \<open>movable_node_is_enabled()\<close> of \<open>should_skip_region\<close> is the constant false of this build.
\<close>

definition gap_start :: "memblock_type \<Rightarrow> nat \<Rightarrow> phys_addr" where
  "gap_start tb j =
     (if j \<noteq> 0 then r_base (regions tb ! (j - 1)) + r_size (regions tb ! (j - 1)) else 0)"

definition gap_end :: "memblock_type \<Rightarrow> nat \<Rightarrow> phys_addr" where
  "gap_end tb j = (if j < cnt tb then r_base (regions tb ! j) else PHYS_ADDR_MAX)"

function next_gap :: "memblock_type \<Rightarrow> phys_addr \<Rightarrow> phys_addr \<Rightarrow> nat \<Rightarrow> bool \<times> nat" where
  "next_gap tb m_start m_end idx_b =
     (if idx_b < cnt tb + 1 then
        if gap_start tb idx_b \<ge> m_end then (False, idx_b)
        else if m_start < gap_end tb idx_b then (True, idx_b)
        else next_gap tb m_start m_end (idx_b + 1)
      else (False, idx_b))"
  by pat_completeness auto
termination
  by (relation "measure (\<lambda>(tb, s, e, i). cnt tb + 1 - i)") auto

declare next_gap.simps [simp del]

type_synonym mem_range = "phys_addr \<times> phys_addr \<times> int"

text \<open>
  \<open>__next_mem_range\<close>. The cursor packs \<open>idx_a\<close> and \<open>idx_b\<close> into one \<open>u64\<close>; here it is the pair,
  and \<open>None\<close> is the end mark \<open>ULLONG_MAX\<close>. \<open>tb\<close> is the optional \<open>type_b\<close>.
\<close>

function next_mem_range_from ::
    "int \<Rightarrow> u32 \<Rightarrow> mb_kind \<Rightarrow> memblock_type \<Rightarrow> memblock_type option \<Rightarrow> nat \<Rightarrow> nat
     \<Rightarrow> (mem_range \<times> nat \<times> nat) option" where
  "next_mem_range_from nid flags k ta tb idx_a idx_b =
     (if idx_a < cnt ta then
        let m = regions ta ! idx_a; m_start = r_base m; m_end = r_base m + r_size m;
            m_nid = memblock_get_region_node m
        in if should_skip_region k m nid flags
           then next_mem_range_from nid flags k ta tb (idx_a + 1) idx_b
           else case tb of
             None \<Rightarrow> Some ((m_start, m_end, m_nid), idx_a + 1, idx_b)
           | Some b \<Rightarrow>
               (let (found, j) = next_gap b m_start m_end idx_b
                in if found
                   then Some ((max m_start (gap_start b j), min m_end (gap_end b j), m_nid),
                              if m_end \<le> gap_end b j then (idx_a + 1, j) else (idx_a, j + 1))
                   else next_mem_range_from nid flags k ta tb (idx_a + 1) j)
      else None)"
  by pat_completeness auto
termination
  by (relation "measure (\<lambda>(nid, flags, k, ta, tb, a, b). cnt ta - a)") auto

declare next_mem_range_from.simps [simp del]

definition next_mem_range ::
    "int \<Rightarrow> u32 \<Rightarrow> mb_kind \<Rightarrow> memblock_type \<Rightarrow> memblock_type option \<Rightarrow> nat \<Rightarrow> nat
     \<Rightarrow> (mem_range \<times> nat \<times> nat) option" where
  "next_mem_range nid flags k ta tb idx_a idx_b =
     (let nid = (if nid = MAX_NUMNODES then NUMA_NO_NODE else nid)
      in next_mem_range_from nid flags k ta tb idx_a idx_b)"

definition cursor_measure :: "memblock_type \<Rightarrow> memblock_type option \<Rightarrow> nat \<Rightarrow> nat \<Rightarrow> nat" where
  "cursor_measure ta tb a b =
     (cnt ta - a) + (case tb of None \<Rightarrow> 0 | Some t \<Rightarrow> cnt t + 1 - b)"

lemma next_gap_bounds:
  "next_gap tb s e b = (f, j) \<Longrightarrow> b \<le> j \<and> (f \<longrightarrow> j < cnt tb + 1)"
proof (induction tb s e b rule: next_gap.induct)
  case (1 tb s e b)
  then show ?case
    by (auto simp: next_gap.simps [of tb s e b] split: if_splits dest: "1.IH")
qed

lemma next_mem_range_from_progress:
  "next_mem_range_from nid flags k ta tb a b = Some (r, a', b') \<Longrightarrow>
     cursor_measure ta tb a' b' < cursor_measure ta tb a b"
proof (induction nid flags k ta tb a b rule: next_mem_range_from.induct)
  case (1 nid flags k ta tb a b)
  show ?case
  proof (cases "a < cnt ta")
    case False
    with "1.prems" show ?thesis by (simp add: next_mem_range_from.simps [of _ _ _ _ _ a])
  next
    case a: True
    let ?m = "regions ta ! a"
    show ?thesis
    proof (cases "should_skip_region k ?m nid flags")
      case True
      with a "1.prems" have "cursor_measure ta tb a' b' < cursor_measure ta tb (a + 1) b"
        by (intro "1.IH"(1)) (auto simp: next_mem_range_from.simps [of _ _ _ _ _ a] Let_def)
      with a show ?thesis by (simp add: cursor_measure_def)
    next
      case noskip: False
      show ?thesis
      proof (cases tb)
        case None
        with a noskip "1.prems" show ?thesis
          by (auto simp: next_mem_range_from.simps [of _ _ _ _ _ a] Let_def cursor_measure_def)
      next
        case (Some t)
        obtain f j where fj: "next_gap t (r_base ?m) (r_base ?m + r_size ?m) b = (f, j)"
          by fastforce
        note j = next_gap_bounds [OF fj]
        show ?thesis
        proof (cases f)
          case True
          with a noskip Some fj j "1.prems" show ?thesis
            by (auto simp: next_mem_range_from.simps [of _ _ _ _ _ a] Let_def cursor_measure_def
                split: if_splits)
        next
          case False
          with a noskip Some fj "1.prems"
          have "cursor_measure ta tb a' b' < cursor_measure ta tb (a + 1) j"
            by (intro "1.IH"(2) [OF a refl refl refl refl noskip Some fj [symmetric] refl])
               (auto simp: next_mem_range_from.simps [of _ _ _ _ _ a] Let_def)
          moreover from a j have "cnt ta - (a + 1) < cnt ta - a" and "cnt t + 1 - j \<le> cnt t + 1 - b"
            by auto
          ultimately show ?thesis
            unfolding cursor_measure_def Some option.case by linarith
        qed
      qed
    qed
  qed
qed

text \<open>\<open>__for_each_mem_range\<close>: the ranges the macro's loop visits, from a cursor on.\<close>

function mem_ranges_from ::
    "int \<Rightarrow> u32 \<Rightarrow> mb_kind \<Rightarrow> memblock_type \<Rightarrow> memblock_type option \<Rightarrow> nat \<Rightarrow> nat
     \<Rightarrow> mem_range list" where
  "mem_ranges_from nid flags k ta tb a b =
     (case next_mem_range nid flags k ta tb a b of
        None \<Rightarrow> []
      | Some (r, a', b') \<Rightarrow> r # mem_ranges_from nid flags k ta tb a' b')"
  by pat_completeness auto
termination
  by (relation "measure (\<lambda>(nid, flags, k, ta, tb, a, b). cursor_measure ta tb a b)")
     (auto simp: next_mem_range_def Let_def dest: next_mem_range_from_progress)

declare mem_ranges_from.simps [simp del]

text \<open>
  \<open>__next_mem_range_rev\<close> walks both tables downwards; its indices are signed and stop below 0. The
  cursor \<open>None\<close> stands for \<open>ULLONG_MAX\<close>, which is also the start value.
\<close>

function prev_gap :: "memblock_type \<Rightarrow> phys_addr \<Rightarrow> phys_addr \<Rightarrow> int \<Rightarrow> bool \<times> int" where
  "prev_gap tb m_start m_end idx_b =
     (if idx_b \<ge> 0 then
        if gap_end tb (nat idx_b) \<le> m_start then (False, idx_b)
        else if m_end > gap_start tb (nat idx_b) then (True, idx_b)
        else prev_gap tb m_start m_end (idx_b - 1)
      else (False, idx_b))"
  by pat_completeness auto
termination
  by (relation "measure (\<lambda>(tb, s, e, i). nat (i + 1))") auto

declare prev_gap.simps [simp del]

function next_mem_range_rev_from ::
    "int \<Rightarrow> u32 \<Rightarrow> mb_kind \<Rightarrow> memblock_type \<Rightarrow> memblock_type option \<Rightarrow> int \<Rightarrow> int
     \<Rightarrow> (mem_range \<times> int \<times> int) option" where
  "next_mem_range_rev_from nid flags k ta tb idx_a idx_b =
     (if idx_a \<ge> 0 then
        let m = regions ta ! nat idx_a; m_start = r_base m; m_end = r_base m + r_size m;
            m_nid = memblock_get_region_node m
        in if should_skip_region k m nid flags
           then next_mem_range_rev_from nid flags k ta tb (idx_a - 1) idx_b
           else case tb of
             None \<Rightarrow> Some ((m_start, m_end, m_nid), idx_a - 1, idx_b)
           | Some b \<Rightarrow>
               (let (found, j) = prev_gap b m_start m_end idx_b
                in if found
                   then Some ((max m_start (gap_start b (nat j)), min m_end (gap_end b (nat j)), m_nid),
                              if m_start \<ge> gap_start b (nat j) then (idx_a - 1, j) else (idx_a, j - 1))
                   else next_mem_range_rev_from nid flags k ta tb (idx_a - 1) j)
      else None)"
  by pat_completeness auto
termination
  by (relation "measure (\<lambda>(nid, flags, k, ta, tb, a, b). nat (a + 1))") auto

declare next_mem_range_rev_from.simps [simp del]

definition next_mem_range_rev ::
    "int \<Rightarrow> u32 \<Rightarrow> mb_kind \<Rightarrow> memblock_type \<Rightarrow> memblock_type option \<Rightarrow> (int \<times> int) option
     \<Rightarrow> (mem_range \<times> int \<times> int) option" where
  "next_mem_range_rev nid flags k ta tb idx =
     (let nid = (if nid = MAX_NUMNODES then NUMA_NO_NODE else nid);
          (idx_a, idx_b) = (case idx of
             None \<Rightarrow> (int (cnt ta) - 1, case tb of Some b \<Rightarrow> int (cnt b) | None \<Rightarrow> 0)
           | Some i \<Rightarrow> i)
      in next_mem_range_rev_from nid flags k ta tb idx_a idx_b)"

definition cursor_measure_rev :: "memblock_type option \<Rightarrow> int \<Rightarrow> int \<Rightarrow> nat" where
  "cursor_measure_rev tb a b = nat (a + 1) + (case tb of None \<Rightarrow> 0 | Some t \<Rightarrow> nat (b + 1))"

lemma prev_gap_bounds:
  "prev_gap tb s e b = (f, j) \<Longrightarrow> j \<le> b \<and> (f \<longrightarrow> 0 \<le> j)"
proof (induction tb s e b rule: prev_gap.induct)
  case (1 tb s e b)
  then show ?case
    by (auto simp: prev_gap.simps [of tb s e b] split: if_splits dest: "1.IH")
qed

lemma next_mem_range_rev_from_progress:
  "next_mem_range_rev_from nid flags k ta tb a b = Some (r, a', b') \<Longrightarrow>
     cursor_measure_rev tb a' b' < cursor_measure_rev tb a b"
proof (induction nid flags k ta tb a b rule: next_mem_range_rev_from.induct)
  case (1 nid flags k ta tb a b)
  show ?case
  proof (cases "0 \<le> a")
    case False
    with "1.prems" show ?thesis by (simp add: next_mem_range_rev_from.simps [of _ _ _ _ _ a])
  next
    case a: True
    let ?m = "regions ta ! nat a"
    show ?thesis
    proof (cases "should_skip_region k ?m nid flags")
      case True
      with a "1.prems" have "cursor_measure_rev tb a' b' < cursor_measure_rev tb (a - 1) b"
        by (intro "1.IH"(1)) (auto simp: next_mem_range_rev_from.simps [of _ _ _ _ _ a] Let_def)
      with a show ?thesis by (simp add: cursor_measure_rev_def)
    next
      case noskip: False
      show ?thesis
      proof (cases tb)
        case None
        with a noskip "1.prems" show ?thesis
          by (auto simp: next_mem_range_rev_from.simps [of _ _ _ _ _ a] Let_def cursor_measure_rev_def)
      next
        case (Some t)
        obtain f j where fj: "prev_gap t (r_base ?m) (r_base ?m + r_size ?m) b = (f, j)"
          by fastforce
        note j = prev_gap_bounds [OF fj]
        show ?thesis
        proof (cases f)
          case True
          with a noskip Some fj j "1.prems" show ?thesis
            by (auto simp: next_mem_range_rev_from.simps [of _ _ _ _ _ a] Let_def
                cursor_measure_rev_def split: if_splits)
        next
          case False
          with a noskip Some fj "1.prems"
          have "cursor_measure_rev tb a' b' < cursor_measure_rev tb (a - 1) j"
            by (intro "1.IH"(2) [OF a refl refl refl refl noskip Some fj [symmetric] refl])
               (auto simp: next_mem_range_rev_from.simps [of _ _ _ _ _ a] Let_def)
          moreover from a j have "nat (a - 1 + 1) < nat (a + 1)" and "nat (j + 1) \<le> nat (b + 1)"
            by auto
          ultimately show ?thesis
            unfolding cursor_measure_rev_def Some option.case by linarith
        qed
      qed
    qed
  qed
qed

function mem_ranges_rev_from ::
    "int \<Rightarrow> u32 \<Rightarrow> mb_kind \<Rightarrow> memblock_type \<Rightarrow> memblock_type option \<Rightarrow> int \<Rightarrow> int
     \<Rightarrow> mem_range list" where
  "mem_ranges_rev_from nid flags k ta tb a b =
     (case next_mem_range_rev nid flags k ta tb (Some (a, b)) of
        None \<Rightarrow> []
      | Some (r, a', b') \<Rightarrow> r # mem_ranges_rev_from nid flags k ta tb a' b')"
  by pat_completeness auto
termination
  by (relation "measure (\<lambda>(nid, flags, k, ta, tb, a, b). cursor_measure_rev tb a b)")
     (auto simp: next_mem_range_rev_def Let_def dest: next_mem_range_rev_from_progress)

declare mem_ranges_rev_from.simps [simp del]

definition for_each_free_mem_range :: "int \<Rightarrow> u32 \<Rightarrow> memblock \<Rightarrow> mem_range list" where
  "for_each_free_mem_range nid flags mb =
     mem_ranges_from nid flags Memory (memory mb) (Some (reserved mb)) 0 0"

definition for_each_free_mem_range_reverse :: "int \<Rightarrow> u32 \<Rightarrow> memblock \<Rightarrow> mem_range list" where
  "for_each_free_mem_range_reverse nid flags mb =
     (case next_mem_range_rev nid flags Memory (memory mb) (Some (reserved mb)) None of
        None \<Rightarrow> []
      | Some (r, a, b) \<Rightarrow>
          r # mem_ranges_rev_from nid flags Memory (memory mb) (Some (reserved mb)) a b)"

section \<open>Finding a free block\<close>

fun scan_bottom_up ::
    "phys_addr \<Rightarrow> phys_addr \<Rightarrow> phys_addr \<Rightarrow> phys_addr \<Rightarrow> mem_range list \<Rightarrow> phys_addr" where
  "scan_bottom_up start end sz align [] = 0"
| "scan_bottom_up start end sz align ((s, e, n) # rs) =
     (let this_start = clamp s start end; this_end = clamp e start end;
          cand = round_up this_start align
      in if cand < this_end \<and> this_end - cand \<ge> sz then cand
         else scan_bottom_up start end sz align rs)"

definition memblock_find_range_bottom_up ::
    "memblock \<Rightarrow> phys_addr \<Rightarrow> phys_addr \<Rightarrow> phys_addr \<Rightarrow> phys_addr \<Rightarrow> int \<Rightarrow> u32 \<Rightarrow> phys_addr" where
  "memblock_find_range_bottom_up mb start end sz align nid flags =
     scan_bottom_up start end sz align (for_each_free_mem_range nid flags mb)"

fun scan_top_down ::
    "phys_addr \<Rightarrow> phys_addr \<Rightarrow> phys_addr \<Rightarrow> phys_addr \<Rightarrow> mem_range list \<Rightarrow> phys_addr" where
  "scan_top_down start end sz align [] = 0"
| "scan_top_down start end sz align ((s, e, n) # rs) =
     (let this_start = clamp s start end; this_end = clamp e start end
      in if this_end < sz then scan_top_down start end sz align rs
         else let cand = round_down (this_end - sz) align
              in if cand \<ge> this_start then cand else scan_top_down start end sz align rs)"

definition memblock_find_range_top_down ::
    "memblock \<Rightarrow> phys_addr \<Rightarrow> phys_addr \<Rightarrow> phys_addr \<Rightarrow> phys_addr \<Rightarrow> int \<Rightarrow> u32 \<Rightarrow> phys_addr" where
  "memblock_find_range_top_down mb start end sz align nid flags =
     scan_top_down start end sz align (for_each_free_mem_range_reverse nid flags mb)"

definition memblock_find_in_range_node ::
    "memblock \<Rightarrow> phys_addr \<Rightarrow> phys_addr \<Rightarrow> phys_addr \<Rightarrow> phys_addr \<Rightarrow> int \<Rightarrow> u32 \<Rightarrow> phys_addr" where
  "memblock_find_in_range_node mb sz align start end nid flags =
     (let end = (if end = MEMBLOCK_ALLOC_ACCESSIBLE \<or> end = MEMBLOCK_ALLOC_NOLEAKTRACE
                 then current_limit mb else end);
          start = max start PAGE_SIZE;
          end = max start end
      in if bottom_up mb
         then memblock_find_range_bottom_up mb start end sz align nid flags
         else memblock_find_range_top_down mb start end sz align nid flags)"

definition memblock_find_in_range ::
    "memblock \<Rightarrow> phys_addr \<Rightarrow> phys_addr \<Rightarrow> phys_addr \<Rightarrow> phys_addr \<Rightarrow> phys_addr" where
  "memblock_find_in_range mb start end sz align =
     (let flags = choose_memblock_flags mb;
          ret = memblock_find_in_range_node mb sz align start end NUMA_NO_NODE flags
      in if ret = 0 \<and> flags AND MEMBLOCK_MIRROR \<noteq> 0
         then memblock_find_in_range_node mb sz align start end NUMA_NO_NODE
                (flags AND NOT MEMBLOCK_MIRROR)
         else ret)"

section \<open>Adding, removing and growing\<close>

text \<open>
  \<open>memblock_add_range\<close> and \<open>memblock_isolate_range\<close> may grow their table, growing reserves the new
  array and so may add to the reserved table again: the C functions are mutually recursive. The
  table operations therefore take \<open>double\<close>, the growing function, as an argument, and
  \<open>memblock_double_array\<close> ties the knot with a bound on the depth. \<open>grow_table\<close> is the loop
  \<open>while (cnt + need > max) if (memblock_double_array(...) < 0) return -ENOMEM;\<close>.
\<close>

type_synonym doubler = "mb_kind \<Rightarrow> phys_addr \<Rightarrow> phys_addr \<Rightarrow> memblock \<Rightarrow> (memblock \<times> int) outcome"

fun grow_table ::
    "nat \<Rightarrow> (memblock \<Rightarrow> (memblock \<times> int) outcome) \<Rightarrow> mb_kind \<Rightarrow> nat \<Rightarrow> memblock
     \<Rightarrow> (memblock \<times> int) outcome" where
  "grow_table 0 double k need mb =
     (if cnt (get_type k mb) + need > t_max (get_type k mb) then OutOfFuel else Ok (mb, 0))"
| "grow_table (Suc n) double k need mb =
     (if cnt (get_type k mb) + need > t_max (get_type k mb) then
        obind (double mb) (\<lambda>(mb', r).
          if r < 0 then Ok (mb', - ENOMEM) else grow_table n double k need mb')
      else Ok (mb, 0))"

definition add_range_with ::
    "nat \<Rightarrow> doubler \<Rightarrow> mb_kind \<Rightarrow> phys_addr \<Rightarrow> phys_addr \<Rightarrow> int \<Rightarrow> u32 \<Rightarrow> memblock
     \<Rightarrow> (memblock \<times> int) outcome" where
  "add_range_with n double k obase sz0 nid flags mb =
     (let sz = memblock_cap_size obase sz0; end = obase + sz; t = get_type k mb
      in if sz = 0 then Ok (mb, 0)
         else if r_size (regions t ! 0) = 0 then
           Ok (set_type k (t\<lparr>regions := (regions t)[0 := \<lparr>r_base = obase, r_size = sz, r_flags = flags\<rparr>],
                            total_size := sz\<rparr>) mb, 0)
         else obind (add_range_pass False obase end nid flags t) (\<lambda>(_, nr_new).
           if nr_new = 0 then Ok (mb, 0)
           else obind (grow_table n (double k obase sz) k nr_new mb) (\<lambda>(mb1, ret).
             if ret < 0 then Ok (mb1, ret)
             else obind (add_range_pass True obase end nid flags (get_type k mb1)) (\<lambda>(t1, nr_new).
               if nr_new = 0 then Ok (set_type k t1 mb1, 0)
               else obind (memblock_merge_regions t1) (\<lambda>t2. Ok (set_type k t2 mb1, 0))))))"

definition isolate_range_with ::
    "nat \<Rightarrow> doubler \<Rightarrow> mb_kind \<Rightarrow> phys_addr \<Rightarrow> phys_addr \<Rightarrow> memblock
     \<Rightarrow> (memblock \<times> int \<times> nat \<times> nat) outcome" where
  "isolate_range_with n double k base sz0 mb =
     (let sz = memblock_cap_size base sz0; end = base + sz
      in if sz = 0 then Ok (mb, 0, 0, 0)
         else obind (grow_table n (double k base sz) k 2 mb) (\<lambda>(mb1, ret).
           if ret < 0 then Ok (mb1, ret, 0, 0)
           else obind (isolate_loop base end (get_type k mb1) 0 0 0) (\<lambda>(t, s, e).
             Ok (set_type k t mb1, 0, s, e))))"

definition remove_range_with ::
    "nat \<Rightarrow> doubler \<Rightarrow> mb_kind \<Rightarrow> phys_addr \<Rightarrow> phys_addr \<Rightarrow> memblock \<Rightarrow> (memblock \<times> int) outcome" where
  "remove_range_with n double k base sz mb =
     obind (isolate_range_with n double k base sz mb) (\<lambda>(mb1, ret, start_rgn, end_rgn).
       if ret \<noteq> 0 then Ok (mb1, ret)
       else Ok (set_type k (fold (\<lambda>i t. memblock_remove_region t i) (rev [start_rgn..<end_rgn])
                              (get_type k mb1)) mb1, 0))"

text \<open>The address \<open>memblock_double_array\<close> picks for the new array, 0 when there is none.\<close>

definition double_array_addr ::
    "mb_env \<Rightarrow> mb_kind \<Rightarrow> phys_addr \<Rightarrow> phys_addr \<Rightarrow> phys_addr \<Rightarrow> phys_addr \<Rightarrow> memblock \<Rightarrow> phys_addr" where
  "double_array_addr env k new_size new_alloc_size new_area_start new_area_size mb =
     (if slab_is_available env
      then (case kmalloc env new_size of None \<Rightarrow> 0 | Some pa \<Rightarrow> pa)
      else
        let (nas, naz) = (if k \<noteq> Reserved then (0, 0) else (new_area_start, new_area_size));
            addr = memblock_find_in_range mb (nas + naz) (current_limit mb) new_alloc_size PAGE_SIZE
        in if addr = 0 \<and> naz \<noteq> 0
           then memblock_find_in_range mb 0 (min nas (current_limit mb)) new_alloc_size PAGE_SIZE
           else addr)"

fun memblock_double_array ::
    "nat \<Rightarrow> mb_env \<Rightarrow> mb_kind \<Rightarrow> phys_addr \<Rightarrow> phys_addr \<Rightarrow> memblock \<Rightarrow> (memblock \<times> int) outcome" where
  "memblock_double_array 0 env k new_area_start new_area_size mb =
     (if \<not> memblock_can_resize mb then Ok (mb, -1) else OutOfFuel)"
| "memblock_double_array (Suc n) env k new_area_start new_area_size mb =
     (if \<not> memblock_can_resize mb then Ok (mb, -1)
      else
        let t = get_type k mb;
            old_size = of_nat (t_max t * SIZEOF_REGION); new_size = push_bit 1 old_size;
            old_alloc_size = PAGE_ALIGN old_size; new_alloc_size = PAGE_ALIGN new_size;
            addr = double_array_addr env k new_size new_alloc_size new_area_start new_area_size mb
        in if addr = 0 then Ok (mb, -1)
           else
             let mb1 = set_type k (t\<lparr>t_array := Some addr, t_max := 2 * t_max t\<rparr>) mb
             in obind (if get_in_slab k mb then Ok mb1
                       else case t_array t of
                           None \<Rightarrow> Ok mb1
                         | Some old \<Rightarrow>
                             obind (remove_range_with n (memblock_double_array n env) Reserved
                                      old old_alloc_size mb1) (\<lambda>(mb2, _). Ok mb2))
                  (\<lambda>mb2. obind
                     (if slab_is_available env then Ok mb2
                      else obind (add_range_with n (memblock_double_array n env) Reserved
                                    addr new_alloc_size MAX_NUMNODES 0 mb2)
                             (\<lambda>(mb3, ret). if ret \<noteq> 0 then Bug else Ok mb3))
                     (\<lambda>mb3. Ok (set_in_slab k (slab_is_available env) mb3, 0))))"

definition memblock_add_range ::
    "nat \<Rightarrow> mb_env \<Rightarrow> mb_kind \<Rightarrow> phys_addr \<Rightarrow> phys_addr \<Rightarrow> int \<Rightarrow> u32 \<Rightarrow> memblock
     \<Rightarrow> (memblock \<times> int) outcome" where
  "memblock_add_range n env = add_range_with n (memblock_double_array n env)"

definition memblock_isolate_range ::
    "nat \<Rightarrow> mb_env \<Rightarrow> mb_kind \<Rightarrow> phys_addr \<Rightarrow> phys_addr \<Rightarrow> memblock
     \<Rightarrow> (memblock \<times> int \<times> nat \<times> nat) outcome" where
  "memblock_isolate_range n env = isolate_range_with n (memblock_double_array n env)"

definition memblock_remove_range ::
    "nat \<Rightarrow> mb_env \<Rightarrow> mb_kind \<Rightarrow> phys_addr \<Rightarrow> phys_addr \<Rightarrow> memblock \<Rightarrow> (memblock \<times> int) outcome" where
  "memblock_remove_range n env = remove_range_with n (memblock_double_array n env)"

definition memblock_add_node ::
    "nat \<Rightarrow> mb_env \<Rightarrow> phys_addr \<Rightarrow> phys_addr \<Rightarrow> int \<Rightarrow> u32 \<Rightarrow> memblock \<Rightarrow> (memblock \<times> int) outcome" where
  "memblock_add_node n env base sz nid flags mb = memblock_add_range n env Memory base sz nid flags mb"

definition memblock_add ::
    "nat \<Rightarrow> mb_env \<Rightarrow> phys_addr \<Rightarrow> phys_addr \<Rightarrow> memblock \<Rightarrow> (memblock \<times> int) outcome" where
  "memblock_add n env base sz mb = memblock_add_range n env Memory base sz MAX_NUMNODES 0 mb"

definition memblock_remove ::
    "nat \<Rightarrow> mb_env \<Rightarrow> phys_addr \<Rightarrow> phys_addr \<Rightarrow> memblock \<Rightarrow> (memblock \<times> int) outcome" where
  "memblock_remove n env base sz mb = memblock_remove_range n env Memory base sz mb"

definition memblock_phys_free ::
    "nat \<Rightarrow> mb_env \<Rightarrow> phys_addr \<Rightarrow> phys_addr \<Rightarrow> memblock \<Rightarrow> (memblock \<times> int) outcome" where
  "memblock_phys_free n env base sz mb = memblock_remove_range n env Reserved base sz mb"

definition memblock_reserve ::
    "nat \<Rightarrow> mb_env \<Rightarrow> phys_addr \<Rightarrow> phys_addr \<Rightarrow> memblock \<Rightarrow> (memblock \<times> int) outcome" where
  "memblock_reserve n env base sz mb = memblock_add_range n env Reserved base sz MAX_NUMNODES 0 mb"

section \<open>Allocation\<close>

text \<open>
  One round of \<open>memblock_alloc_range_nid\<close> from the label \<open>again\<close>: the result is the address found
  and reserved, or 0 (an address that was found but could not be reserved counts as not found).
\<close>

definition alloc_try ::
    "nat \<Rightarrow> mb_env \<Rightarrow> phys_addr \<Rightarrow> phys_addr \<Rightarrow> phys_addr \<Rightarrow> phys_addr \<Rightarrow> int \<Rightarrow> u32 \<Rightarrow> memblock
     \<Rightarrow> (memblock \<times> phys_addr) outcome" where
  "alloc_try n env sz align start end nid flags mb =
     (let found = memblock_find_in_range_node mb sz align start end nid flags
      in if found = 0 then Ok (mb, 0)
         else obind (memblock_reserve n env found sz mb) (\<lambda>(mb', ret).
                Ok (mb', if ret = 0 then found else 0)))"

definition alloc_round ::
    "nat \<Rightarrow> mb_env \<Rightarrow> phys_addr \<Rightarrow> phys_addr \<Rightarrow> phys_addr \<Rightarrow> phys_addr \<Rightarrow> int \<Rightarrow> bool \<Rightarrow> u32 \<Rightarrow> memblock
     \<Rightarrow> (memblock \<times> phys_addr) outcome" where
  "alloc_round n env sz align start end nid exact_nid flags mb =
     obind (alloc_try n env sz align start end nid flags mb) (\<lambda>(mb1, found).
       if found \<noteq> 0 then Ok (mb1, found)
       else if nid \<noteq> NUMA_NO_NODE \<and> \<not> exact_nid
       then alloc_try n env sz align start end NUMA_NO_NODE flags mb1
       else Ok (mb1, 0))"

definition memblock_alloc_range_nid ::
    "nat \<Rightarrow> mb_env \<Rightarrow> phys_addr \<Rightarrow> phys_addr \<Rightarrow> phys_addr \<Rightarrow> phys_addr \<Rightarrow> int \<Rightarrow> bool \<Rightarrow> memblock
     \<Rightarrow> (memblock \<times> phys_addr) outcome" where
  "memblock_alloc_range_nid n env sz align start end nid exact_nid mb =
     (let flags = choose_memblock_flags mb;
          nid = (if nid = MAX_NUMNODES then NUMA_NO_NODE else nid);
          align = (if align = 0 then SMP_CACHE_BYTES env else align)
      in obind (alloc_round n env sz align start end nid exact_nid flags mb) (\<lambda>(mb1, found).
           if found \<noteq> 0 then Ok (mb1, found)
           else if flags AND MEMBLOCK_MIRROR \<noteq> 0
           then alloc_round n env sz align start end nid exact_nid (flags AND NOT MEMBLOCK_MIRROR) mb1
           else Ok (mb1, 0)))"

definition memblock_phys_alloc_range ::
    "nat \<Rightarrow> mb_env \<Rightarrow> phys_addr \<Rightarrow> phys_addr \<Rightarrow> phys_addr \<Rightarrow> phys_addr \<Rightarrow> memblock
     \<Rightarrow> (memblock \<times> phys_addr) outcome" where
  "memblock_phys_alloc_range n env sz align start end mb =
     memblock_alloc_range_nid n env sz align start end NUMA_NO_NODE False mb"

text \<open>
  \<open>memblock_alloc_internal\<close>; the branch taken once slab is up (\<open>kzalloc_node\<close>) returns the block
  of the slab allocator and leaves memblock alone. \<open>None\<close> is \<open>NULL\<close>.
\<close>

definition memblock_alloc_internal ::
    "nat \<Rightarrow> mb_env \<Rightarrow> phys_addr \<Rightarrow> phys_addr \<Rightarrow> phys_addr \<Rightarrow> phys_addr \<Rightarrow> int \<Rightarrow> bool \<Rightarrow> memblock
     \<Rightarrow> (memblock \<times> u32 option) outcome" where
  "memblock_alloc_internal n env sz align min_addr max_addr nid exact_nid mb =
     (if slab_is_available env then Ok (mb, map_option (phys_to_virt env) (kmalloc env sz))
      else
        let max_addr = (if max_addr > current_limit mb then current_limit mb else max_addr)
        in obind (memblock_alloc_range_nid n env sz align min_addr max_addr nid exact_nid mb)
             (\<lambda>(mb1, alloc).
               obind (if alloc = 0 \<and> min_addr \<noteq> 0
                      then memblock_alloc_range_nid n env sz align 0 max_addr nid exact_nid mb1
                      else Ok (mb1, alloc))
                 (\<lambda>(mb2, alloc). Ok (mb2, if alloc = 0 then None else Some (phys_to_virt env alloc)))))"

section \<open>Queries and trimming\<close>

definition memblock_start_of_DRAM :: "memblock \<Rightarrow> phys_addr" where
  "memblock_start_of_DRAM mb = r_base (regions (memory mb) ! 0)"

definition memblock_end_of_DRAM :: "memblock \<Rightarrow> phys_addr" where
  "memblock_end_of_DRAM mb =
     (let idx = cnt (memory mb) - 1
      in r_base (regions (memory mb) ! idx) + r_size (regions (memory mb) ! idx))"

function search_loop :: "memblock_type \<Rightarrow> phys_addr \<Rightarrow> nat \<Rightarrow> nat \<Rightarrow> int" where
  "search_loop t addr left right =
     (let mid = (right + left) div 2
      in if addr < r_base (regions t ! mid)
         then (if left < mid then search_loop t addr left mid else -1)
         else if addr \<ge> r_base (regions t ! mid) + r_size (regions t ! mid)
         then (if mid + 1 < right then search_loop t addr (mid + 1) right else -1)
         else int mid)"
  by pat_completeness auto
termination
  by (relation "measure (\<lambda>(t, addr, left, right). right - left)") auto

declare search_loop.simps [simp del]

definition memblock_search :: "memblock_type \<Rightarrow> phys_addr \<Rightarrow> int" where
  "memblock_search t addr = search_loop t addr 0 (cnt t)"

definition memblock_is_region_memory :: "memblock \<Rightarrow> phys_addr \<Rightarrow> phys_addr \<Rightarrow> bool" where
  "memblock_is_region_memory mb base sz =
     (let idx = memblock_search (memory mb) base;
          end = base + memblock_cap_size base sz
      in if idx = -1 then False
         else r_base (regions (memory mb) ! nat idx) + r_size (regions (memory mb) ! nat idx) \<ge> end)"

definition memblock_is_region_reserved :: "memblock \<Rightarrow> phys_addr \<Rightarrow> phys_addr \<Rightarrow> bool" where
  "memblock_is_region_reserved mb base sz = memblock_overlaps_region (reserved mb) base sz"

definition trim_start :: "phys_addr \<Rightarrow> memblock_region \<Rightarrow> phys_addr" where
  "trim_start align r = round_up (r_base r) align"

definition trim_end :: "phys_addr \<Rightarrow> memblock_region \<Rightarrow> phys_addr" where
  "trim_end align r = round_down (r_base r + r_size r) align"

definition trim_same :: "phys_addr \<Rightarrow> memblock_region \<Rightarrow> bool" where
  "trim_same align r \<longleftrightarrow> trim_start align r = r_base r \<and> trim_end align r = r_base r + r_size r"

definition trim_weight :: "phys_addr \<Rightarrow> memblock_region \<Rightarrow> nat" where
  "trim_weight align r = (if trim_same align r then 1 else 2)"

lemma trim_weight_pos: "0 < trim_weight align r"
  by (simp add: trim_weight_def)

lemma trim_weight_empty: "trim_weight align empty_region = 1"
  by (simp add: trim_weight_def trim_same_def trim_start_def trim_end_def empty_region_def
      round_up_def round_down_def)

lemma trim_weight_remove:
  assumes "i < cnt t" and "\<not> trim_same align (regions t ! i)"
  shows "sum_list (map (trim_weight align) (drop i (regions (memblock_remove_region t i))))
     < sum_list (map (trim_weight align) (drop i (regions t)))"
proof -
  have d: "drop i (regions t) = regions t ! i # drop (Suc i) (regions t)"
    using assms(1) by (simp add: Cons_nth_drop_Suc)
  show ?thesis
  proof (cases "cnt t = 1")
    case True
    then obtain r where "regions t = [r]" by (auto simp: length_Suc_conv)
    with assms show ?thesis
      by (simp add: memblock_remove_region_def trim_weight_empty) (simp add: trim_weight_def)
  next
    case False
    with assms show ?thesis
      unfolding d by (auto simp: memblock_remove_region_def Let_def trim_weight_def)
  qed
qed

function trim_from :: "phys_addr \<Rightarrow> memblock_type \<Rightarrow> nat \<Rightarrow> memblock_type" where
  "trim_from align t i =
     (if i < cnt t then
        if trim_same align (regions t ! i) then trim_from align t (i + 1)
        else if trim_start align (regions t ! i) < trim_end align (regions t ! i)
        then trim_from align
               (t\<lparr>regions := (regions t)[i := (regions t ! i)
                   \<lparr>r_base := trim_start align (regions t ! i),
                    r_size := trim_end align (regions t ! i) - trim_start align (regions t ! i)\<rparr>]\<rparr>)
               (i + 1)
        else trim_from align (memblock_remove_region t i) i
      else t)"
  by pat_completeness auto
termination
proof (relation "measure (\<lambda>(align, t, i). sum_list (map (trim_weight align) (drop i (regions t))))",
    goal_cases)
  case 1
  show ?case by simp
next
  case (2 align t i)
  then show ?case by (simp add: trim_weight_def flip: Cons_nth_drop_Suc)
next
  case (3 align t i)
  then show ?case by (simp add: trim_weight_def flip: Cons_nth_drop_Suc)
next
  case (4 align t i)
  then show ?case by (simp add: trim_weight_remove)
qed

declare trim_from.simps [simp del]

definition memblock_trim_memory :: "phys_addr \<Rightarrow> memblock \<Rightarrow> memblock" where
  "memblock_trim_memory align mb = mb\<lparr>memory := trim_from align (memory mb) 0\<rparr>"

definition memblock_set_current_limit :: "phys_addr \<Rightarrow> memblock \<Rightarrow> memblock" where
  "memblock_set_current_limit limit mb = mb\<lparr>current_limit := limit\<rparr>"

definition memblock_get_current_limit :: "memblock \<Rightarrow> phys_addr" where
  "memblock_get_current_limit mb = current_limit mb"

definition memblock_allow_resize :: "memblock \<Rightarrow> memblock" where
  "memblock_allow_resize mb = mb\<lparr>memblock_can_resize := True\<rparr>"

end
