(* ===== verification/Memblock_Table.thy ===== *)
theory Memblock_Table
  imports Memblock
begin

text \<open>
  The tables of memblock as sets of addresses: the well-formedness of a table (sorted, disjoint,
  no wrap-around, \<open>total_size\<close> the sum of the sizes), and what adding, merging, isolating and
  removing do to the set of addresses a table covers.
\<close>

section \<open>Tables as sets of addresses\<close>

abbreviation rb :: "memblock_region \<Rightarrow> nat" where
  "rb r \<equiv> unat (r_base r)"

abbreviation re :: "memblock_region \<Rightarrow> nat" where
  "re r \<equiv> unat (r_base r) + unat (r_size r)"

definition addrs :: "memblock_region \<Rightarrow> nat set" where
  "addrs r = {rb r ..< re r}"

definition covers :: "memblock_region list \<Rightarrow> nat set" where
  "covers rs = (\<Union>r \<in> set rs. addrs r)"

abbreviation covered :: "memblock_type \<Rightarrow> nat set" where
  "covered t \<equiv> covers (regions t)"

definition region_ok :: "memblock_region \<Rightarrow> bool" where
  "region_ok r \<longleftrightarrow> re r < 2 ^ 32 \<and> r_size r \<noteq> 0"

definition table_ok :: "memblock_region list \<Rightarrow> bool" where
  "table_ok rs \<longleftrightarrow> sorted_wrt (\<lambda>a b. re a \<le> rb b) rs \<and> (\<forall>r \<in> set rs. region_ok r)"

definition sizes :: "memblock_region list \<Rightarrow> phys_addr" where
  "sizes rs = sum_list (map r_size rs)"

text \<open>
  A table is either the single empty entry of an empty table or a sorted list of disjoint
  non-empty regions; it fits its array and \<open>total_size\<close> is the sum of the sizes.
\<close>

definition type_ok :: "memblock_type \<Rightarrow> bool" where
  "type_ok t \<longleftrightarrow> regions t \<noteq> [] \<and> cnt t \<le> t_max t
     \<and> (regions t = [empty_region] \<or> table_ok (regions t))
     \<and> total_size t = sizes (regions t)"

lemma covers_simps [simp]:
  "covers [] = {}"
  "covers (r # rs) = addrs r \<union> covers rs"
  "covers (rs @ rs') = covers rs \<union> covers rs'"
  by (auto simp: covers_def)

lemma table_ok_Nil [simp]: "table_ok []"
  by (simp add: table_ok_def)

lemma table_ok_Cons:
  "table_ok (r # rs) \<longleftrightarrow> region_ok r \<and> table_ok rs \<and> (\<forall>s \<in> set rs. re r \<le> rb s)"
  by (auto simp: table_ok_def)

lemma table_ok_append:
  "table_ok (rs @ rs') \<longleftrightarrow>
     table_ok rs \<and> table_ok rs' \<and> (\<forall>r \<in> set rs. \<forall>s \<in> set rs'. re r \<le> rb s)"
  by (auto simp: table_ok_def sorted_wrt_append)

lemma sizes_simps [simp]:
  "sizes [] = 0" "sizes (r # rs) = r_size r + sizes rs" "sizes (rs @ rs') = sizes rs + sizes rs'"
  by (simp_all add: sizes_def)

lemma unat_pos [simp]: "0 < unat (x :: u32) \<longleftrightarrow> x \<noteq> 0"
  by (metis unat_0 unat_eq_zero neq0_conv)

lemma unat_r_end: "region_ok r \<Longrightarrow> unat (r_base r + r_size r) = re r"
  by (simp add: region_ok_def unat_add_nowrap)

lemma re_gt_rb: "region_ok r \<Longrightarrow> rb r < re r"
  by (simp add: region_ok_def)

lemma unat_PHYS_ADDR_MAX: "unat PHYS_ADDR_MAX = 4294967295"
  by (simp add: PHYS_ADDR_MAX_def unsigned_minus_1_eq_mask mask_eq_exp_minus_1)

lemma cap_size_nowrap: "unat base + unat (memblock_cap_size base sz) < 2 ^ 32"
proof -
  have "unat (memblock_cap_size base sz) \<le> unat (PHYS_ADDR_MAX - base)"
    by (simp add: memblock_cap_size_def unat_min)
  also have "unat (PHYS_ADDR_MAX - base) = 2 ^ 32 - 1 - unat base"
  proof -
    have "base \<le> PHYS_ADDR_MAX" by (simp add: PHYS_ADDR_MAX_def)
    then have "unat (PHYS_ADDR_MAX - base) = unat PHYS_ADDR_MAX - unat base"
      by (rule unat_sub)
    then show ?thesis by (simp add: unat_PHYS_ADDR_MAX)
  qed
  finally show ?thesis using unat_u32_bound [of base] by simp
qed

text \<open>The part of a request that lies below \<open>PHYS_ADDR_MAX\<close>.\<close>

definition request :: "phys_addr \<Rightarrow> phys_addr \<Rightarrow> nat set" where
  "request base sz = {unat base ..< unat base + unat (memblock_cap_size base sz)}"

section \<open>Adding a range\<close>

text \<open>What the inserting pass leaves, as a recursion over the table.\<close>

abbreviation new_region :: "u32 \<Rightarrow> phys_addr \<Rightarrow> phys_addr \<Rightarrow> memblock_region" where
  "new_region fl a b \<equiv> \<lparr>r_base = a, r_size = b - a, r_flags = fl\<rparr>"

fun add_list :: "u32 \<Rightarrow> phys_addr \<Rightarrow> phys_addr \<Rightarrow> memblock_region list \<Rightarrow> memblock_region list" where
  "add_list fl e base [] = (if base < e then [new_region fl base e] else [])"
| "add_list fl e base (r # rs) =
     (let rbase = r_base r; rend = rbase + r_size r
      in if rbase \<ge> e then (if base < e then new_region fl base e # r # rs else r # rs)
         else if rend \<le> base then r # add_list fl e base rs
         else if rbase > base then new_region fl base rbase # r # add_list fl e (min rend e) rs
         else r # add_list fl e (min rend e) rs)"

declare add_list.simps [simp del]
lemmas add_list_simps [simp] = add_list.simps [unfolded Let_def]

lemma new_region_ok: "a < b \<Longrightarrow> region_ok (new_region fl a b)"
  and re_new_region: "a < b \<Longrightarrow> re (new_region fl a b) = unat b"
proof -
  assume "a < b"
  then have "unat (b - a) = unat b - unat a" and "unat a < unat b"
    by (simp_all add: unat_sub word_less_nat_alt less_imp_le)
  then show "region_ok (new_region fl a b)" and "re (new_region fl a b) = unat b"
    using unat_u32_bound [of b] by (auto simp: region_ok_def)
qed

lemma addrs_new_region: "a < b \<Longrightarrow> addrs (new_region fl a b) = {unat a ..< unat b}"
  using re_new_region [of a b fl] by (simp add: addrs_def)

lemma add_list_lower:
  "\<lbrakk>table_ok rs; \<forall>r \<in> set rs. x \<le> rb r; x \<le> unat base; r \<in> set (add_list fl e base rs)\<rbrakk>
     \<Longrightarrow> x \<le> rb r"
proof (induction fl e base rs arbitrary: r rule: add_list.induct)
  case (1 fl e base)
  then show ?case by (auto split: if_splits)
next
  case (2 fl e base q rs)
  have "x \<le> unat (min (r_base q + r_size q) e)" if "\<not> r_base q \<ge> e" "\<not> r_base q + r_size q \<le> base"
    using that 2 by (auto simp: unat_compare)
  with 2 show ?case by (auto simp: Let_def table_ok_Cons split: if_splits)
qed

lemma add_list_ok:
  "\<lbrakk>table_ok rs\<rbrakk> \<Longrightarrow> table_ok (add_list fl e base rs)"
proof (induction fl e base rs rule: add_list.induct)
  case (1 fl e base)
  then show ?case by (simp add: table_ok_Cons new_region_ok)
next
  case (2 fl e base r rs)
  from "2.prems" have r: "region_ok r" and rs: "table_ok rs" and above: "\<forall>s \<in> set rs. re r \<le> rb s"
    by (auto simp: table_ok_Cons)
  note rend = unat_r_end [OF r]
  consider (stop) "r_base r \<ge> e" | (before) "\<not> r_base r \<ge> e" "r_base r + r_size r \<le> base"
    | (over) "\<not> r_base r \<ge> e" "\<not> r_base r + r_size r \<le> base" by blast
  then show ?case
  proof cases
    case stop
    with 2 r above show ?thesis
      using new_region_ok [of base e fl] re_new_region [of base e fl]
      by (auto simp: table_ok_Cons word_le_nat_alt dest: order_trans [OF _ less_imp_le])
  next
    case before
    then have "\<forall>s \<in> set (add_list fl e base rs). re r \<le> rb s"
      using add_list_lower [OF rs above] rend by (auto simp: word_le_nat_alt)
    with before 2 r rs show ?thesis by (simp add: table_ok_Cons)
  next
    case over
    let ?b = "min (r_base r + r_size r) e"
    have IH: "table_ok (add_list fl e ?b rs)"
      using 2 over rs by (cases "r_base r > base") auto
    show ?thesis
    proof (cases "r_base r + r_size r \<le> e")
      case True
      then have "\<forall>s \<in> set (add_list fl e ?b rs). re r \<le> rb s"
        using add_list_lower [OF rs above, of "r_base r + r_size r"] rend by (auto simp: min_def)
      with over r IH show ?thesis
        using new_region_ok [of base "r_base r" fl] re_new_region [of base "r_base r" fl] re_gt_rb [OF r]
        by (auto simp: table_ok_Cons)
    next
      case False
      have "add_list fl e e rs = rs"
        using rs above False rend
        by (cases rs) (auto simp: word_le_nat_alt)
      with False over r rs above show ?thesis
        using new_region_ok [of base "r_base r" fl] re_new_region [of base "r_base r" fl] re_gt_rb [OF r]
        by (auto simp: table_ok_Cons min_def)
    qed
  qed
qed

lemma add_list_covers:
  "\<lbrakk>table_ok rs; base \<le> e\<rbrakk> \<Longrightarrow> covers (add_list fl e base rs) = covers rs \<union> {unat base ..< unat e}"
proof (induction fl e base rs rule: add_list.induct)
  case (1 fl e base)
  then show ?case by (simp add: addrs_new_region word_less_nat_alt)
next
  case (2 fl e base r rs)
  from "2.prems" have r: "region_ok r" and rs: "table_ok rs"
    by (auto simp: table_ok_Cons)
  note rend = unat_r_end [OF r]
  consider (stop) "r_base r \<ge> e" | (before) "\<not> r_base r \<ge> e" "r_base r + r_size r \<le> base"
    | (over) "\<not> r_base r \<ge> e" "\<not> r_base r + r_size r \<le> base" by blast
  then show ?case
  proof cases
    case stop
    then show ?thesis by (auto simp: addrs_new_region word_less_nat_alt)
  next
    case before
    with 2 rs show ?thesis by auto
  next
    case over
    let ?b = "min (r_base r + r_size r) e"
    have "?b \<le> e" by simp
    then have IH: "covers (add_list fl e ?b rs) = covers rs \<union> {unat ?b ..< unat e}"
      using 2 over rs by (cases "r_base r > base") auto
    have b: "unat ?b = min (re r) (unat e)" and lt: "rb r < unat e" "unat base < re r"
      using over by (simp_all add: unat_compare rend)
    show ?thesis
    proof (cases "r_base r > base")
      case True
      then have "{unat base ..< rb r} \<union> addrs r \<union> {unat ?b ..< unat e} = addrs r \<union> {unat base ..< unat e}"
        unfolding b addrs_def using lt by (auto simp: word_less_nat_alt)
      with True over IH addrs_new_region [OF True, of fl] show ?thesis by auto
    next
      case False
      then have "addrs r \<union> {unat ?b ..< unat e} = addrs r \<union> {unat base ..< unat e}"
        unfolding b addrs_def using lt by (auto simp: word_less_nat_alt)
      with False over IH show ?thesis by auto
    qed
  qed
qed

lemma add_list_not_Nil: "rs \<noteq> [] \<Longrightarrow> add_list fl e base rs \<noteq> []"
  by (cases rs) (auto simp: Let_def)

text \<open>The number of regions the pass adds, and the part of the new range left at its end.\<close>

fun add_new :: "phys_addr \<Rightarrow> phys_addr \<Rightarrow> memblock_region list \<Rightarrow> nat" where
  "add_new e base [] = (if base < e then 1 else 0)"
| "add_new e base (r # rs) =
     (let rbase = r_base r; rend = rbase + r_size r
      in if rbase \<ge> e then (if base < e then 1 else 0)
         else if rend \<le> base then add_new e base rs
         else if rbase > base then Suc (add_new e (min rend e) rs)
         else add_new e (min rend e) rs)"

declare add_new.simps [simp del]
lemmas add_new_simps [simp] = add_new.simps [unfolded Let_def]

lemma length_add_list: "length (add_list fl e base rs) = length rs + add_new e base rs"
  by (induction fl e base rs rule: add_list.induct) (auto simp: Let_def)

lemma add_list_none: "add_new e base rs = 0 \<Longrightarrow> add_list fl e base rs = rs"
  by (induction fl e base rs rule: add_list.induct) (auto split: if_splits)

lemma add_new_empty: "add_new e e rs = 0"
  by (induction rs) (auto simp: min_def)

definition finish_pass ::
    "bool \<Rightarrow> phys_addr \<Rightarrow> int \<Rightarrow> u32 \<Rightarrow> memblock_type \<times> nat \<times> phys_addr \<times> nat
     \<Rightarrow> (memblock_type \<times> nat) outcome" where
  "finish_pass ins e nid fl = (\<lambda>(t, idx, base, nr_new).
       if base < e then
         (if ins
          then obind (memblock_insert_region t idx base (e - base) nid fl)
                 (\<lambda>t. Ok (t, nr_new + 1))
          else Ok (t, nr_new + 1))
       else Ok (t, nr_new))"

lemma add_range_pass_finish:
  "add_range_pass ins obase e nid fl t =
     obind (add_range_loop ins e nid fl t 0 obase 0) (finish_pass ins e nid fl)"
  by (simp add: add_range_pass_def finish_pass_def)

lemma count_pass:
  "regions t = pre @ rs \<Longrightarrow>
     obind (add_range_loop False e nid fl t (length pre) base nr) (finish_pass False e nid fl)
       = Ok (t, nr + add_new e base rs)"
proof (induction e base rs arbitrary: pre nr rule: add_new.induct)
  case (1 e base)
  then show ?case
    by (simp add: add_range_loop.simps [of _ _ _ _ t] finish_pass_def)
next
  case (2 e base r rs)
  have at: "length pre < cnt t" "regions t ! length pre = r" "regions t = (pre @ [r]) @ rs"
    using "2.prems" by simp_all
  show ?case
    using "2.IH" [of _ _ "pre @ [r]"] at
    by (subst add_range_loop.simps) (auto simp: Let_def finish_pass_def)
qed

lemma insert_pass:
  "\<lbrakk>regions t = pre @ rs; cnt t + add_new e base rs \<le> t_max t\<rbrakk> \<Longrightarrow>
     \<exists>t'. obind (add_range_loop True e nid fl t (length pre) base nr) (finish_pass True e nid fl)
         = Ok (t', nr + add_new e base rs)
       \<and> regions t' = pre @ add_list fl e base rs \<and> t_max t' = t_max t \<and> t_array t' = t_array t
       \<and> total_size t' - sizes (regions t') = total_size t - sizes (regions t)"
proof (induction e base rs arbitrary: t pre nr rule: add_new.induct)
  case (1 e base)
  then show ?case
    by (cases "base < e")
       (simp_all add: add_range_loop.simps [of _ _ _ _ t] finish_pass_def memblock_insert_region_def)
next
  case (2 e base r rs)
  have at: "length pre < cnt t" "regions t ! length pre = r" "regions t = (pre @ [r]) @ rs"
    using "2.prems" by simp_all
  let ?rend = "r_base r + r_size r"
  consider (stop) "r_base r \<ge> e" | (before) "\<not> r_base r \<ge> e" "?rend \<le> base"
    | (gap) "\<not> r_base r \<ge> e" "\<not> ?rend \<le> base" "r_base r > base"
    | (over) "\<not> r_base r \<ge> e" "\<not> ?rend \<le> base" "\<not> r_base r > base" by blast
  then show ?case
  proof cases
    case stop
    with at 2 show ?thesis
      by (cases "base < e"; subst add_range_loop.simps)
         (simp_all add: finish_pass_def memblock_insert_region_def)
  next
    case before
    with at 2 "2.IH"(1) [OF refl refl before at(3), of nr] show ?thesis
      by (subst add_range_loop.simps) simp
  next
    case gap
    let ?t = "t\<lparr>regions := pre @ new_region fl base (r_base r) # r # rs,
                total_size := total_size t + (r_base r - base)\<rparr>"
    have ins: "memblock_insert_region t (length pre) base (r_base r - base) nid fl = Ok ?t"
      using gap 2 at by (simp add: memblock_insert_region_def)
    have "\<exists>t'. obind (add_range_loop True e nid fl ?t (length (pre @ [new_region fl base (r_base r), r]))
              (min ?rend e) (nr + 1)) (finish_pass True e nid fl)
         = Ok (t', nr + 1 + add_new e (min ?rend e) rs)
       \<and> regions t' = (pre @ [new_region fl base (r_base r), r]) @ add_list fl e (min ?rend e) rs
       \<and> t_max t' = t_max ?t \<and> t_array t' = t_array ?t
       \<and> total_size t' - sizes (regions t') = total_size ?t - sizes (regions ?t)"
      using gap 2(5) at by (intro "2.IH"(2)) (simp_all add: Let_def)
    then obtain t' where t': "obind (add_range_loop True e nid fl ?t (length pre + 2)
              (min ?rend e) (nr + 1)) (finish_pass True e nid fl)
         = Ok (t', nr + 1 + add_new e (min ?rend e) rs)"
       "regions t' = pre @ new_region fl base (r_base r) # r # add_list fl e (min ?rend e) rs"
       "t_max t' = t_max t" "t_array t' = t_array t"
       "total_size t' - sizes (regions t') = total_size ?t - sizes (regions ?t)" by auto
    have "add_range_loop True e nid fl t (length pre) base nr
        = add_range_loop True e nid fl ?t (length pre + 2) (min ?rend e) (nr + 1)"
      using gap at ins by (subst add_range_loop.simps) (simp add: Let_def)
    moreover have "total_size t' - sizes (regions t') = total_size t - sizes (regions t)"
      unfolding t'(5) using at by simp
    ultimately show ?thesis
      using gap t'(1-4) by (intro exI [of _ t']) simp
  next
    case over
    with at 2 "2.IH"(3) [OF refl refl over at(3), of nr] show ?thesis
      by (subst add_range_loop.simps) simp
  qed
qed

section \<open>Merging\<close>

definition mergeable :: "memblock_region \<Rightarrow> memblock_region \<Rightarrow> bool" where
  "mergeable a b \<longleftrightarrow> r_base a + r_size a = r_base b \<and> r_flags a = r_flags b"

text \<open>No two neighbours of a table could be one region.\<close>

definition merged :: "memblock_region list \<Rightarrow> bool" where
  "merged rs \<longleftrightarrow> (\<forall>i. i + 1 < length rs \<longrightarrow> \<not> mergeable (rs ! i) (rs ! (i + 1)))"

lemma merge_two:
  assumes ok: "table_ok (pre @ a # b # post)" and adj: "r_base a + r_size a = r_base b"
  shows "table_ok (pre @ a\<lparr>r_size := r_size a + r_size b\<rparr> # post)"
    and "covers (pre @ a\<lparr>r_size := r_size a + r_size b\<rparr> # post) = covers (pre @ a # b # post)"
proof -
  have a: "region_ok a" and b: "region_ok b"
    using ok by (auto simp: table_ok_append table_ok_Cons)
  have ab: "re a = rb b" using unat_r_end [OF a] adj by simp
  have sz: "unat (r_size a + r_size b) = unat (r_size a) + unat (r_size b)"
    using b ab by (intro unat_add_nowrap) (auto simp: region_ok_def)
  have "r_size a + r_size b \<noteq> 0"
    using sz a by (metis add_is_0 region_ok_def unat_0 unat_eq_zero)
  then have ok': "region_ok (a\<lparr>r_size := r_size a + r_size b\<rparr>)"
    using b ab sz by (simp add: region_ok_def)
  then show "table_ok (pre @ a\<lparr>r_size := r_size a + r_size b\<rparr> # post)"
    using ok ab sz by (auto simp: table_ok_append table_ok_Cons)
  show "covers (pre @ a\<lparr>r_size := r_size a + r_size b\<rparr> # post) = covers (pre @ a # b # post)"
    using ab sz by (auto simp: addrs_def)
qed

lemma split_two:
  assumes "i < length rs - 1"
  obtains pre a b post where "rs = pre @ a # b # post" and "length pre = i"
    and "rs ! i = a" and "rs ! (i + 1) = b" and "take i rs = pre" and "drop (i + 2) rs = post"
proof -
  have "rs = take i rs @ rs ! i # rs ! (i + 1) # drop (i + 2) rs"
    using assms by (simp add: Cons_nth_drop_Suc)
  with assms show ?thesis by (intro that) auto
qed

lemma merge_from_spec:
  assumes "table_ok (regions t)"
    and "\<forall>j < i. j + 1 < cnt t \<longrightarrow> \<not> mergeable (regions t ! j) (regions t ! (j + 1))"
    and "regions t \<noteq> []"
  shows "\<exists>t'. memblock_merge_from i t = Ok t' \<and> table_ok (regions t') \<and> covered t' = covered t
     \<and> merged (regions t') \<and> regions t' \<noteq> [] \<and> cnt t' \<le> cnt t \<and> t_max t' = t_max t
     \<and> t_array t' = t_array t \<and> total_size t' = total_size t \<and> sizes (regions t') = sizes (regions t)"
  using assms
proof (induction i t rule: memblock_merge_from.induct)
  case (1 i t)
  show ?case
  proof (cases "i < cnt t - 1")
    case False
    then have "merged (regions t)" using "1.prems" by (auto simp: merged_def)
    with False "1.prems" show ?thesis by (subst memblock_merge_from.simps) auto
  next
    case True
    then obtain pre a b post where rs: "regions t = pre @ a # b # post" "length pre = i"
        "regions t ! i = a" "regions t ! (i + 1) = b" "take i (regions t) = pre"
        "drop (i + 2) (regions t) = post"
      by (rule split_two)
    have ab: "\<not> r_base a + r_size a > r_base b"
      using "1.prems"(1) unat_r_end [of a] by (auto simp: rs table_ok_append table_ok_Cons word_less_nat_alt)
    show ?thesis
    proof (cases "mergeable a b")
      case False
      then have "memblock_merge_from i t = memblock_merge_from (i + 1) t"
        using True rs ab by (subst memblock_merge_from.simps)
          (auto simp: mergeable_def memblock_get_region_node_def)
      moreover have "\<forall>j < i + 1. j + 1 < cnt t \<longrightarrow> \<not> mergeable (regions t ! j) (regions t ! (j + 1))"
        using "1.prems"(2) False rs(3,4) by (auto simp: less_Suc_eq)
      ultimately show ?thesis
        using "1.IH"(1) [OF True refl refl] False rs ab "1.prems"
        by (auto simp: mergeable_def memblock_get_region_node_def)
    next
      case m: True
      let ?t = "t\<lparr>regions := pre @ a\<lparr>r_size := r_size a + r_size b\<rparr> # post\<rparr>"
      have step: "memblock_merge_from i t = memblock_merge_from i ?t"
        using True rs m by (subst memblock_merge_from.simps)
          (auto simp: mergeable_def memblock_get_region_node_def)
      have ok: "table_ok (regions ?t)" "covered ?t = covered t"
        using merge_two [of pre a b post] "1.prems"(1) m by (auto simp: rs mergeable_def)
      have "\<forall>j < i. j + 1 < cnt ?t \<longrightarrow> \<not> mergeable (regions ?t ! j) (regions ?t ! (j + 1))"
      proof (intro allI impI)
        fix j assume j: "j < i" and "j + 1 < cnt ?t"
        have "\<not> mergeable (regions t ! j) (regions t ! (j + 1))"
          using "1.prems"(2) j rs by simp
        then show "\<not> mergeable (regions ?t ! j) (regions ?t ! (j + 1))"
          using j rs by (cases "j + 1 = i") (auto simp: nth_append mergeable_def)
      qed
      then have "\<exists>t'. memblock_merge_from i ?t = Ok t' \<and> table_ok (regions t') \<and> covered t' = covered ?t
         \<and> merged (regions t') \<and> regions t' \<noteq> [] \<and> cnt t' \<le> cnt ?t \<and> t_max t' = t_max ?t
         \<and> t_array t' = t_array ?t \<and> total_size t' = total_size ?t
         \<and> sizes (regions t') = sizes (regions ?t)"
        using "1.IH"(2) [OF True refl refl] m rs ok
        by (auto simp: mergeable_def memblock_get_region_node_def)
      with step ok rs show ?thesis by (auto simp: add.assoc)
    qed
  qed
qed

section \<open>The whole of adding a range\<close>

lemma add_range_pass_count:
  "add_range_pass False obase e nid fl t = Ok (t, add_new e obase (regions t))"
  using count_pass [of t "[]" "regions t" e nid fl obase 0] by (simp add: add_range_pass_finish)

lemma add_range_pass_insert:
  assumes "cnt t + add_new e obase (regions t) \<le> t_max t"
  shows "\<exists>t'. add_range_pass True obase e nid fl t = Ok (t', add_new e obase (regions t))
     \<and> regions t' = add_list fl e obase (regions t) \<and> t_max t' = t_max t \<and> t_array t' = t_array t
     \<and> total_size t' - sizes (regions t') = total_size t - sizes (regions t)"
  using insert_pass [of t "[]" "regions t" e obase nid fl 0] assms
  by (simp add: add_range_pass_finish)

lemma insert_pass_full:
  "\<lbrakk>regions t = pre @ rs; cnt t \<le> t_max t; t_max t < cnt t + add_new e base rs\<rbrakk> \<Longrightarrow>
     obind (add_range_loop True e nid fl t (length pre) base nr) (finish_pass True e nid fl) = Bug"
proof (induction e base rs arbitrary: t pre nr rule: add_new.induct)
  case (1 e base)
  then show ?case
    by (cases "base < e")
       (simp_all add: add_range_loop.simps [of _ _ _ _ t] finish_pass_def memblock_insert_region_def)
next
  case (2 e base r rs)
  have at: "length pre < cnt t" "regions t ! length pre = r" "regions t = (pre @ [r]) @ rs"
    using "2.prems" by simp_all
  let ?rend = "r_base r + r_size r"
  consider (stop) "r_base r \<ge> e" | (before) "\<not> r_base r \<ge> e" "?rend \<le> base"
    | (gap) "\<not> r_base r \<ge> e" "\<not> ?rend \<le> base" "r_base r > base"
    | (over) "\<not> r_base r \<ge> e" "\<not> ?rend \<le> base" "\<not> r_base r > base" by blast
  then show ?case
  proof cases
    case stop
    with at 2 show ?thesis
      by (cases "base < e"; subst add_range_loop.simps)
         (simp_all add: finish_pass_def memblock_insert_region_def)
  next
    case before
    with at 2 "2.IH"(1) [OF refl refl before at(3), of nr] show ?thesis
      by (subst add_range_loop.simps) simp
  next
    case gap
    show ?thesis
    proof (cases "t_max t \<le> cnt t")
      case True
      with gap at show ?thesis
        by (subst add_range_loop.simps) (simp add: Let_def memblock_insert_region_def)
    next
      case False
      let ?t = "t\<lparr>regions := pre @ new_region fl base (r_base r) # r # rs,
                  total_size := total_size t + (r_base r - base)\<rparr>"
      have "memblock_insert_region t (length pre) base (r_base r - base) nid fl = Ok ?t"
        using False at by (simp add: memblock_insert_region_def)
      moreover have "obind (add_range_loop True e nid fl ?t
          (length (pre @ [new_region fl base (r_base r), r])) (min ?rend e) (nr + 1))
          (finish_pass True e nid fl) = Bug"
        using gap 2 at False by (intro "2.IH"(2)) simp_all
      ultimately show ?thesis
        using gap at by (subst add_range_loop.simps) (simp add: Let_def)
    qed
  next
    case over
    with at 2 "2.IH"(3) [OF refl refl over at(3), of nr] show ?thesis
      by (subst add_range_loop.simps) simp
  qed
qed

lemma add_range_pass_Ok:
  assumes "add_range_pass True obase e nid fl t = Ok (t', m)" and "cnt t \<le> t_max t"
  shows "cnt t + add_new e obase (regions t) \<le> t_max t" and "m = add_new e obase (regions t)"
    and "regions t' = add_list fl e obase (regions t)" and "t_max t' = t_max t"
    and "total_size t' - sizes (regions t') = total_size t - sizes (regions t)"
proof -
  show fit: "cnt t + add_new e obase (regions t) \<le> t_max t"
    using insert_pass_full [of t "[]" "regions t" e obase nid fl 0] assms
    by (fastforce simp: add_range_pass_finish)
  from add_range_pass_insert [OF fit, of nid fl] assms(1)
  show "m = add_new e obase (regions t)"
    and "regions t' = add_list fl e obase (regions t)" and "t_max t' = t_max t"
    and "total_size t' - sizes (regions t') = total_size t - sizes (regions t)"
    by auto
qed

lemma type_ok_table:
  assumes "type_ok t" and "r_size (regions t ! 0) \<noteq> 0"
  shows "table_ok (regions t)"
  using assms by (auto simp: type_ok_def empty_region_def)

lemma type_ok_empty:
  assumes "type_ok t" and "r_size (regions t ! 0) = 0"
  shows "regions t = [empty_region]"
  using assms by (cases "regions t") (auto simp: type_ok_def table_ok_Cons region_ok_def)

lemma covers_empty_region [simp]: "addrs empty_region = {}"
  by (simp add: addrs_def empty_region_def)

text \<open>Both tables well-formed.\<close>

definition mb_ok :: "memblock \<Rightarrow> bool" where
  "mb_ok mb \<longleftrightarrow> type_ok (memory mb) \<and> type_ok (reserved mb)"

lemma mb_ok_init: "mb_ok memblock_init"
  by (simp add: mb_ok_def type_ok_def memblock_init_def init_type_def INIT_MEMBLOCK_REGIONS_def
      empty_region_def)

fun other :: "mb_kind \<Rightarrow> mb_kind" where
  "other Memory = Reserved"
| "other Reserved = Memory"

lemma get_set_type [simp]:
  "get_type k (set_type k t mb) = t"
  "get_type (other k) (set_type k t mb) = get_type (other k) mb"
  by (cases k; simp)+

lemma mb_ok_set_type: "type_ok t \<Longrightarrow> type_ok (get_type (other k) mb) \<Longrightarrow> mb_ok (set_type k t mb)"
  by (cases k) (auto simp: mb_ok_def)

lemma mb_ok_get: "mb_ok mb \<Longrightarrow> type_ok (get_type k mb)"
  by (cases k) (auto simp: mb_ok_def)

text \<open>
  What the inserting pass and the merge leave of a well-formed table: \<open>t\<close> before, \<open>t2\<close> after.
\<close>

definition range_added :: "phys_addr \<Rightarrow> phys_addr \<Rightarrow> memblock_type \<Rightarrow> memblock_type \<Rightarrow> bool" where
  "range_added base sz t t2 \<longleftrightarrow> type_ok t2 \<and> covered t2 = covered t \<union> request base sz
     \<and> t_max t2 = t_max t"

lemma cap_end:
  "unat (base + memblock_cap_size base sz) = unat base + unat (memblock_cap_size base sz)"
  using cap_size_nowrap [of base sz] by (intro unat_add_nowrap) simp

lemma request_eq: "request base sz = {unat base ..< unat (base + memblock_cap_size base sz)}"
  by (simp add: request_def cap_end)

lemma insert_and_merge:
  assumes ok: "type_ok t" and ne: "r_size (regions t ! 0) \<noteq> 0"
    and e: "e = base + memblock_cap_size base sz"
    and p: "add_range_pass True base e nid fl t = Ok (t1, m)"
  shows "\<exists>t2. memblock_merge_regions t1 = Ok t2 \<and> range_added base sz t t2 \<and> merged (regions t2)"
    and "m = 0 \<Longrightarrow> range_added base sz t t1"
proof -
  note tab = type_ok_table [OF ok ne]
  have cap: "cnt t \<le> t_max t" and tot: "total_size t = sizes (regions t)" and nn: "regions t \<noteq> []"
    using ok by (auto simp: type_ok_def)
  note p' = add_range_pass_Ok [OF p cap]
  have t1: "table_ok (regions t1)" "regions t1 \<noteq> []" "total_size t1 = sizes (regions t1)"
    using add_list_ok [OF tab] p' add_list_not_Nil [OF nn] tot by auto
  have be: "base \<le> e" by (simp add: e word_le_nat_alt cap_end)
  have cov: "covered t1 = covered t \<union> request base sz"
    using add_list_covers [OF tab be, of fl] p'(3) by (simp add: request_eq e)
  have len: "cnt t1 \<le> t_max t1"
    using p' by (simp add: length_add_list)
  show "\<exists>t2. memblock_merge_regions t1 = Ok t2 \<and> range_added base sz t t2 \<and> merged (regions t2)"
    using merge_from_spec [OF t1(1) _ t1(2), of 0] t1 cov len p'(4)
    by (auto simp: memblock_merge_regions_def range_added_def type_ok_def)
  show "range_added base sz t t1"
    using t1 cov len p'(4) by (simp add: range_added_def type_ok_def)
qed

end
