(* ===== verification/Memblock_Isolate.thy ===== *)
theory Memblock_Isolate
  imports Memblock_Table
begin

text \<open>
  Isolating and removing a range: \<open>isolate_loop\<close> splits the regions that cross the ends of the
  range without changing the covered addresses, and the regions it delimits are exactly those
  inside the range, so removing them removes the range.
\<close>

definition crosses :: "phys_addr \<Rightarrow> memblock_region \<Rightarrow> bool" where
  "crosses x r \<longleftrightarrow> rb r < unat x \<and> unat x < re r"

lemma crosses_at_most_once:
  "table_ok rs \<Longrightarrow> length (filter (crosses x) rs) \<le> 1"
proof (induction rs)
  case Nil
  then show ?case by simp
next
  case (Cons r rs)
  show ?case
  proof (cases "crosses x r")
    case True
    with Cons.prems have "\<forall>s \<in> set rs. \<not> crosses x s"
      by (auto simp: table_ok_Cons crosses_def)
    then have "filter (crosses x) rs = []" by simp
    with True show ?thesis by simp
  next
    case False
    with Cons show ?thesis by (simp add: table_ok_Cons)
  qed
qed

text \<open>Splitting one region at an inner address.\<close>

lemma split_region:
  assumes r: "region_ok r" and x: "rb r < unat x" "unat x < re r"
  defines "lo \<equiv> \<lparr>r_base = r_base r, r_size = x - r_base r, r_flags = r_flags r\<rparr>"
    and "up \<equiv> r\<lparr>r_base := x, r_size := r_size r - (x - r_base r)\<rparr>"
  shows "region_ok lo" "region_ok up" "re lo = unat x" "rb lo = rb r" "rb up = unat x" "re up = re r"
    "addrs lo \<union> addrs up = addrs r" "r_size lo + r_size up = r_size r"
proof -
  have d: "unat (x - r_base r) = unat x - rb r"
    using x by (intro unat_sub) (simp add: word_le_nat_alt)
  have s: "unat (r_size r - (x - r_base r)) = unat (r_size r) - (unat x - rb r)"
    using x d by (subst unat_sub) (auto simp: word_le_nat_alt)
  show "re lo = unat x" "rb lo = rb r" "rb up = unat x" "re up = re r"
    using x d s by (simp_all add: lo_def up_def)
  then show "addrs lo \<union> addrs up = addrs r" using x by (auto simp: addrs_def)
  show "region_ok lo" and "region_ok up"
    using x d s r unat_u32_bound [of x] by (auto simp: lo_def up_def region_ok_def simp flip: unat_pos)
  show "r_size lo + r_size up = r_size r" by (simp add: lo_def up_def)
qed

text \<open>
  The loop invariant: before \<open>idx\<close> all regions are below \<open>base\<close>, or they are below \<open>base\<close> up to
  \<open>start_rgn\<close> and inside the range from there to \<open>end_rgn = idx\<close>.
\<close>

definition iso_done :: "phys_addr \<Rightarrow> phys_addr \<Rightarrow> memblock_region list \<Rightarrow> nat \<Rightarrow> nat \<Rightarrow> bool" where
  "iso_done base end pre s e \<longleftrightarrow>
     (if e = 0 then s = 0 \<and> (\<forall>r \<in> set pre. re r \<le> unat base)
      else e = length pre \<and> s < e \<and> (\<forall>r \<in> set (take s pre). re r \<le> unat base)
         \<and> (\<forall>r \<in> set (drop s pre). unat base \<le> rb r \<and> re r \<le> unat end))"

definition isolated ::
    "phys_addr \<Rightarrow> phys_addr \<Rightarrow> memblock_type \<Rightarrow> memblock_type \<Rightarrow> nat \<Rightarrow> nat \<Rightarrow> bool" where
  "isolated base end t t' s e \<longleftrightarrow> table_ok (regions t') \<and> covered t' = covered t
     \<and> regions t' \<noteq> [] \<and> cnt t' \<le> t_max t' \<and> t_max t' = t_max t
     \<and> total_size t' - sizes (regions t') = total_size t - sizes (regions t)
     \<and> (\<exists>pre post. regions t' = pre @ post \<and> iso_done base end pre s e
          \<and> (\<forall>r \<in> set post. unat end \<le> rb r))"

lemma isolated_trans:
  assumes "isolated base end t1 t' s e" and "covered t1 = covered t" and "t_max t1 = t_max t"
    and "total_size t1 - sizes (regions t1) = total_size t - sizes (regions t)"
  shows "isolated base end t t' s e"
  using assms by (simp add: isolated_def)

lemma table_ok_replace:
  assumes ok: "table_ok (pre @ r # rest)" and r: "region_ok r" and x: "rb r < unat x" "unat x < re r"
  defines "lo \<equiv> \<lparr>r_base = r_base r, r_size = x - r_base r, r_flags = r_flags r\<rparr>"
    and "up \<equiv> r\<lparr>r_base := x, r_size := r_size r - (x - r_base r)\<rparr>"
  shows "table_ok (pre @ lo # up # rest)" and "covers (pre @ lo # up # rest) = covers (pre @ r # rest)"
    and "sizes (pre @ lo # up # rest) = sizes (pre @ r # rest)"
proof -
  note sp = split_region [OF r x, folded lo_def up_def]
  show "table_ok (pre @ lo # up # rest)"
    using ok sp(1-6) x by (auto simp: table_ok_append table_ok_Cons)
  have "covers (pre @ lo # up # rest) = covers pre \<union> (addrs lo \<union> addrs up) \<union> covers rest" by auto
  then show "covers (pre @ lo # up # rest) = covers (pre @ r # rest)" by (simp add: sp(7) Un_assoc)
  have "sizes (pre @ lo # up # rest) = sizes pre + (r_size lo + r_size up) + sizes rest"
    by (simp add: add.assoc)
  then show "sizes (pre @ lo # up # rest) = sizes (pre @ r # rest)" by (simp add: sp(8) add.assoc)
qed

lemma insert_after_shrink:
  assumes "regions t = pre @ r # rest" and "cnt t < t_max t"
  shows "memblock_insert_region (shrink_front t (length pre) x) (length pre) (r_base r)
           (x - r_base r) nid (r_flags r)
       = Ok (t\<lparr>regions := pre @ \<lparr>r_base = r_base r, r_size = x - r_base r, r_flags = r_flags r\<rparr>
                 # r\<lparr>r_base := x, r_size := r_size r - (x - r_base r)\<rparr> # rest,
               total_size := total_size t\<rparr>)"
  using assms by (simp add: memblock_insert_region_def shrink_front_def Let_def)

lemma isolatedI:
  assumes "regions t = pre @ post" and "table_ok (regions t)" and "regions t \<noteq> []" and "cnt t \<le> t_max t"
    and "iso_done base end pre s e" and "\<And>r. r \<in> set post \<Longrightarrow> unat end \<le> rb r"
  shows "isolated base end t t s e"
  using assms unfolding isolated_def by blast

lemma iso_done_before:
  assumes "iso_done base end pre s e" and "\<forall>q \<in> set pre. re q \<le> x" and "x < unat base"
  shows "e = 0 \<and> s = 0"
proof (rule ccontr)
  assume "\<not> (e = 0 \<and> s = 0)"
  with assms(1) have "s < length pre" and mid: "\<forall>r \<in> set (drop s pre). unat base \<le> rb r"
    by (auto simp: iso_done_def split: if_splits)
  then have "pre ! s \<in> set (drop s pre)" by (simp flip: Cons_nth_drop_Suc)
  with mid assms(2,3) show False by (meson add_leD1 in_set_dropD le_trans not_less)
qed

lemma iso_done_skip:
  assumes "iso_done base end pre 0 0" and "re r \<le> unat base"
  shows "iso_done base end (pre @ [r]) 0 0"
  using assms by (simp add: iso_done_def)

lemma iso_done_take:
  assumes "iso_done base end pre s e" and "unat base \<le> rb r" and "re r \<le> unat end"
  shows "iso_done base end (pre @ [r]) (if e = 0 then length pre else s) (length pre + 1)"
  using assms by (auto simp: iso_done_def split: if_splits)

lemma isolate_loop_spec:
  assumes "regions t = pre @ rest" and "table_ok (regions t)" and "regions t \<noteq> []"
    and "iso_done base end pre s e" and "unat base < unat end"
    and "cnt t + length (filter (crosses base) rest) + length (filter (crosses end) rest) \<le> t_max t"
  shows "\<exists>t' s' e'. isolate_loop base end t (length pre) s e = Ok (t', s', e')
           \<and> isolated base end t t' s' e'"
  using assms
proof (induction base "end" t "length pre" s e arbitrary: pre rest rule: isolate_loop.induct)
  case (1 base "end" t s e)
  note IH = "1.hyps" and prems = "1.prems"
  show ?case
  proof (cases rest)
    case Nil
    then have "\<not> length pre < cnt t" using prems by simp
    moreover have "isolated base end t t s e"
      using prems Nil by (intro isolatedI [of _ pre "[]"]) auto
    ultimately show ?thesis by (subst isolate_loop.simps) simp
  next
    case (Cons r rest')
    have at: "length pre < cnt t" "regions t ! length pre = r" "regions t = pre @ r # rest'"
      using prems Cons by simp_all
    have r: "region_ok r" and above: "\<forall>q \<in> set rest'. re r \<le> rb q"
      and below: "\<forall>q \<in> set pre. re q \<le> rb r"
      using prems(2) at(3) by (auto simp: table_ok_append table_ok_Cons)
    note rend = unat_r_end [OF r]
    have rpos: "rb r < re r" using re_gt_rb [OF r] .
    consider (stop) "r_base r \<ge> end"
      | (before) "\<not> r_base r \<ge> end" "r_base r + r_size r \<le> base"
      | (low) "\<not> r_base r \<ge> end" "\<not> r_base r + r_size r \<le> base" "r_base r < base"
      | (high) "\<not> r_base r \<ge> end" "\<not> r_base r + r_size r \<le> base" "\<not> r_base r < base"
          "r_base r + r_size r > end"
      | (inside) "\<not> r_base r \<ge> end" "\<not> r_base r + r_size r \<le> base" "\<not> r_base r < base"
          "\<not> r_base r + r_size r > end" by blast
    then show ?thesis
    proof cases
      case stop
      then have "isolated base end t t s e"
        using prems Cons above rpos
        by (intro isolatedI [of _ pre "r # rest'"]) (auto simp: word_le_nat_alt)
      with at stop show ?thesis by (subst isolate_loop.simps) simp
    next
      case before
      then have low: "re r \<le> unat base" by (simp add: word_le_nat_alt rend)
      with rpos have "rb r < unat base" by linarith
      then have e0: "e = 0 \<and> s = 0" by (rule iso_done_before [OF prems(4) below])
      have "\<exists>t' s' e'. isolate_loop base end t (length (pre @ [r])) s e = Ok (t', s', e')
           \<and> isolated base end t t' s' e'"
        using at prems Cons before e0 iso_done_skip [OF _ low, of "end" pre]
        by (intro IH(1) [OF at(1) refl refl refl, where rest = rest']) (auto split: if_splits)
      with at before show ?thesis by (subst isolate_loop.simps) simp
    next
      case low
      then have x: "rb r < unat base" "unat base < re r"
        by (simp_all add: word_le_nat_alt word_less_nat_alt rend)
      from x(1) have e0: "e = 0 \<and> s = 0" by (rule iso_done_before [OF prems(4) below])
      note sp = split_region [OF r x] and rp = table_ok_replace [of pre r rest', OF _ r x]
      let ?lo = "\<lparr>r_base = r_base r, r_size = base - r_base r, r_flags = r_flags r\<rparr>"
      let ?up = "r\<lparr>r_base := base, r_size := r_size r - (base - r_base r)\<rparr>"
      let ?t = "t\<lparr>regions := pre @ ?lo # ?up # rest', total_size := total_size t\<rparr>"
      have cr: "crosses base r" "\<not> crosses base ?up" "crosses end ?up = crosses end r"
        using x sp prems(5) low by (auto simp: crosses_def word_le_nat_alt)
      have ins: "memblock_insert_region (shrink_front t (length pre) base) (length pre) (r_base r)
          (base - r_base r) (memblock_get_region_node r) (r_flags r) = Ok ?t"
        using prems Cons at cr by (intro insert_after_shrink) auto
      have "\<exists>t' s' e'. isolate_loop base end ?t (length (pre @ [?lo])) s e = Ok (t', s', e')
           \<and> isolated base end ?t t' s' e'"
        using at prems Cons low e0 cr rp(1) sp(3,4) x ins iso_done_skip [of base "end" pre ?lo]
        by (intro IH(2) [OF at(1) refl refl refl, where rest = "?up # rest'"])
           (auto split: if_splits)
      moreover have "covered ?t = covered t"
        and "total_size ?t - sizes (regions ?t) = total_size t - sizes (regions t)"
        using rp(2,3) prems(2) at(3) by simp_all
      ultimately show ?thesis
        using at low ins isolated_trans [of base "end" ?t _ _ _ t]
        by (subst isolate_loop.simps) (auto simp: Let_def)
    next
      case high
      then have x: "rb r < unat end" "unat end < re r"
        by (simp_all add: word_le_nat_alt word_less_nat_alt rend)
      note sp = split_region [OF r x] and rp = table_ok_replace [of pre r rest', OF _ r x]
      let ?lo = "\<lparr>r_base = r_base r, r_size = end - r_base r, r_flags = r_flags r\<rparr>"
      let ?up = "r\<lparr>r_base := end, r_size := r_size r - (end - r_base r)\<rparr>"
      let ?t = "t\<lparr>regions := pre @ ?lo # ?up # rest', total_size := total_size t\<rparr>"
      have cr: "crosses end r" "\<not> crosses end ?up" "\<not> crosses end ?lo" "\<not> crosses base ?lo"
          "\<not> crosses base ?up"
        using x sp prems(5) high by (auto simp: crosses_def word_less_nat_alt)
      have ins: "memblock_insert_region (shrink_front t (length pre) end) (length pre) (r_base r)
          (end - r_base r) (memblock_get_region_node r) (r_flags r) = Ok ?t"
        using prems Cons at cr by (intro insert_after_shrink) auto
      have "\<exists>t' s' e'. isolate_loop base end ?t (length pre) s e = Ok (t', s', e')
           \<and> isolated base end ?t t' s' e'"
        using at prems Cons high cr rp(1) ins
        by (intro IH(3) [OF at(1) refl refl refl, where rest = "?lo # ?up # rest'"])
           (auto split: if_splits)
      moreover have "covered ?t = covered t"
        and "total_size ?t - sizes (regions ?t) = total_size t - sizes (regions t)"
        using rp(2,3) prems(2) at(3) by simp_all
      ultimately show ?thesis
        using at high ins isolated_trans [of base "end" ?t _ _ _ t]
        by (subst isolate_loop.simps) (auto simp: Let_def)
    next
      case inside
      then have x: "unat base \<le> rb r" "re r \<le> unat end"
        by (simp_all add: word_le_nat_alt word_less_nat_alt rend)
      have "\<exists>t' s' e'. isolate_loop base end t (length (pre @ [r])) (if e = 0 then length pre else s)
             (length pre + 1) = Ok (t', s', e') \<and> isolated base end t t' s' e'"
        using at prems Cons inside iso_done_take [OF prems(4) x]
        by (intro IH(4) [OF at(1) refl refl refl, where rest = rest']) (auto split: if_splits)
      with at inside show ?thesis by (subst isolate_loop.simps) simp
    qed
  qed
qed

section \<open>Removing the isolated regions\<close>

definition or_empty :: "memblock_region list \<Rightarrow> memblock_region list" where
  "or_empty rs = (if rs = [] then [empty_region] else rs)"

lemma remove_region_at:
  assumes "regions t = a @ x # c"
  shows "memblock_remove_region t (length a)
     = t\<lparr>total_size := total_size t - r_size x, regions := or_empty (a @ c)\<rparr>"
  using assms by (simp add: memblock_remove_region_def or_empty_def Let_def)

lemma fold_remove:
  assumes "regions t = a @ b @ c" and "b \<noteq> []"
  shows "fold (\<lambda>i t. memblock_remove_region t i) (rev [length a..<length a + length b]) t
     = t\<lparr>total_size := total_size t - sizes b, regions := or_empty (a @ c)\<rparr>"
  using assms
proof (induction b arbitrary: t rule: rev_induct)
  case Nil
  then show ?case by simp
next
  case (snoc x b)
  have "fold (\<lambda>i t. memblock_remove_region t i) (rev [length a..<length a + length (b @ [x])]) t
      = fold (\<lambda>i t. memblock_remove_region t i) (rev [length a..<length a + length b])
          (memblock_remove_region t (length (a @ b)))"
    by simp
  also have "memblock_remove_region t (length (a @ b))
      = t\<lparr>total_size := total_size t - r_size x, regions := or_empty ((a @ b) @ c)\<rparr>"
    using snoc.prems by (intro remove_region_at) simp
  finally show ?case
    using snoc.IH [of "t\<lparr>total_size := total_size t - r_size x, regions := a @ b @ c\<rparr>"]
    by (cases "b = []") (auto simp: or_empty_def algebra_simps)
qed

lemma isolated_remove:
  assumes iso: "isolated base end t t' s e" and ok: "total_size t = sizes (regions t)"
    and be: "unat base < unat end"
  defines "u \<equiv> fold (\<lambda>i t. memblock_remove_region t i) (rev [s..<e]) t'"
  shows "type_ok u" and "covered u = covered t - {unat base ..< unat end}" and "t_max u = t_max t"
proof -
  from iso obtain pre post where t': "regions t' = pre @ post" and d: "iso_done base end pre s e"
    and post: "\<forall>r \<in> set post. unat end \<le> rb r" and tab: "table_ok (pre @ post)"
    and ne: "regions t' \<noteq> []" and cap: "cnt t' \<le> t_max t'" and mx: "t_max t' = t_max t"
    and tot: "total_size t' = sizes (regions t')" and cov: "covered t' = covered t"
    using ok by (auto simp: isolated_def)
  have out: "covers rs \<inter> {unat base ..< unat end} = {}"
    if "\<forall>r \<in> set rs. re r \<le> unat base \<or> unat end \<le> rb r" for rs
    using that by (fastforce simp: covers_def addrs_def)
  have "type_ok u \<and> covered u = covered t - {unat base ..< unat end} \<and> t_max u = t_max t"
  proof (cases "e = 0")
    case True
    then have "u = t'" by (simp add: u_def)
    moreover have "covers (pre @ post) \<inter> {unat base ..< unat end} = {}"
      using True d post by (intro out) (auto simp: iso_done_def)
    ultimately show ?thesis
      using t' tab ne cap mx tot cov by (auto simp: type_ok_def)
  next
    case False
    then have e: "e = length pre" and s: "s < e" and lo: "\<forall>r \<in> set (take s pre). re r \<le> unat base"
      and mid: "\<forall>r \<in> set (drop s pre). unat base \<le> rb r \<and> re r \<le> unat end"
      using d by (auto simp: iso_done_def)
    define a where "a = take s pre"
    define b where "b = drop s pre"
    have ab: "pre = a @ b" "length a = s" "length a + length b = e" "b \<noteq> []"
      using e s by (auto simp: a_def b_def)
    have u: "u = t'\<lparr>total_size := total_size t' - sizes b, regions := or_empty (a @ post)\<rparr>"
      using fold_remove [of t' a b post] t' ab by (simp add: u_def)
    have "covers (a @ post) \<inter> {unat base ..< unat end} = {}"
      using lo post by (intro out) (auto simp: a_def)
    moreover have "covers b \<subseteq> {unat base ..< unat end}"
      using mid by (fastforce simp: covers_def addrs_def b_def)
    ultimately have cv: "covers (a @ post) = covered t - {unat base ..< unat end}"
      using t' cov ab by auto
    have tok: "table_ok (a @ post)"
      using tab ab by (auto simp: table_ok_append)
    have "1 \<le> cnt t'" using ne by (cases "regions t'") auto
    then have "type_ok u"
      using tok tot t' ab cap by (auto simp: u type_ok_def or_empty_def empty_region_def)
    with u cv mx show ?thesis by (auto simp: or_empty_def)
  qed
  then show "type_ok u" and "covered u = covered t - {unat base ..< unat end}" and "t_max u = t_max t"
    by auto
qed

text \<open>The isolating loop followed by the removals, on a table with room for two more entries.\<close>

lemma isolate_and_remove:
  assumes ok: "type_ok t" and room: "cnt t + 2 \<le> t_max t" and be: "unat base < unat end"
  obtains t' s e where "isolate_loop base end t 0 0 0 = Ok (t', s, e)"
    and "type_ok (fold (\<lambda>i t. memblock_remove_region t i) (rev [s..<e]) t')"
    and "covered (fold (\<lambda>i t. memblock_remove_region t i) (rev [s..<e]) t')
           = covered t - {unat base ..< unat end}"
    and "t_max (fold (\<lambda>i t. memblock_remove_region t i) (rev [s..<e]) t') = t_max t"
proof (cases "r_size (regions t ! 0) = 0")
  case True
  note em = type_ok_empty [OF ok True]
  have "\<not> end \<le> 0" using be by (simp add: word_le_nat_alt)
  with em have "isolate_loop base end t 0 0 0 = Ok (t, 0, 0)"
    by (subst isolate_loop.simps, subst isolate_loop.simps) (simp add: empty_region_def)
  then show ?thesis using ok em by (intro that [of t 0 0]) auto
next
  case False
  note tab = type_ok_table [OF ok False]
  have "cnt t + length (filter (crosses base) (regions t)) + length (filter (crosses end) (regions t))
      \<le> t_max t"
    using crosses_at_most_once [OF tab, of base] crosses_at_most_once [OF tab, of "end"] room
    by linarith
  then obtain t' s e where l: "isolate_loop base end t 0 0 0 = Ok (t', s, e)"
    and i: "isolated base end t t' s e"
    using isolate_loop_spec [of t "[]" "regions t" base "end" 0 0] tab ok be
    by (auto simp: iso_done_def type_ok_def)
  then show ?thesis
    using isolated_remove [OF i _ be] ok by (intro that [OF l]) (auto simp: type_ok_def)
qed

end
