(* ===== verification/Memblock_Ops.thy ===== *)
theory Memblock_Ops
  imports Memblock_Isolate
begin

text \<open>
  The operations of memblock as a whole. An operation whose table has room behaves the same
  whatever the growing function is. Growing itself is an interface between the table operations
  and \<open>memblock_double_array\<close>: the locale states what the operations on the memory table rely on,
  their correctness is proved once against it, and \<open>memblock_double_array\<close>, at every recursion
  depth, is its instance.
\<close>

section \<open>Operations on a table with room\<close>

definition add_fits :: "mb_kind \<Rightarrow> phys_addr \<Rightarrow> phys_addr \<Rightarrow> memblock \<Rightarrow> bool" where
  "add_fits k base sz mb \<longleftrightarrow>
     r_size (regions (get_type k mb) ! 0) = 0
     \<or> cnt (get_type k mb) + add_new (base + memblock_cap_size base sz) base (regions (get_type k mb))
         \<le> t_max (get_type k mb)"

lemma add_first:
  assumes tok: "type_ok t" and em: "r_size (regions t ! 0) = 0" and sz: "memblock_cap_size base sz \<noteq> 0"
  shows "range_added base sz t
     (t\<lparr>regions := (regions t)[0 := \<lparr>r_base = base, r_size = memblock_cap_size base sz, r_flags = fl\<rparr>],
        total_size := memblock_cap_size base sz\<rparr>)"
  using type_ok_empty [OF tok em] tok sz cap_size_nowrap [of base sz]
  by (auto simp: range_added_def type_ok_def table_ok_Cons region_ok_def addrs_def request_def
      empty_region_def)

lemma add_nothing_new:
  assumes tok: "type_ok t" and ne: "r_size (regions t ! 0) \<noteq> 0"
    and none: "add_new (base + memblock_cap_size base sz) base (regions t) = 0"
  shows "range_added base sz t t"
proof -
  have be: "base \<le> base + memblock_cap_size base sz" by (simp add: word_le_nat_alt cap_end)
  from add_list_covers [OF type_ok_table [OF tok ne] be, of 0] add_list_none [OF none, of 0]
  have "covered t = covered t \<union> request base sz" by (simp add: request_eq)
  with tok show ?thesis by (simp add: range_added_def)
qed

lemma add_range_fits:
  assumes tok: "type_ok (get_type k mb)" and fits: "add_fits k base sz mb"
  shows "\<exists>t2. add_range_with n double k base sz nid fl mb = Ok (set_type k t2 mb, 0)
           \<and> range_added base sz (get_type k mb) t2"
proof -
  let ?sz = "memblock_cap_size base sz" and ?t = "get_type k mb"
  let ?e = "base + ?sz" and ?new = "add_new (base + ?sz) base (regions ?t)"
  have set_same: "set_type k ?t mb = mb" by (cases k) simp_all
  consider (none) "?sz = 0" | (first) "?sz \<noteq> 0" "r_size (regions ?t ! 0) = 0"
    | (same) "?sz \<noteq> 0" "r_size (regions ?t ! 0) \<noteq> 0" "?new = 0"
    | (table) "?sz \<noteq> 0" "r_size (regions ?t ! 0) \<noteq> 0" "?new \<noteq> 0" by blast
  then show ?thesis
  proof cases
    case none
    then have "range_added base sz ?t ?t" using tok by (simp add: range_added_def request_def)
    with none show ?thesis
      by (intro exI [of _ ?t]) (simp add: add_range_with_def set_same)
  next
    case first
    with add_first [OF tok first(2,1), of fl] show ?thesis
      by (intro exI, intro conjI, simp add: add_range_with_def Let_def, simp)
  next
    case same
    with add_nothing_new [OF tok same(2,3)] show ?thesis
      by (intro exI [of _ ?t]) (simp add: add_range_with_def Let_def add_range_pass_count set_same)
  next
    case table
    have room: "cnt ?t + ?new \<le> t_max ?t" using fits table by (simp add: add_fits_def)
    then have grow: "grow_table n (double k base ?sz) k ?new mb = Ok (mb, 0)"
      by (cases n) simp_all
    from add_range_pass_insert [OF room, of nid fl] obtain t1 where
      p: "add_range_pass True base ?e nid fl ?t = Ok (t1, ?new)" by auto
    from insert_and_merge(1) [OF tok table(2) refl p] obtain t2 where
      "memblock_merge_regions t1 = Ok t2" "range_added base sz ?t t2" by blast
    with table grow p show ?thesis
      by (intro exI [of _ t2]) (simp add: add_range_with_def Let_def add_range_pass_count)
  qed
qed

lemma add_range_grows:
  assumes "memblock_cap_size base sz \<noteq> 0" and "r_size (regions (get_type k mb) ! 0) \<noteq> 0"
    and "add_new (base + memblock_cap_size base sz) base (regions (get_type k mb)) \<noteq> 0"
  shows "add_range_with n double k base sz nid fl mb =
     obind (grow_table n (double k base (memblock_cap_size base sz)) k
              (add_new (base + memblock_cap_size base sz) base (regions (get_type k mb))) mb)
       (\<lambda>(mb1, ret).
         if ret < 0 then Ok (mb1, ret)
         else obind (add_range_pass True base (base + memblock_cap_size base sz) nid fl (get_type k mb1))
           (\<lambda>(t1, nr_new).
             if nr_new = 0 then Ok (set_type k t1 mb1, 0)
             else obind (memblock_merge_regions t1) (\<lambda>t2. Ok (set_type k t2 mb1, 0))))"
  using assms by (simp add: add_range_with_def Let_def add_range_pass_count)

lemma remove_range_fits:
  assumes tok: "type_ok (get_type k mb)" and room: "cnt (get_type k mb) + 2 \<le> t_max (get_type k mb)"
  shows "\<exists>t2. remove_range_with n double k base sz mb = Ok (set_type k t2 mb, 0) \<and> type_ok t2
           \<and> covered t2 = covered (get_type k mb) - request base sz
           \<and> t_max t2 = t_max (get_type k mb)"
proof (cases "memblock_cap_size base sz = 0")
  case True
  have "set_type k (get_type k mb) mb = mb" by (cases k) simp_all
  with True tok show ?thesis
    by (intro exI [of _ "get_type k mb"])
       (simp add: remove_range_with_def isolate_range_with_def request_def)
next
  case False
  let ?e = "base + memblock_cap_size base sz"
  have be: "unat base < unat ?e" using False by (simp add: cap_end)
  obtain t' s e where l: "isolate_loop base ?e (get_type k mb) 0 0 0 = Ok (t', s, e)"
    and u: "type_ok (fold (\<lambda>i t. memblock_remove_region t i) (rev [s..<e]) t')"
      "covered (fold (\<lambda>i t. memblock_remove_region t i) (rev [s..<e]) t')
         = covered (get_type k mb) - {unat base ..< unat ?e}"
      "t_max (fold (\<lambda>i t. memblock_remove_region t i) (rev [s..<e]) t') = t_max (get_type k mb)"
    by (rule isolate_and_remove [OF tok room be])
  have grow: "grow_table n (double k base (memblock_cap_size base sz)) k 2 mb = Ok (mb, 0)"
    using room by (cases n) simp_all
  have set_set: "set_type k t (set_type k t' mb) = set_type k t mb" for t t'
    by (cases k) simp_all
  from False l u grow show ?thesis
    by (intro exI [of _ "fold (\<lambda>i t. memblock_remove_region t i) (rev [s..<e]) t'"])
       (simp add: remove_range_with_def isolate_range_with_def Let_def set_set request_eq)
qed

section \<open>The contract of growing a table\<close>

text \<open>The settings no table operation touches.\<close>

definition same_settings :: "memblock \<Rightarrow> memblock \<Rightarrow> bool" where
  "same_settings mb mb' \<longleftrightarrow> bottom_up mb' = bottom_up mb \<and> current_limit mb' = current_limit mb
     \<and> system_has_some_mirror mb' = system_has_some_mirror mb
     \<and> memblock_can_resize mb' = memblock_can_resize mb"

definition keeps_memory :: "memblock \<Rightarrow> memblock \<Rightarrow> bool" where
  "keeps_memory mb mb' \<longleftrightarrow> regions (memory mb') = regions (memory mb)
     \<and> total_size (memory mb') = total_size (memory mb) \<and> t_max (memory mb) \<le> t_max (memory mb')
     \<and> same_settings mb mb'"

lemma keeps_memory_refl [simp]: "keeps_memory mb mb"
  by (simp add: keeps_memory_def same_settings_def)

lemma keeps_memory_trans: "keeps_memory a b \<Longrightarrow> keeps_memory b c \<Longrightarrow> keeps_memory a c"
  by (auto simp: keeps_memory_def same_settings_def)

lemma keeps_memory_set [simp]:
  "keeps_memory mb (mb'\<lparr>reserved := t\<rparr>) \<longleftrightarrow> keeps_memory mb mb'"
  "keeps_memory mb (set_in_slab k b mb') \<longleftrightarrow> keeps_memory mb mb'"
  by (cases k; simp add: keeps_memory_def same_settings_def)+

lemma keeps_memory_ok: "keeps_memory mb mb' \<Longrightarrow> type_ok (memory mb) \<Longrightarrow> type_ok (memory mb')"
  by (auto simp: keeps_memory_def type_ok_def)

locale table_doubler =
  fixes double :: doubler
  assumes double_keeps: "double k a s mb = Ok (mb', r) \<Longrightarrow> keeps_memory mb mb'"
begin

lemma grow_table_keeps:
  "grow_table n (double k a s) k' need mb = Ok (mb', r) \<Longrightarrow>
     keeps_memory mb mb'
     \<and> (r = - ENOMEM \<or> r = 0 \<and> cnt (get_type k' mb') + need \<le> t_max (get_type k' mb'))"
proof (induction n arbitrary: mb)
  case 0
  then show ?case by (auto split: if_splits)
next
  case (Suc n)
  show ?case
  proof (cases "cnt (get_type k' mb) + need > t_max (get_type k' mb)")
    case False
    with Suc.prems show ?thesis by auto
  next
    case True
    with Suc.prems obtain mb1 r1 where d: "double k a s mb = Ok (mb1, r1)"
      and rest: "(if r1 < 0 then Ok (mb1, - ENOMEM) else grow_table n (double k a s) k' need mb1)
          = Ok (mb', r)"
      by (auto simp: obind_eq_Ok)
    show ?thesis
    proof (cases "r1 < 0")
      case True
      with rest double_keeps [OF d] show ?thesis by auto
    next
      case False
      with rest Suc.IH [of mb1] keeps_memory_trans [OF double_keeps [OF d]] show ?thesis by auto
    qed
  qed
qed

lemma add_reserved_keeps:
  "add_range_with n double Reserved base sz nid fl mb = Ok (mb', r) \<Longrightarrow> keeps_memory mb mb'"
  by (auto simp: add_range_with_def Let_def add_range_pass_count obind_eq_Ok
      split: if_splits dest!: grow_table_keeps)

lemma isolate_reserved_keeps:
  assumes "isolate_range_with n double Reserved base sz mb = Ok (mb', r, s, e)"
  shows "keeps_memory mb mb'"
proof (cases "memblock_cap_size base sz = 0")
  case True
  with assms show ?thesis by (simp add: isolate_range_with_def)
next
  case False
  with assms obtain mb1 r1 where
    g: "grow_table n (double Reserved base (memblock_cap_size base sz)) Reserved 2 mb = Ok (mb1, r1)"
    and k: "keeps_memory mb1 mb'"
    by (auto simp: isolate_range_with_def Let_def obind_eq_Ok split: if_splits)
  from keeps_memory_trans [OF _ k] grow_table_keeps [OF g] show ?thesis by blast
qed

lemma remove_reserved_keeps:
  assumes "remove_range_with n double Reserved base sz mb = Ok (mb', r)"
  shows "keeps_memory mb mb'"
proof -
  from assms obtain mb1 r1 s e where
    "isolate_range_with n double Reserved base sz mb = Ok (mb1, r1, s, e)"
    and k: "keeps_memory mb1 mb'"
    by (auto simp: remove_range_with_def obind_eq_Ok split: if_splits)
  with isolate_reserved_keeps keeps_memory_trans show ?thesis by blast
qed

text \<open>Once the memory table has grown, adding goes on as on a table with room.\<close>

lemma add_memory_exact:
  assumes tok: "type_ok (memory mb)"
    and res: "add_range_with n double Memory base sz nid fl mb = Ok (mb', r)"
  shows "type_ok (memory mb') \<and> same_settings mb mb'
     \<and> (r = 0 \<and> covered (memory mb') = covered (memory mb) \<union> request base sz
        \<or> r = - ENOMEM \<and> regions (memory mb') = regions (memory mb))"
proof (cases "add_fits Memory base sz mb")
  case True
  from add_range_fits [OF _ True, of n double nid fl] tok obtain t2
    where "add_range_with n double Memory base sz nid fl mb = Ok (mb\<lparr>memory := t2\<rparr>, 0)"
      and "range_added base sz (memory mb) t2"
    unfolding get_type.simps set_type.simps by blast
  with res have "mb' = mb\<lparr>memory := t2\<rparr>" "r = 0" "range_added base sz (memory mb) t2" by simp_all
  then show ?thesis by (simp add: range_added_def same_settings_def)
next
  case False
  let ?sz = "memblock_cap_size base sz" and ?t = "memory mb"
  let ?e = "base + ?sz" and ?new = "add_new (base + ?sz) base (regions ?t)"
  from False have ne: "r_size (regions ?t ! 0) \<noteq> 0" and big: "t_max ?t < cnt ?t + ?new"
    by (auto simp: add_fits_def)
  from big tok have new: "?new \<noteq> 0" by (auto simp: type_ok_def)
  have szn: "?sz \<noteq> 0"
  proof
    assume "?sz = 0"
    then have "add_fits Memory base sz mb"
      using add_new_empty [of base "regions ?t"] tok by (simp add: add_fits_def type_ok_def)
    with False show False ..
  qed
  from res ne new szn obtain mb1 r1 where
    g: "grow_table n (double Memory base ?sz) Memory ?new mb = Ok (mb1, r1)"
    and rest: "(if r1 < 0 then Ok (mb1, r1)
       else obind (add_range_pass True base ?e nid fl (memory mb1)) (\<lambda>(t1, nr_new).
         if nr_new = 0 then Ok (set_type Memory t1 mb1, 0)
         else obind (memblock_merge_regions t1) (\<lambda>t2. Ok (set_type Memory t2 mb1, 0)))) = Ok (mb', r)"
    using add_range_grows [of base sz Memory mb n double nid fl]
    by (simp only: obind_eq_Ok split_paired_Ex prod.case get_type.simps simp_thms) blast
  from grow_table_keeps [OF g] have k1: "keeps_memory mb mb1"
    and r1: "r1 = - ENOMEM \<or> r1 = 0 \<and> cnt (memory mb1) + ?new \<le> t_max (memory mb1)" by auto
  note tok1 = keeps_memory_ok [OF k1 tok]
  show ?thesis
  proof (cases "r1 < 0")
    case True
    with rest k1 r1 tok1 show ?thesis by (auto simp: keeps_memory_def ENOMEM_def)
  next
    case nneg: False
    from nneg r1 k1 have room: "cnt (memory mb1) + ?new \<le> t_max (memory mb1)"
      and same: "regions (memory mb1) = regions ?t"
      by (auto simp: ENOMEM_def keeps_memory_def)
    from room same add_range_pass_insert [of "memory mb1" ?e base nid fl] obtain t1 where
      p: "add_range_pass True base ?e nid fl (memory mb1) = Ok (t1, ?new)" by auto
    have "r_size (regions (memory mb1) ! 0) \<noteq> 0" using same ne by simp
    from insert_and_merge(1) [OF tok1 this refl p] obtain t2 where
      m: "memblock_merge_regions t1 = Ok t2" and a: "range_added base sz (memory mb1) t2" by blast
    from nneg rest p new m have "mb' = mb1\<lparr>memory := t2\<rparr>" and "r = 0" by simp_all
    with a k1 show ?thesis by (simp add: range_added_def keeps_memory_def same_settings_def)
  qed
qed

lemma remove_memory_exact:
  assumes tok: "type_ok (memory mb)"
    and res: "remove_range_with n double Memory base sz mb = Ok (mb', r)"
  shows "type_ok (memory mb') \<and> same_settings mb mb'
     \<and> (r = 0 \<and> covered (memory mb') = covered (memory mb) - request base sz
        \<or> r = - ENOMEM \<and> regions (memory mb') = regions (memory mb))"
proof (cases "memblock_cap_size base sz = 0")
  case True
  with tok res show ?thesis
    by (auto simp: remove_range_with_def isolate_range_with_def request_def same_settings_def)
next
  case False
  let ?sz = "memblock_cap_size base sz"
  from res False obtain mb1 r1 where
    g: "grow_table n (double Memory base ?sz) Memory 2 mb = Ok (mb1, r1)"
    by (auto simp: remove_range_with_def isolate_range_with_def Let_def obind_eq_Ok)
  from grow_table_keeps [OF g] have k1: "keeps_memory mb mb1"
    and r1: "r1 = - ENOMEM \<or> r1 = 0 \<and> cnt (memory mb1) + 2 \<le> t_max (memory mb1)" by auto
  note tok1 = keeps_memory_ok [OF k1 tok]
  show ?thesis
  proof (cases "r1 < 0")
    case True
    with res False g k1 r1 tok1 show ?thesis
      by (auto simp: remove_range_with_def isolate_range_with_def Let_def keeps_memory_def ENOMEM_def)
  next
    case nneg: False
    from nneg r1 have room: "cnt (memory mb1) + 2 \<le> t_max (memory mb1)" by (auto simp: ENOMEM_def)
    then have "grow_table n (double Memory base ?sz) Memory 2 mb1 = Ok (mb1, 0)" by (cases n) simp_all
    with g nneg r1 False
    have "remove_range_with n double Memory base sz mb = remove_range_with n double Memory base sz mb1"
      by (auto simp: remove_range_with_def isolate_range_with_def Let_def ENOMEM_def)
    with remove_range_fits [of Memory mb1 n double base sz] tok1 room res obtain t2 where
      "mb' = mb1\<lparr>memory := t2\<rparr>" and "r = 0" and "type_ok t2"
      and "covered t2 = covered (memory mb1) - request base sz" by auto
    with k1 show ?thesis by (simp add: keeps_memory_def same_settings_def)
  qed
qed

end

section \<open>The kernel's growing function meets the contract\<close>

lemma double_array_doubler: "table_doubler (memblock_double_array n env)"
proof (induction n)
  case 0
  show ?case by unfold_locales (auto split: if_splits)
next
  case (Suc n)
  note add = table_doubler.add_reserved_keeps [OF Suc.IH]
    and remove = table_doubler.remove_reserved_keeps [OF Suc.IH]
  show ?case
  proof
    fix k a s mb mb' and r :: int
    assume res: "memblock_double_array (Suc n) env k a s mb = Ok (mb', r)"
    let ?t = "get_type k mb"
    let ?old = "of_nat (t_max ?t * SIZEOF_REGION) :: phys_addr"
    let ?addr = "double_array_addr env k (push_bit 1 ?old) (PAGE_ALIGN (push_bit 1 ?old)) a s mb"
    let ?mb1 = "set_type k (?t\<lparr>t_array := Some ?addr, t_max := 2 * t_max ?t\<rparr>) mb"
    have k1: "keeps_memory mb ?mb1"
      by (cases k) (auto simp: keeps_memory_def same_settings_def)
    show "keeps_memory mb mb'"
    proof (cases "memblock_can_resize mb \<and> ?addr \<noteq> 0")
      case False
      with res show ?thesis by (auto simp: Let_def split: if_splits)
    next
      case True
      with res obtain mb2 where
        two: "(if get_in_slab k mb then Ok ?mb1
               else case t_array ?t of
                   None \<Rightarrow> Ok ?mb1
                 | Some old \<Rightarrow>
                     obind (remove_range_with n (memblock_double_array n env) Reserved
                              old (PAGE_ALIGN ?old) ?mb1) (\<lambda>(mb2, _). Ok mb2)) = Ok mb2"
        and three: "obind (if slab_is_available env then Ok mb2
                      else obind (add_range_with n (memblock_double_array n env) Reserved
                                    ?addr (PAGE_ALIGN (push_bit 1 ?old)) MAX_NUMNODES 0 mb2)
                             (\<lambda>(mb3, ret). if ret \<noteq> 0 then Bug else Ok mb3))
                     (\<lambda>mb3. Ok (set_in_slab k (slab_is_available env) mb3, 0)) = Ok (mb', r)"
        by (simp only: memblock_double_array.simps Let_def obind_eq_Ok if_False if_True simp_thms)
           blast
      have "keeps_memory ?mb1 mb2"
        using two by (auto simp: obind_eq_Ok split: if_splits option.splits dest: remove)
      moreover have "keeps_memory mb2 mb'"
        using three by (auto simp: obind_eq_Ok split: if_splits dest: add)
      ultimately show ?thesis
        using k1 keeps_memory_trans by blast
    qed
  qed
qed

interpretation dbl: table_doubler "memblock_double_array n env" for n env
  by (rule double_array_doubler)

lemma double_array_fixed:
  "\<not> memblock_can_resize mb \<Longrightarrow> memblock_double_array n env k a s mb = Ok (mb, -1)"
  by (cases n) simp_all

lemma add_range_total:
  assumes "type_ok (get_type k mb)" and "add_fits k base sz mb \<or> \<not> memblock_can_resize mb"
  shows "\<exists>mb' r. memblock_add_range (Suc n) env k base sz nid fl mb = Ok (mb', r)
    \<and> (if add_fits k base sz mb
       then r = 0 \<and> type_ok (get_type k mb')
          \<and> covered (get_type k mb') = covered (get_type k mb) \<union> request base sz
          \<and> (\<exists>t. mb' = set_type k t mb)
       else r = - ENOMEM \<and> mb' = mb)"
proof (cases "add_fits k base sz mb")
  case True
  with add_range_fits [OF assms(1) True, of "Suc n" "memblock_double_array (Suc n) env" nid fl]
  show ?thesis by (auto simp: memblock_add_range_def range_added_def)
next
  case False
  with assms have fixed: "\<not> memblock_can_resize mb" by simp
  let ?t = "get_type k mb" and ?sz = "memblock_cap_size base sz"
  let ?new = "add_new (base + ?sz) base (regions ?t)"
  from False have ne: "r_size (regions ?t ! 0) \<noteq> 0" and big: "t_max ?t < cnt ?t + ?new"
    by (auto simp: add_fits_def)
  from big assms(1) have new: "?new \<noteq> 0" by (auto simp: type_ok_def)
  then have "?sz \<noteq> 0" using add_new_empty [of base] by auto
  with ne new big double_array_fixed [OF fixed, of "Suc n" env] False show ?thesis
    by (simp add: memblock_add_range_def add_range_grows ENOMEM_def del: memblock_double_array.simps)
qed

lemma remove_range_returns:
  assumes "type_ok (get_type k mb)" and fixed: "\<not> memblock_can_resize mb"
  shows "\<exists>mb' r. memblock_remove_range (Suc n) env k base sz mb = Ok (mb', r)"
proof (cases "cnt (get_type k mb) + 2 \<le> t_max (get_type k mb)")
  case True
  from remove_range_fits [OF assms(1) True] show ?thesis unfolding memblock_remove_range_def by blast
next
  case False
  with double_array_fixed [OF fixed, of "Suc n" env] show ?thesis
    by (simp add: memblock_remove_range_def remove_range_with_def isolate_range_with_def Let_def
        ENOMEM_def del: memblock_double_array.simps)
qed

lemma outcome_pairI:
  "Q \<or> (\<exists>a b. m = Ok (a, b)) \<Longrightarrow> (\<And>a b. m = Ok (a, b) \<Longrightarrow> P a b) \<Longrightarrow>
     case m of Ok (a, b) \<Rightarrow> P a b | Bug \<Rightarrow> Q | OutOfFuel \<Rightarrow> Q"
  by (cases m) auto

text \<open>A machine with two megabytes of memory in two regions, for the examples below.\<close>

definition example_mb :: memblock where
  "example_mb = memblock_init\<lparr>
     memory := \<lparr>t_max = 4, total_size = 0x200000,
       regions = [\<lparr>r_base = 0x100000, r_size = 0x100000, r_flags = 0\<rparr>,
                  \<lparr>r_base = 0x300000, r_size = 0x100000, r_flags = 0\<rparr>],
       t_array = None\<rparr>,
     reserved := \<lparr>t_max = 4, total_size = 0x1000,
       regions = [\<lparr>r_base = 0x180000, r_size = 0x1000, r_flags = 0\<rparr>], t_array = None\<rparr>\<rparr>"

definition example_env :: mb_env where
  "example_env = \<lparr>slab_is_available = False, kmalloc = (\<lambda>_. None), phys_to_virt = (\<lambda>pa. pa + 0xC0000000),
     SMP_CACHE_BYTES = 64\<rparr>"

lemma example_mb_ok:
  "type_ok (memory example_mb)" "type_ok (reserved example_mb)" "\<not> memblock_can_resize example_mb"
  by (simp_all add: example_mb_def type_ok_def table_ok_def region_ok_def sizes_def memblock_init_def)

section \<open>Properties\<close>

text \<open>
  \<^bold>\<open>C1\<close>. Adding a range to a well-formed table that has room for it, or that may not grow, always
  returns. It returns 0 exactly when the new regions fit, and then the table is well-formed again
  (sorted, disjoint, no wrap-around, \<open>total_size\<close> the sum of the sizes), covers exactly the old
  addresses and the request (cut at \<open>PHYS_ADDR_MAX\<close>), and the other table is untouched;
  otherwise it returns \<open>-ENOMEM\<close> and changes nothing. In particular the count of the first pass is
  right: the \<open>BUG_ON\<close> of \<open>memblock_insert_region\<close> and the one of \<open>memblock_merge_regions\<close> never fire.
\<close>

theorem memblock_add_range_exact:
  assumes "type_ok (get_type k mb)" and "add_fits k base sz mb \<or> \<not> memblock_can_resize mb"
  shows "\<exists>mb' r. memblock_add_range (Suc n) env k base sz nid fl mb = Ok (mb', r)
    \<and> (if add_fits k base sz mb
       then r = 0 \<and> type_ok (get_type k mb')
          \<and> covered (get_type k mb') = covered (get_type k mb) \<union> request base sz
          \<and> get_type (other k) mb' = get_type (other k) mb
       else r = - ENOMEM \<and> mb' = mb)"
  using add_range_total [OF assms, of n env nid fl] by (auto split: if_splits)

theorem memblock_add_range_exact_witness:
  "\<exists>mb' r. memblock_add_range (Suc 0) example_env Memory 0x280000 0x100000 MAX_NUMNODES 0 example_mb = Ok (mb', r)
     \<and> r = 0 \<and> covered (memory mb') = covered (memory example_mb) \<union> request 0x280000 0x100000"
proof -
  have "add_fits Memory 0x280000 0x100000 example_mb" by code_simp
  with memblock_add_range_exact [of Memory example_mb "0x280000" "0x100000" 0 example_env MAX_NUMNODES 0]
    example_mb_ok(1) show ?thesis by auto
qed

text \<open>
  \<^bold>\<open>C2\<close>. Removing a range from a well-formed table that has two free entries always returns 0 and
  removes exactly the request: regions that cross its ends are split, the rest of the table and
  the other table are untouched, and the table is well-formed again.
\<close>

theorem memblock_remove_range_exact:
  assumes "type_ok (get_type k mb)" and "cnt (get_type k mb) + 2 \<le> t_max (get_type k mb)"
  shows "\<exists>mb'. memblock_remove_range n env k base sz mb = Ok (mb', 0) \<and> type_ok (get_type k mb')
    \<and> covered (get_type k mb') = covered (get_type k mb) - request base sz
    \<and> get_type (other k) mb' = get_type (other k) mb"
  using remove_range_fits [OF assms, of n "memblock_double_array n env" base sz]
  by (auto simp: memblock_remove_range_def)

theorem memblock_remove_range_exact_witness:
  "\<exists>mb'. memblock_remove_range 0 example_env Memory 0x140000 0x1C1000 example_mb = Ok (mb', 0)
     \<and> covered (memory mb') = covered (memory example_mb) - request 0x140000 0x1C1000"
proof -
  have "cnt (get_type Memory example_mb) + 2 \<le> t_max (get_type Memory example_mb)" by code_simp
  with memblock_remove_range_exact [of Memory example_mb 0 example_env "0x140000" "0x1C1000"]
    example_mb_ok(1) show ?thesis by auto
qed



end
