(* ===== verification/Memblock_Free.thy ===== *)
theory Memblock_Free
  imports Memblock_Ops
begin

text \<open>
  The walk over the free ranges visits exactly the memory that is not reserved, and what the
  search and the allocator return lies in it.
\<close>

section \<open>Gaps of a table\<close>

definition in_gap :: "memblock_type \<Rightarrow> nat \<Rightarrow> nat \<Rightarrow> bool" where
  "in_gap tb j x \<longleftrightarrow> unat (gap_start tb j) \<le> x \<and> x < unat (gap_end tb j)"

lemma type_ok_regions:
  assumes "type_ok t"
  shows "sorted_wrt (\<lambda>a b. re a \<le> rb b) (regions t)" and "\<And>r. r \<in> set (regions t) \<Longrightarrow> re r < 2 ^ 32"
  using assms by (auto simp: type_ok_def table_ok_def region_ok_def empty_region_def)

lemma unat_end_ok: "re r < 2 ^ 32 \<Longrightarrow> unat (r_base r + r_size r) = re r"
  by (intro unat_add_nowrap) simp

lemma sorted_regions:
  assumes "type_ok t" and "i < j" and "j < cnt t"
  shows "re (regions t ! i) \<le> rb (regions t ! j)"
  using sorted_wrt_nth_less [OF type_ok_regions(1) [OF assms(1)] assms(2,3)] .

lemma gap_start_Suc:
  assumes "type_ok t" and "j < cnt t"
  shows "unat (gap_start t (Suc j)) = re (regions t ! j)"
  using assms type_ok_regions(2) [OF assms(1), of "regions t ! j"]
  by (simp add: gap_start_def unat_end_ok)

lemma gap_end_less: "j < cnt t \<Longrightarrow> unat (gap_end t j) = rb (regions t ! j)"
  by (simp add: gap_end_def)

lemma gap_order:
  assumes ok: "type_ok t" and "i < j" and "j \<le> cnt t"
  shows "unat (gap_end t i) \<le> unat (gap_start t j)"
proof -
  from assms obtain k where k: "j = Suc k" "k < cnt t" "i \<le> k" by (cases j) auto
  then have "unat (gap_end t i) = rb (regions t ! i)" by (simp add: gap_end_less)
  also have "\<dots> \<le> re (regions t ! k)"
    using sorted_regions [OF ok, of i k] k by (cases "i = k") auto
  also have "\<dots> = unat (gap_start t j)"
    using gap_start_Suc [OF ok] k by simp
  finally show ?thesis .
qed

lemma in_gap_not_covered:
  assumes ok: "type_ok t" and "j \<le> cnt t" and g: "in_gap t j x"
  shows "x \<notin> covered t"
proof
  assume "x \<in> covered t"
  then obtain i where i: "i < cnt t" "rb (regions t ! i) \<le> x" "x < re (regions t ! i)"
    by (auto simp: covers_def addrs_def in_set_conv_nth)
  show False
  proof (cases "i < j")
    case True
    then have "re (regions t ! i) \<le> unat (gap_start t j)"
      using gap_start_Suc [OF ok i(1)] gap_order [OF ok, of "Suc i" j] assms(2)
        gap_end_less [of "Suc i" t] sorted_regions [OF ok, of i "Suc i"]
      by (cases "Suc i = j") auto
    with g i show False by (simp add: in_gap_def)
  next
    case False
    with i have "unat (gap_end t j) \<le> rb (regions t ! i)"
      using sorted_regions [OF ok, of j i] gap_end_less [of j t] by (cases "i = j") auto
    with g i show False by (simp add: in_gap_def)
  qed
qed

lemma not_covered_in_gap:
  assumes ok: "type_ok t" and x: "x \<notin> covered t" "x < 2 ^ 32 - 1"
  shows "\<exists>j \<le> cnt t. in_gap t j x"
proof -
  define j where "j = (LEAST j. j = cnt t \<or> x < rb (regions t ! j))"
  have ex: "\<exists>j. j = cnt t \<or> x < rb (regions t ! j)" by blast
  have le: "j \<le> cnt t" unfolding j_def by (rule Least_le) simp
  have "j = cnt t \<or> x < rb (regions t ! j)" unfolding j_def using ex by (rule LeastI_ex)
  then have "x < unat (gap_end t j)"
    using x le by (auto simp: gap_end_def unat_PHYS_ADDR_MAX)
  moreover have "unat (gap_start t j) \<le> x"
  proof (cases j)
    case 0
    then show ?thesis by (simp add: gap_start_def)
  next
    case (Suc i)
    then have "i < j" by simp
    then have "\<not> (i = cnt t \<or> x < rb (regions t ! i))" unfolding j_def by (rule not_less_Least)
    moreover have "x \<notin> addrs (regions t ! i)"
      using x(1) Suc le by (auto simp: covers_def)
    ultimately have "re (regions t ! i) \<le> x" by (simp add: addrs_def)
    with gap_start_Suc [OF ok] Suc le show ?thesis by simp
  qed
  ultimately show ?thesis using le by (auto simp: in_gap_def)
qed

section \<open>The forward walk\<close>

lemma next_gap_spec:
  assumes "type_ok tb" and "next_gap tb s e b = (f, j)" and "b \<le> cnt tb + 1"
  shows "b \<le> j" and "\<forall>i. b \<le> i \<and> i < j \<longrightarrow> unat (gap_end tb i) \<le> unat s"
    and "f \<Longrightarrow> j \<le> cnt tb \<and> gap_start tb j < e \<and> s < gap_end tb j"
    and "\<not> f \<Longrightarrow> j = cnt tb + 1 \<or> j \<le> cnt tb \<and> unat e \<le> unat (gap_start tb j)"
proof -
  from assms(2,3) have "b \<le> j \<and> (\<forall>i. b \<le> i \<and> i < j \<longrightarrow> unat (gap_end tb i) \<le> unat s)
    \<and> (f \<longrightarrow> j \<le> cnt tb \<and> gap_start tb j < e \<and> s < gap_end tb j)
    \<and> (\<not> f \<longrightarrow> j = cnt tb + 1 \<or> j \<le> cnt tb \<and> unat e \<le> unat (gap_start tb j))"
  proof (induction tb s e b rule: next_gap.induct)
    case (1 tb s e b)
    show ?case
    proof (cases "b < cnt tb + 1 \<and> \<not> e \<le> gap_start tb b \<and> \<not> s < gap_end tb b")
      case True
      with "1.prems" have n: "next_gap tb s e (b + 1) = (f, j)"
        by (simp add: next_gap.simps [of tb s e b])
      from True "1.IH" [OF _ _ _ n] have IH: "b + 1 \<le> j"
        "\<forall>i. b + 1 \<le> i \<and> i < j \<longrightarrow> unat (gap_end tb i) \<le> unat s"
        "(f \<longrightarrow> j \<le> cnt tb \<and> gap_start tb j < e \<and> s < gap_end tb j)
         \<and> (\<not> f \<longrightarrow> j = cnt tb + 1 \<or> j \<le> cnt tb \<and> unat e \<le> unat (gap_start tb j))" by auto
      have here: "unat (gap_end tb b) \<le> unat s" using True by (simp add: word_less_nat_alt)
      have "unat (gap_end tb i) \<le> unat s" if "b \<le> i" "i < j" for i
        using here IH(2) that by (cases "i = b") auto
      with IH show ?thesis by auto
    next
      case False
      with "1.prems" show ?thesis
        by (auto simp: next_gap.simps [of tb s e b] word_le_nat_alt word_less_nat_alt split: if_splits)
    qed
  qed
  then show "b \<le> j" and "\<forall>i. b \<le> i \<and> i < j \<longrightarrow> unat (gap_end tb i) \<le> unat s"
    and "f \<Longrightarrow> j \<le> cnt tb \<and> gap_start tb j < e \<and> s < gap_end tb j"
    and "\<not> f \<Longrightarrow> j = cnt tb + 1 \<or> j \<le> cnt tb \<and> unat e \<le> unat (gap_start tb j)"
    by auto
qed

text \<open>The part of region \<open>i\<close> in gap \<open>j\<close>, for the regions and gaps a cursor has still ahead.\<close>

definition ahead ::
    "int \<Rightarrow> u32 \<Rightarrow> mb_kind \<Rightarrow> memblock_type \<Rightarrow> memblock_type \<Rightarrow> nat \<Rightarrow> nat \<Rightarrow> nat set" where
  "ahead nid flags k ta tb a b =
     {x. \<exists>i j. a \<le> i \<and> i < cnt ta \<and> \<not> should_skip_region k (regions ta ! i) nid flags
            \<and> x \<in> addrs (regions ta ! i) \<and> b \<le> j \<and> j \<le> cnt tb \<and> in_gap tb j x}"

definition span :: "mem_range \<Rightarrow> nat set" where
  "span r = (case r of (s, e, n) \<Rightarrow> {unat s ..< unat e})"

lemma later_region:
  assumes "type_ok ta" and "i < i'" and "i' < cnt ta" and "x \<in> addrs (regions ta ! i')"
  shows "re (regions ta ! i) \<le> x"
  using sorted_regions [OF assms(1-3)] assms(4) by (simp add: addrs_def)

lemma found_span:
  assumes ok: "type_ok ta" and i: "i < cnt ta"
  shows "span (max (r_base (regions ta ! i)) (gap_start tb j),
               min (r_base (regions ta ! i) + r_size (regions ta ! i)) (gap_end tb j), n)
     = {x. x \<in> addrs (regions ta ! i) \<and> in_gap tb j x}"
proof -
  have "unat (r_base (regions ta ! i) + r_size (regions ta ! i)) = re (regions ta ! i)"
    using type_ok_regions(2) [OF ok, of "regions ta ! i"] i by (simp add: unat_end_ok)
  then show ?thesis by (auto simp: span_def unat_max unat_min addrs_def in_gap_def)
qed

text \<open>Every range of a walk is all of one region in one gap.\<close>

definition cell :: "memblock_type \<Rightarrow> memblock_type \<Rightarrow> nat set \<Rightarrow> bool" where
  "cell ta tb A \<longleftrightarrow> (\<exists>i j. i < cnt ta \<and> j \<le> cnt tb \<and> A = {x. x \<in> addrs (regions ta ! i) \<and> in_gap tb j x})"

lemma cellI: "i < cnt ta \<Longrightarrow> j \<le> cnt tb \<Longrightarrow> cell ta tb {x. x \<in> addrs (regions ta ! i) \<and> in_gap tb j x}"
  unfolding cell_def by blast

lemma gap_start_mono:
  assumes ok: "type_ok t" and "i \<le> j" and "j \<le> cnt t"
  shows "unat (gap_start t i) \<le> unat (gap_start t j)"
proof (cases "i = 0 \<or> i = j")
  case True
  then show ?thesis by (auto simp: gap_start_def)
next
  case False
  then obtain p q where pq: "i = Suc p" "j = Suc q" "p < q" "q < cnt t"
    using assms(2,3) by (cases i; cases j) auto
  then show ?thesis
    using gap_start_Suc [OF ok, of p] gap_start_Suc [OF ok, of q] sorted_regions [OF ok, of p q] by simp
qed

lemma ahead_skip:
  "a < cnt ta \<Longrightarrow> should_skip_region k (regions ta ! a) nid flags \<Longrightarrow>
     ahead nid flags k ta tb a b = ahead nid flags k ta tb (a + 1) b"
  unfolding ahead_def by (rule Collect_cong) (metis Suc_eq_plus1 Suc_le_eq le_neq_implies_less less_imp_le)

lemma ahead_advance:
  assumes ok: "type_ok ta" and "b \<le> j"
    and low: "\<forall>i. b \<le> i \<and> i < j \<longrightarrow> unat (gap_end tb i) \<le> rb (regions ta ! a)"
  shows "ahead nid flags k ta tb a b = ahead nid flags k ta tb a j"
proof -
  have "j \<le> j'" if "a \<le> i" "i < cnt ta" "x \<in> addrs (regions ta ! i)" "b \<le> j'" "in_gap tb j' x" for i j' x
  proof (rule ccontr)
    assume "\<not> j \<le> j'"
    with low that have "x < rb (regions ta ! a)" by (force simp: in_gap_def)
    moreover have "rb (regions ta ! a) \<le> x"
      using that later_region [OF ok, of a i x] by (cases "a = i") (auto simp: addrs_def)
    ultimately show False by simp
  qed
  with assms(2) show ?thesis unfolding ahead_def by (intro Collect_cong) (meson order_trans)
qed

lemma ahead_region:
  assumes "a < cnt ta" and "\<not> should_skip_region k (regions ta ! a) nid flags"
  shows "ahead nid flags k ta tb a j
     = {x. x \<in> addrs (regions ta ! a) \<and> (\<exists>j'. j \<le> j' \<and> j' \<le> cnt tb \<and> in_gap tb j' x)}
       \<union> ahead nid flags k ta tb (a + 1) j"
proof -
  have "a \<le> i \<longleftrightarrow> i = a \<or> a + 1 \<le> i" for i by auto
  with assms show ?thesis unfolding ahead_def by auto
qed

lemma ahead_gap:
  assumes "j \<le> cnt tb"
  shows "ahead nid flags k ta tb a j
     = {x. in_gap tb j x \<and> (\<exists>i. a \<le> i \<and> i < cnt ta
              \<and> \<not> should_skip_region k (regions ta ! i) nid flags \<and> x \<in> addrs (regions ta ! i))}
       \<union> ahead nid flags k ta tb a (j + 1)"
proof -
  have "j \<le> i \<longleftrightarrow> i = j \<or> j + 1 \<le> i" for i by auto
  with assms show ?thesis unfolding ahead_def by auto
qed

lemma ahead_region_done:
  assumes ok: "type_ok tb" and a: "a < cnt ta" "\<not> should_skip_region k (regions ta ! a) nid flags"
    and j: "j \<le> cnt tb" and fin: "re (regions ta ! a) \<le> unat (gap_end tb j)"
  shows "ahead nid flags k ta tb a j
     = {x. x \<in> addrs (regions ta ! a) \<and> in_gap tb j x} \<union> ahead nid flags k ta tb (a + 1) j"
proof -
  have "j' = j" if "x \<in> addrs (regions ta ! a)" "j \<le> j'" "j' \<le> cnt tb" "in_gap tb j' x" for j' x
    using that gap_order [OF ok, of j j'] fin by (cases "j = j'") (auto simp: in_gap_def addrs_def)
  then have "{x. x \<in> addrs (regions ta ! a) \<and> (\<exists>j'. j \<le> j' \<and> j' \<le> cnt tb \<and> in_gap tb j' x)}
      = {x. x \<in> addrs (regions ta ! a) \<and> in_gap tb j x}" using j by blast
  with ahead_region [OF a, of tb j] show ?thesis by simp
qed

lemma ahead_gap_done:
  assumes ok: "type_ok ta" and a: "a < cnt ta" "\<not> should_skip_region k (regions ta ! a) nid flags"
    and j: "j \<le> cnt tb" and more: "unat (gap_end tb j) \<le> re (regions ta ! a)"
  shows "ahead nid flags k ta tb a j
     = {x. x \<in> addrs (regions ta ! a) \<and> in_gap tb j x} \<union> ahead nid flags k ta tb a (j + 1)"
proof -
  have "i = a" if "a \<le> i" "i < cnt ta" "x \<in> addrs (regions ta ! i)" "in_gap tb j x" for i x
    using that later_region [OF ok, of a i x] more by (cases "i = a") (auto simp: in_gap_def)
  then have "{x. in_gap tb j x \<and> (\<exists>i. a \<le> i \<and> i < cnt ta
              \<and> \<not> should_skip_region k (regions ta ! i) nid flags \<and> x \<in> addrs (regions ta ! i))}
      = {x. x \<in> addrs (regions ta ! a) \<and> in_gap tb j x}" using a by blast
  with ahead_gap [OF j, of nid flags k ta a] show ?thesis by simp
qed

lemma ahead_region_none:
  assumes ok: "type_ok tb" and a: "a < cnt ta" "\<not> should_skip_region k (regions ta ! a) nid flags"
    and j: "j = cnt tb + 1 \<or> j \<le> cnt tb \<and> re (regions ta ! a) \<le> unat (gap_start tb j)"
  shows "ahead nid flags k ta tb a j = ahead nid flags k ta tb (a + 1) j"
proof -
  have "\<not> in_gap tb j' x" if "x \<in> addrs (regions ta ! a)" "j \<le> j'" "j' \<le> cnt tb" for j' x
    using that j gap_start_mono [OF ok, of j j'] by (auto simp: in_gap_def addrs_def)
  with ahead_region [OF a, of tb j] show ?thesis by blast
qed

lemma ahead_above:
  assumes ok: "type_ok ta" "type_ok tb" and a: "a < cnt ta" and "a \<le> a'" and "j \<le> j'"
    and x: "x \<in> ahead nid flags k ta tb a' j'"
  shows "unat (max (r_base (regions ta ! a)) (gap_start tb j)) \<le> x"
proof -
  from x obtain i q where iq: "a' \<le> i" "i < cnt ta" "x \<in> addrs (regions ta ! i)"
    "j' \<le> q" "q \<le> cnt tb" "in_gap tb q x"
    by (auto simp: ahead_def)
  have "rb (regions ta ! a) \<le> x"
    using iq assms(4) later_region [OF ok(1), of a i x] by (cases "a = i") (auto simp: addrs_def)
  moreover have "unat (gap_start tb j) \<le> x"
    using gap_start_mono [OF ok(2), of j q] iq assms(5) by (auto simp: in_gap_def)
  ultimately show ?thesis by (simp add: unat_max)
qed

text \<open>
  One step of the walk: the range it returns and what is ahead of the new cursor make up what was
  ahead of the old one, and nothing ahead lies below the range.
\<close>

definition step_ok ::
    "int \<Rightarrow> u32 \<Rightarrow> mb_kind \<Rightarrow> memblock_type \<Rightarrow> memblock_type \<Rightarrow> nat \<Rightarrow> nat
     \<Rightarrow> (mem_range \<times> nat \<times> nat) option \<Rightarrow> bool" where
  "step_ok nid flags k ta tb a b res \<longleftrightarrow> (case res of
      None \<Rightarrow> ahead nid flags k ta tb a b = {}
    | Some (r, a', b') \<Rightarrow> b' \<le> cnt tb + 1
        \<and> ahead nid flags k ta tb a b = span r \<union> ahead nid flags k ta tb a' b'
        \<and> (\<forall>x \<in> ahead nid flags k ta tb a' b'. unat (fst r) \<le> x)
        \<and> cell ta tb (span r))"

lemma step_ok_cong:
  "ahead nid flags k ta tb a b = ahead nid flags k ta tb c d \<Longrightarrow>
     step_ok nid flags k ta tb a b res = step_ok nid flags k ta tb c d res"
  unfolding step_ok_def by (erule ssubst) (rule refl)

lemma next_mem_range_step:
  assumes ok: "type_ok ta" "type_ok tb" and "b \<le> cnt tb + 1"
  shows "step_ok nid flags k ta tb a b (next_mem_range_from nid flags k ta (Some tb) a b)"
  using assms(3)
proof (induction "cnt ta - a" arbitrary: a b)
  case 0
  then have "\<not> a < cnt ta" by simp
  then show ?case
    by (subst next_mem_range_from.simps) (auto simp: step_ok_def ahead_def)
next
  case (Suc m)
  then have a: "a < cnt ta" and m: "m = cnt ta - (a + 1)" by simp_all
  let ?m = "regions ta ! a"
  show ?case
  proof (cases "should_skip_region k ?m nid flags")
    case True
    from a True have "next_mem_range_from nid flags k ta (Some tb) a b
        = next_mem_range_from nid flags k ta (Some tb) (a + 1) b"
      by (subst next_mem_range_from.simps) (simp add: Let_def)
    with Suc.hyps(1) [OF m Suc.prems] step_ok_cong [OF ahead_skip [OF a True]] show ?thesis
      by simp
  next
    case ns: False
    obtain f j where fj: "next_gap tb (r_base ?m) (r_base ?m + r_size ?m) b = (f, j)"
      by fastforce
    note g = next_gap_spec [OF ok(2) fj Suc.prems]
    have adv: "ahead nid flags k ta tb a b = ahead nid flags k ta tb a j"
      by (rule ahead_advance [OF ok(1) g(1,2)])
    have e: "unat (r_base ?m + r_size ?m) = re ?m"
      using type_ok_regions(2) [OF ok(1), of ?m] a by (simp add: unat_end_ok)
    show ?thesis
    proof (cases f)
      case False
      with g(4) e have j: "j = cnt tb + 1 \<or> j \<le> cnt tb \<and> re ?m \<le> unat (gap_start tb j)" by simp
      then have "j \<le> cnt tb + 1" by auto
      from Suc.hyps(1) [OF m this] False a ns fj
      have "step_ok nid flags k ta tb (a + 1) j (next_mem_range_from nid flags k ta (Some tb) a b)"
        by (subst next_mem_range_from.simps) (simp add: Let_def)
      with step_ok_cong [OF trans [OF adv ahead_region_none [OF ok(2) a ns j]]] show ?thesis by simp
    next
      case True
      with g(3) have j: "j \<le> cnt tb" by simp
      have above: "\<forall>x \<in> ahead nid flags k ta tb a' j'. unat (max (r_base ?m) (gap_start tb j)) \<le> x"
        if "a \<le> a'" "j \<le> j'" for a' j'
        using ahead_above [OF ok a that] by blast
      show ?thesis
      proof (cases "r_base ?m + r_size ?m \<le> gap_end tb j")
        case le: True
        with e have "re ?m \<le> unat (gap_end tb j)" by (simp add: word_le_nat_alt)
        with ahead_region_done [OF ok(2) a ns j] adv True le a ns fj j found_span [OF ok(1) a, of tb j]
          above [of "a + 1" j] cellI [OF a j]
        show ?thesis
          by (subst next_mem_range_from.simps) (simp add: Let_def step_ok_def)
      next
        case gt: False
        with e have "unat (gap_end tb j) \<le> re ?m" by (simp add: word_le_nat_alt)
        with ahead_gap_done [OF ok(1) a ns j] adv True gt a ns fj j found_span [OF ok(1) a, of tb j]
          above [of a "j + 1"] cellI [OF a j]
        show ?thesis
          by (subst next_mem_range_from.simps) (simp add: Let_def step_ok_def)
      qed
    qed
  qed
qed

section \<open>The walk as a whole\<close>

text \<open>The node the walk compares with: \<open>MAX_NUMNODES\<close> means any.\<close>

definition walk_nid :: "int \<Rightarrow> int" where
  "walk_nid nid = (if nid = MAX_NUMNODES then NUMA_NO_NODE else nid)"

definition free_mem :: "int \<Rightarrow> u32 \<Rightarrow> memblock \<Rightarrow> nat set" where
  "free_mem nid flags mb =
     \<Union> (addrs ` {m \<in> set (regions (memory mb)). \<not> should_skip_region Memory m (walk_nid nid) flags})
     - covered (reserved mb)"

lemma mem_ranges_from_exact:
  assumes "type_ok ta" "type_ok tb" "b \<le> cnt tb + 1"
  shows "\<Union> (span ` set (mem_ranges_from nid flags k ta (Some tb) a b))
     = ahead (walk_nid nid) flags k ta tb a b
     \<and> (\<forall>r \<in> set (mem_ranges_from nid flags k ta (Some tb) a b). cell ta tb (span r))"
  using assms
proof (induction nid flags k ta "Some tb" a b rule: mem_ranges_from.induct)
  case (1 nid flags k ta a b)
  have nx: "next_mem_range nid flags k ta (Some tb) a b
      = next_mem_range_from (walk_nid nid) flags k ta (Some tb) a b"
    by (simp add: next_mem_range_def walk_nid_def)
  note step = next_mem_range_step [OF "1.prems", of "walk_nid nid" flags k a]
  show ?case
  proof (cases "next_mem_range nid flags k ta (Some tb) a b")
    case None
    with step nx show ?thesis by (simp add: mem_ranges_from.simps [of _ _ _ _ _ a] step_ok_def)
  next
    case (Some x)
    obtain r a' b' where x: "x = (r, a', b')" by (cases x)
    with Some step nx have "b' \<le> cnt tb + 1"
      and "ahead (walk_nid nid) flags k ta tb a b = span r \<union> ahead (walk_nid nid) flags k ta tb a' b'"
      and "cell ta tb (span r)"
      by (auto simp: step_ok_def)
    with "1.hyps" [OF Some x [symmetric] refl] "1.prems" Some x show ?thesis
      by (simp add: mem_ranges_from.simps [of _ _ _ _ _ a])
  qed
qed

lemma region_below_max:
  "type_ok t \<Longrightarrow> m \<in> set (regions t) \<Longrightarrow> x \<in> addrs m \<Longrightarrow> x < 2 ^ 32 - 1"
  using type_ok_regions(2) [of t m] by (auto simp: addrs_def)

lemma ahead_all:
  assumes "mb_ok mb"
  shows "ahead (walk_nid nid) flags Memory (memory mb) (reserved mb) 0 0 = free_mem nid flags mb"
proof -
  from assms have m: "type_ok (memory mb)" and r: "type_ok (reserved mb)" by (auto simp: mb_ok_def)
  have "(\<exists>j. j \<le> cnt (reserved mb) \<and> in_gap (reserved mb) j x) \<longleftrightarrow> x \<notin> covered (reserved mb)"
    if "i < cnt (memory mb)" "x \<in> addrs (regions (memory mb) ! i)" for i x
    using not_covered_in_gap [OF r, of x] in_gap_not_covered [OF r] region_below_max [OF m _ that(2)] that
    by auto
  then show ?thesis
    unfolding ahead_def free_mem_def set_conv_nth by (simp add: set_eq_iff) blast
qed

section \<open>The walk from the top\<close>

lemma prev_gap_spec:
  assumes "prev_gap tb s e b = (f, j)" and "b \<le> int (cnt tb)"
  shows "j \<le> b \<and> (\<forall>i. j < int i \<and> int i \<le> b \<longrightarrow> unat e \<le> unat (gap_start tb i))
    \<and> (f \<longrightarrow> 0 \<le> j \<and> gap_start tb (nat j) < e \<and> s < gap_end tb (nat j))
    \<and> (\<not> f \<longrightarrow> j < 0 \<or> unat (gap_end tb (nat j)) \<le> unat s)"
  using assms
proof (induction tb s e b rule: prev_gap.induct)
  case (1 tb s e b)
  show ?case
  proof (cases "0 \<le> b \<and> \<not> gap_end tb (nat b) \<le> s \<and> \<not> gap_start tb (nat b) < e")
    case True
    with "1.prems" have n: "prev_gap tb s e (b - 1) = (f, j)"
      by (simp add: prev_gap.simps [of tb s e b])
    from True "1.IH" [OF _ _ _ n] "1.prems" have IH: "j \<le> b - 1"
      "\<forall>i. j < int i \<and> int i \<le> b - 1 \<longrightarrow> unat e \<le> unat (gap_start tb i)"
      "(f \<longrightarrow> 0 \<le> j \<and> gap_start tb (nat j) < e \<and> s < gap_end tb (nat j))
       \<and> (\<not> f \<longrightarrow> j < 0 \<or> unat (gap_end tb (nat j)) \<le> unat s)" by auto
    have here: "unat e \<le> unat (gap_start tb (nat b))" using True by (simp add: word_less_nat_alt)
    have "unat e \<le> unat (gap_start tb i)" if "j < int i" "int i \<le> b" for i
      using here IH(2) that by (cases "int i = b") auto
    with IH show ?thesis by auto
  next
    case False
    with "1.prems" show ?thesis
      by (auto simp: prev_gap.simps [of tb s e b] word_le_nat_alt word_less_nat_alt split: if_splits)
  qed
qed

definition behind ::
    "int \<Rightarrow> u32 \<Rightarrow> mb_kind \<Rightarrow> memblock_type \<Rightarrow> memblock_type \<Rightarrow> int \<Rightarrow> int \<Rightarrow> nat set" where
  "behind nid flags k ta tb a b =
     {x. \<exists>i j. int i \<le> a \<and> i < cnt ta \<and> \<not> should_skip_region k (regions ta ! i) nid flags
            \<and> x \<in> addrs (regions ta ! i) \<and> int j \<le> b \<and> j \<le> cnt tb \<and> in_gap tb j x}"

lemma earlier_region:
  assumes "type_ok ta" and "i \<le> a" and "a < cnt ta" and "x \<in> addrs (regions ta ! i)"
  shows "x < re (regions ta ! a)"
  using sorted_regions [OF assms(1), of i a] assms(2-4) by (cases "i = a") (auto simp: addrs_def)

lemma gap_end_mono:
  assumes ok: "type_ok t" and "i \<le> j" and "j \<le> cnt t"
  shows "unat (gap_end t i) \<le> unat (gap_end t j)"
proof (cases "i = j \<or> j = cnt t")
  case True
  then show ?thesis
    using word_n1_ge [of "gap_end t i"] by (auto simp: gap_end_def PHYS_ADDR_MAX_def word_le_nat_alt)
next
  case False
  with assms show ?thesis
    using sorted_regions [OF ok, of i j] gap_end_less [of i t] gap_end_less [of j t] by auto
qed

lemma behind_skip:
  assumes "should_skip_region k (regions ta ! n) nid flags"
  shows "behind nid flags k ta tb (int n) b = behind nid flags k ta tb (int n - 1) b"
proof -
  have "int i \<le> int n \<longleftrightarrow> i = n \<or> int i \<le> int n - 1" for i by auto
  with assms show ?thesis unfolding behind_def by auto
qed

lemma behind_advance:
  assumes ok: "type_ok ta" and n: "n < cnt ta" and "j \<le> b"
    and high: "\<forall>i. j < int i \<and> int i \<le> b \<longrightarrow> re (regions ta ! n) \<le> unat (gap_start tb i)"
  shows "behind nid flags k ta tb (int n) b = behind nid flags k ta tb (int n) j"
proof -
  have "int j' \<le> j" if "int i \<le> int n" "x \<in> addrs (regions ta ! i)" "int j' \<le> b" "in_gap tb j' x"
    for i j' x
  proof (rule ccontr)
    assume "\<not> int j' \<le> j"
    with high that have "re (regions ta ! n) \<le> x" by (force simp: in_gap_def)
    with earlier_region [OF ok _ n that(2)] that(1) show False by simp
  qed
  with assms(3) show ?thesis unfolding behind_def by (intro Collect_cong) (meson order_trans)
qed

lemma behind_region:
  assumes "n < cnt ta" and "\<not> should_skip_region k (regions ta ! n) nid flags"
  shows "behind nid flags k ta tb (int n) j
     = {x. x \<in> addrs (regions ta ! n) \<and> (\<exists>j'. int j' \<le> j \<and> j' \<le> cnt tb \<and> in_gap tb j' x)}
       \<union> behind nid flags k ta tb (int n - 1) j"
proof -
  have "int i \<le> int n \<longleftrightarrow> i = n \<or> int i \<le> int n - 1" for i by auto
  with assms show ?thesis unfolding behind_def by auto
qed

lemma behind_gap:
  assumes "q \<le> cnt tb"
  shows "behind nid flags k ta tb a (int q)
     = {x. in_gap tb q x \<and> (\<exists>i. int i \<le> a \<and> i < cnt ta
              \<and> \<not> should_skip_region k (regions ta ! i) nid flags \<and> x \<in> addrs (regions ta ! i))}
       \<union> behind nid flags k ta tb a (int q - 1)"
proof -
  have "int i \<le> int q \<longleftrightarrow> i = q \<or> int i \<le> int q - 1" for i by auto
  with assms show ?thesis unfolding behind_def by auto
qed

lemma behind_region_done:
  assumes ok: "type_ok tb" and a: "n < cnt ta" "\<not> should_skip_region k (regions ta ! n) nid flags"
    and q: "q \<le> cnt tb" and fin: "unat (gap_start tb q) \<le> rb (regions ta ! n)"
  shows "behind nid flags k ta tb (int n) (int q)
     = {x. x \<in> addrs (regions ta ! n) \<and> in_gap tb q x} \<union> behind nid flags k ta tb (int n - 1) (int q)"
proof -
  have "j = q" if "x \<in> addrs (regions ta ! n)" "int j \<le> int q" "in_gap tb j x" for j x
    using that gap_order [OF ok _ q, of j] fin by (cases "j = q") (auto simp: in_gap_def addrs_def)
  then have "{x. x \<in> addrs (regions ta ! n) \<and> (\<exists>j. int j \<le> int q \<and> j \<le> cnt tb \<and> in_gap tb j x)}
      = {x. x \<in> addrs (regions ta ! n) \<and> in_gap tb q x}" using q by blast
  with behind_region [OF a, of tb "int q"] show ?thesis by simp
qed

lemma behind_gap_done:
  assumes ok: "type_ok ta" and a: "n < cnt ta" "\<not> should_skip_region k (regions ta ! n) nid flags"
    and q: "q \<le> cnt tb" and more: "rb (regions ta ! n) \<le> unat (gap_start tb q)"
  shows "behind nid flags k ta tb (int n) (int q)
     = {x. x \<in> addrs (regions ta ! n) \<and> in_gap tb q x} \<union> behind nid flags k ta tb (int n) (int q - 1)"
proof -
  have "i = n" if "int i \<le> int n" "x \<in> addrs (regions ta ! i)" "in_gap tb q x" for i x
    using that sorted_regions [OF ok _ a(1), of i] more
    by (cases "i = n") (auto simp: in_gap_def addrs_def)
  then have "{x. in_gap tb q x \<and> (\<exists>i. int i \<le> int n \<and> i < cnt ta
              \<and> \<not> should_skip_region k (regions ta ! i) nid flags \<and> x \<in> addrs (regions ta ! i))}
      = {x. x \<in> addrs (regions ta ! n) \<and> in_gap tb q x}" using a by blast
  with behind_gap [OF q, of nid flags k ta "int n"] show ?thesis by simp
qed

lemma behind_region_none:
  assumes ok: "type_ok tb" and a: "n < cnt ta" "\<not> should_skip_region k (regions ta ! n) nid flags"
    and j: "j \<le> int (cnt tb)" "j < 0 \<or> unat (gap_end tb (nat j)) \<le> rb (regions ta ! n)"
  shows "behind nid flags k ta tb (int n) j = behind nid flags k ta tb (int n - 1) j"
proof -
  have "\<not> in_gap tb j' x" if "x \<in> addrs (regions ta ! n)" "int j' \<le> j" "j' \<le> cnt tb" for j' x
    using that j gap_end_mono [OF ok, of j' "nat j"]
    by (auto simp: in_gap_def addrs_def nat_le_iff le_nat_iff)
  with behind_region [OF a, of tb j] show ?thesis by blast
qed

definition rev_step_ok ::
    "int \<Rightarrow> u32 \<Rightarrow> mb_kind \<Rightarrow> memblock_type \<Rightarrow> memblock_type \<Rightarrow> int \<Rightarrow> int
     \<Rightarrow> (mem_range \<times> int \<times> int) option \<Rightarrow> bool" where
  "rev_step_ok nid flags k ta tb a b res \<longleftrightarrow> (case res of
      None \<Rightarrow> behind nid flags k ta tb a b = {}
    | Some (r, a', b') \<Rightarrow> a' < int (cnt ta) \<and> b' \<le> int (cnt tb)
        \<and> behind nid flags k ta tb a b = span r \<union> behind nid flags k ta tb a' b'
        \<and> cell ta tb (span r))"

lemma rev_step_ok_cong:
  "behind nid flags k ta tb a b = behind nid flags k ta tb c d \<Longrightarrow>
     rev_step_ok nid flags k ta tb a b res = rev_step_ok nid flags k ta tb c d res"
  unfolding rev_step_ok_def by (erule ssubst) (rule refl)

lemma rev_step_region:
  assumes ok: "type_ok ta" "type_ok tb" and n: "n < cnt ta" and b: "b \<le> int (cnt tb)"
    and ns: "\<not> should_skip_region k (regions ta ! n) nid flags"
    and IH: "\<And>b. b \<le> int (cnt tb) \<Longrightarrow>
      rev_step_ok nid flags k ta tb (int n - 1) b (next_mem_range_rev_from nid flags k ta (Some tb) (int n - 1) b)"
  shows "rev_step_ok nid flags k ta tb (int n) b (next_mem_range_rev_from nid flags k ta (Some tb) (int n) b)"
proof -
  let ?m = "regions ta ! n"
  obtain f j where fj: "prev_gap tb (r_base ?m) (r_base ?m + r_size ?m) b = (f, j)"
    by fastforce
  note g = prev_gap_spec [OF fj b]
  have e: "unat (r_base ?m + r_size ?m) = re ?m"
    using type_ok_regions(2) [OF ok(1), of ?m] n by (simp add: unat_end_ok)
  from g b have jc: "j \<le> int (cnt tb)" by linarith
  from g e have adv: "behind nid flags k ta tb (int n) b = behind nid flags k ta tb (int n) j"
    by (intro behind_advance [OF ok(1) n]) auto
  show ?thesis
  proof (cases f)
    case False
    with g have j: "j < 0 \<or> unat (gap_end tb (nat j)) \<le> rb ?m" by blast
    from IH [OF jc] False ns fj
    have "rev_step_ok nid flags k ta tb (int n - 1) j (next_mem_range_rev_from nid flags k ta (Some tb) (int n) b)"
      by (subst next_mem_range_rev_from.simps) (simp add: Let_def)
    with rev_step_ok_cong [OF trans [OF adv behind_region_none [OF ok(2) n ns jc j]]] show ?thesis by simp
  next
    case True
    with g have "0 \<le> j" by blast
    then obtain q where q: "j = int q" "q \<le> cnt tb" using jc by (cases j) auto
    show ?thesis
    proof (cases "gap_start tb q \<le> r_base ?m")
      case le: True
      then have "unat (gap_start tb q) \<le> rb ?m" by (simp add: word_le_nat_alt)
      with behind_region_done [OF ok(2) n ns q(2)] adv True le n ns fj q found_span [OF ok(1) n, of tb q]
        cellI [OF n q(2)]
      show ?thesis
        by (subst next_mem_range_rev_from.simps) (simp add: Let_def rev_step_ok_def)
    next
      case gt: False
      then have "rb ?m \<le> unat (gap_start tb q)" by (simp add: word_le_nat_alt)
      with behind_gap_done [OF ok(1) n ns q(2)] adv True gt n ns fj q found_span [OF ok(1) n, of tb q]
        cellI [OF n q(2)]
      show ?thesis
        by (subst next_mem_range_rev_from.simps) (simp add: Let_def rev_step_ok_def)
    qed
  qed
qed

lemma next_mem_range_rev_step:
  assumes ok: "type_ok ta" "type_ok tb" and "a < int (cnt ta)" and "b \<le> int (cnt tb)"
  shows "rev_step_ok nid flags k ta tb a b (next_mem_range_rev_from nid flags k ta (Some tb) a b)"
  using assms(3,4)
proof (induction "nat (a + 1)" arbitrary: a b)
  case 0
  then have "a < 0" by simp
  then show ?case
    by (subst next_mem_range_rev_from.simps) (auto simp: rev_step_ok_def behind_def)
next
  case (Suc m)
  then have a: "a = int m" and m: "m = nat (int m - 1 + 1)" by simp_all
  from Suc.prems a have n: "m < cnt ta" by simp
  have IH: "rev_step_ok nid flags k ta tb (int m - 1) b
      (next_mem_range_rev_from nid flags k ta (Some tb) (int m - 1) b)" if "b \<le> int (cnt tb)" for b
    using n that by (intro Suc.hyps(1) [OF m]) auto
  show ?case
  proof (cases "should_skip_region k (regions ta ! m) nid flags")
    case True
    then have "next_mem_range_rev_from nid flags k ta (Some tb) (int m) b
        = next_mem_range_rev_from nid flags k ta (Some tb) (int m - 1) b"
      by (subst next_mem_range_rev_from.simps) (simp add: Let_def)
    with IH [OF Suc.prems(2)] rev_step_ok_cong [OF behind_skip [OF True]] a show ?thesis
      by simp
  next
    case False
    from rev_step_region [OF ok n Suc.prems(2) False IH] a show ?thesis by simp
  qed
qed

lemma mem_ranges_rev_from_exact:
  assumes "type_ok ta" "type_ok tb" "a < int (cnt ta)" "b \<le> int (cnt tb)"
  shows "\<Union> (span ` set (mem_ranges_rev_from nid flags k ta (Some tb) a b))
     = behind (walk_nid nid) flags k ta tb a b
     \<and> (\<forall>r \<in> set (mem_ranges_rev_from nid flags k ta (Some tb) a b). cell ta tb (span r))"
  using assms
proof (induction nid flags k ta "Some tb" a b rule: mem_ranges_rev_from.induct)
  case (1 nid flags k ta a b)
  have nx: "next_mem_range_rev nid flags k ta (Some tb) (Some (a, b))
      = next_mem_range_rev_from (walk_nid nid) flags k ta (Some tb) a b"
    by (simp add: next_mem_range_rev_def walk_nid_def)
  note step = next_mem_range_rev_step [OF "1.prems", of "walk_nid nid" flags k]
  show ?case
  proof (cases "next_mem_range_rev nid flags k ta (Some tb) (Some (a, b))")
    case None
    with step nx show ?thesis by (simp add: mem_ranges_rev_from.simps [of _ _ _ _ _ a] rev_step_ok_def)
  next
    case (Some x)
    obtain r a' b' where x: "x = (r, a', b')" by (cases x)
    with Some step nx have "a' < int (cnt ta)" "b' \<le> int (cnt tb)"
      and "behind (walk_nid nid) flags k ta tb a b = span r \<union> behind (walk_nid nid) flags k ta tb a' b'"
      and "cell ta tb (span r)"
      by (auto simp: rev_step_ok_def)
    with "1.hyps" [OF Some x [symmetric] refl] "1.prems" Some x show ?thesis
      by (simp add: mem_ranges_rev_from.simps [of _ _ _ _ _ a])
  qed
qed

lemma behind_all:
  "behind nid flags k ta tb (int (cnt ta) - 1) (int (cnt tb)) = ahead nid flags k ta tb 0 0"
proof -
  have "int i \<le> int (cnt ta) - 1 \<and> i < cnt ta \<longleftrightarrow> i < cnt ta" for i by auto
  then show ?thesis unfolding behind_def ahead_def by auto
qed

lemma free_walks_exact:
  assumes "mb_ok mb"
  shows "\<Union> (span ` set (for_each_free_mem_range nid flags mb)) = free_mem nid flags mb"
    and "\<Union> (span ` set (for_each_free_mem_range_reverse nid flags mb)) = free_mem nid flags mb"
    and "r \<in> set (for_each_free_mem_range nid flags mb) \<or> r \<in> set (for_each_free_mem_range_reverse nid flags mb)
      \<Longrightarrow> cell (memory mb) (reserved mb) (span r)"
proof -
  from assms have m: "type_ok (memory mb)" and r: "type_ok (reserved mb)" by (auto simp: mb_ok_def)
  show "\<Union> (span ` set (for_each_free_mem_range nid flags mb)) = free_mem nid flags mb"
    by (simp add: for_each_free_mem_range_def mem_ranges_from_exact [OF m r] ahead_all [OF assms])
  have "for_each_free_mem_range_reverse nid flags mb
      = mem_ranges_rev_from nid flags Memory (memory mb) (Some (reserved mb))
          (int (cnt (memory mb)) - 1) (int (cnt (reserved mb)))"
    by (simp add: for_each_free_mem_range_reverse_def next_mem_range_rev_def
        mem_ranges_rev_from.simps [of _ _ _ _ _ "int (cnt (memory mb)) - 1"])
  then show "\<Union> (span ` set (for_each_free_mem_range_reverse nid flags mb)) = free_mem nid flags mb"
    and "r \<in> set (for_each_free_mem_range nid flags mb) \<or> r \<in> set (for_each_free_mem_range_reverse nid flags mb)
      \<Longrightarrow> cell (memory mb) (reserved mb) (span r)"
    using mem_ranges_from_exact [OF m r, of 0 nid flags Memory 0]
      mem_ranges_rev_from_exact [OF m r, of "int (cnt (memory mb)) - 1" "int (cnt (reserved mb))" nid flags Memory]
    by (auto simp: behind_all ahead_all [OF assms] for_each_free_mem_range_def)
qed

section \<open>The search\<close>

text \<open>An aligned block of \<open>sz\<close> bytes at \<open>c\<close>, inside the limits and inside one range.\<close>

definition block_at :: "nat \<Rightarrow> phys_addr \<Rightarrow> phys_addr \<Rightarrow> phys_addr \<Rightarrow> nat \<Rightarrow> bool" where
  "block_at k start end sz c \<longleftrightarrow> 2 ^ k dvd c \<and> unat start \<le> c \<and> c + unat sz \<le> unat end"

lemma clamp_block:
  assumes "lo \<le> hi" and "min (max s lo) hi \<le> c" and "c + n \<le> min (max e lo) hi" and "0 < n"
  shows "s \<le> c" and "c + n \<le> e" and "lo \<le> c" and "c + n \<le> (hi :: nat)"
  using assms by (auto simp: min_def max_def split: if_splits)

lemma block_clamp:
  assumes "lo \<le> c" and "c + n \<le> hi" and "s \<le> c" and "c + n \<le> e" and "0 < n"
  shows "min (max s lo) hi \<le> c" and "c + n \<le> min (max e lo) (hi :: nat)"
  using assms by auto

lemma unat_clamp: "unat (clamp v lo hi) = min (max (unat v) (unat lo)) (unat hi)"
  by (simp add: clamp_def unat_min unat_max)

lemma unat_diff: "b \<le> a \<Longrightarrow> unat (a - b) = unat a - unat b"
  by (rule unat_sub)

lemma scan_bottom_up_sound:
  assumes k: "k < 32" and lim: "start \<le> end" and pos: "sz \<noteq> 0"
    and "scan_bottom_up start end sz (2 ^ k) rs = c" and "c \<noteq> 0"
  shows "block_at k start end sz (unat c) \<and> (\<exists>r \<in> set rs. {unat c ..< unat c + unat sz} \<subseteq> span r)"
  using assms(4)
proof (induction rs)
  case Nil
  with assms(5) show ?case by simp
next
  case (Cons r rs)
  obtain s e n where r: "r = (s, e, n)" by (cases r)
  let ?ts = "clamp s start end" and ?te = "clamp e start end"
  let ?c = "round_up ?ts (2 ^ k)"
  show ?case
  proof (cases "?c < ?te \<and> sz \<le> ?te - ?c")
    case True
    with Cons.prems r have c: "c = ?c" by (simp add: Let_def)
    have "unat ?ts \<le> unat c" using assms(5) unfolding c by (rule round_up_ge)
    moreover from True have "unat c + unat sz \<le> unat ?te"
      using unat_diff [of ?c ?te] unfolding c word_le_nat_alt word_less_nat_alt by linarith
    ultimately have *: "unat s \<le> unat c" "unat c + unat sz \<le> unat e" "unat start \<le> unat c"
      "unat c + unat sz \<le> unat end"
      using clamp_block [of "unat start" "unat end" "unat s" "unat c" "unat sz" "unat e"] lim pos
      unfolding unat_clamp word_le_nat_alt by (simp_all only: unat_gt_0 not_False_eq_True simp_thms)
    with round_up_aligned [of k ?ts] k show ?thesis by (auto simp: block_at_def c r span_def)
  next
    case False
    with Cons.prems r have "scan_bottom_up start end sz (2 ^ k) rs = c" by (simp add: Let_def)
    from Cons.IH [OF this] show ?thesis by auto
  qed
qed

text \<open>
  Near the top of the address space \<open>round_up\<close> can wrap to 0. The ranges come in ascending order,
  so no later range could have held an aligned block either.
\<close>

lemma scan_bottom_up_complete:
  assumes k: "k < 32" and start: "start \<noteq> 0" and lim: "start \<le> end" and pos: "sz \<noteq> 0"
    and "sorted_wrt (\<lambda>r r'. \<forall>x \<in> span r'. unat (fst r) \<le> x) rs"
    and "r \<in> set rs" and blk: "block_at k start end sz c" and "{c ..< c + unat sz} \<subseteq> span r"
  shows "scan_bottom_up start end sz (2 ^ k) rs \<noteq> 0"
  using assms(5,6)
proof (induction rs)
  case (Cons r' rs)
  obtain s e n where r': "r' = (s, e, n)" by (cases r')
  let ?ts = "clamp s start end" and ?te = "clamp e start end"
  let ?c = "round_up ?ts (2 ^ k)"
  have c0: "0 < unat sz" using pos by (simp add: unat_gt_0)
  have ts: "?ts \<noteq> 0" using start lim by (auto simp: clamp_def min_def max_def)
  have c: "2 ^ k dvd c" "c < 2 ^ LENGTH(32)" "unat start \<le> c" "c + unat sz \<le> unat end"
    using blk unat_u32_bound [of "end"] by (auto simp: block_at_def)
  have "c \<in> span r" using assms(8) c0 by auto
  with Cons.prems have "unat s \<le> c" by (cases "r = r'") (auto simp: r' span_def)
  then have "unat ?ts \<le> c" using c(3) by (simp add: unat_clamp)
  then have cand: "unat ?c \<le> c" "?c \<noteq> 0"
    using round_up_least [OF _ ts c(1) _ c(2)] k by auto
  show ?case
  proof (cases "?c < ?te \<and> sz \<le> ?te - ?c")
    case True
    with r' cand show ?thesis by (simp add: Let_def)
  next
    case False
    have "r \<noteq> r'"
    proof
      assume "r = r'"
      with assms(8) r' c0 have "c + unat sz \<le> unat e" by (auto simp: span_def atLeastLessThan_subset_iff)
      with c have te: "c + unat sz \<le> unat ?te" by (simp add: unat_clamp)
      with cand(1) c0 have "?c < ?te" unfolding word_less_nat_alt by linarith
      then have "sz \<le> ?te - ?c" using unat_diff [of ?c ?te] cand(1) te by (simp add: word_le_nat_alt)
      with False \<open>?c < ?te\<close> show False by simp
    qed
    with Cons have "scan_bottom_up start end sz (2 ^ k) rs \<noteq> 0" by simp
    with cand r' show ?thesis by (simp add: Let_def)
  qed
qed simp

lemma scan_top_down_sound:
  assumes k: "k < 32" and lim: "start \<le> end" and pos: "sz \<noteq> 0"
    and "scan_top_down start end sz (2 ^ k) rs = c" and "c \<noteq> 0"
  shows "block_at k start end sz (unat c) \<and> (\<exists>r \<in> set rs. {unat c ..< unat c + unat sz} \<subseteq> span r)"
  using assms(4)
proof (induction rs)
  case Nil
  with assms(5) show ?case by simp
next
  case (Cons r rs)
  obtain s e n where r: "r = (s, e, n)" by (cases r)
  let ?ts = "clamp s start end" and ?te = "clamp e start end"
  let ?c = "round_down (?te - sz) (2 ^ k)"
  show ?case
  proof (cases "\<not> ?te < sz \<and> ?ts \<le> ?c")
    case True
    with Cons.prems r have c: "c = ?c" by (simp add: Let_def)
    have "unat ?c \<le> unat (?te - sz)" by (rule round_down_le)
    moreover have "unat (?te - sz) = unat ?te - unat sz" "unat sz \<le> unat ?te"
      using True unat_diff [of sz ?te] by (simp_all add: word_le_nat_alt word_less_nat_alt)
    ultimately have "unat c + unat sz \<le> unat ?te" unfolding c by linarith
    moreover from True have "unat ?ts \<le> unat c" by (simp add: c word_le_nat_alt)
    ultimately have *: "unat s \<le> unat c" "unat c + unat sz \<le> unat e" "unat start \<le> unat c"
      "unat c + unat sz \<le> unat end"
      using clamp_block [of "unat start" "unat end" "unat s" "unat c" "unat sz" "unat e"] lim pos
      unfolding unat_clamp word_le_nat_alt by (simp_all only: unat_gt_0 not_False_eq_True simp_thms)
    with unat_round_down [of k "?te - sz"] k show ?thesis by (auto simp: block_at_def c r span_def)
  next
    case False
    with Cons.prems r have "scan_top_down start end sz (2 ^ k) rs = c"
      by (auto simp: Let_def split: if_splits)
    from Cons.IH [OF this] show ?thesis by auto
  qed
qed

lemma scan_top_down_complete:
  assumes k: "k < 32" and start: "start \<noteq> 0" and lim: "start \<le> end" and pos: "sz \<noteq> 0"
    and "r \<in> set rs" and blk: "block_at k start end sz c" and "{c ..< c + unat sz} \<subseteq> span r"
  shows "scan_top_down start end sz (2 ^ k) rs \<noteq> 0"
  using assms(5)
proof (induction rs)
  case (Cons r' rs)
  obtain s e n where r': "r' = (s, e, n)" by (cases r')
  let ?ts = "clamp s start end" and ?te = "clamp e start end"
  let ?c = "round_down (?te - sz) (2 ^ k)"
  have c0: "0 < unat sz" using pos by (simp add: unat_gt_0)
  have ts: "?ts \<noteq> 0" using start lim by (auto simp: clamp_def min_def max_def)
  show ?case
  proof (cases "\<not> ?te < sz \<and> ?ts \<le> ?c")
    case True
    with ts have "?c \<noteq> 0" by auto
    with True r' show ?thesis by (simp add: Let_def)
  next
    case False
    have "r \<noteq> r'"
    proof
      assume "r = r'"
      with assms(7) r' c0 have "unat s \<le> c" "c + unat sz \<le> unat e"
        by (auto simp: span_def atLeastLessThan_subset_iff)
      with blk have te: "unat ?ts \<le> c" "c + unat sz \<le> unat ?te" "2 ^ k dvd c"
        by (auto simp: unat_clamp block_at_def)
      then have le: "sz \<le> ?te" by (simp add: word_le_nat_alt)
      with te have "c \<le> unat (?te - sz)" using unat_diff [of sz ?te] by simp
      with te k have "c \<le> unat ?c" by (intro round_down_greatest) auto
      with te False le show False by (simp add: word_le_nat_alt word_less_nat_alt)
    qed
    with Cons have "scan_top_down start end sz (2 ^ k) rs \<noteq> 0" by simp
    with False r' show ?thesis by (auto simp: Let_def)
  qed
qed simp

lemma mem_ranges_from_ascending:
  assumes "type_ok ta" "type_ok tb" "b \<le> cnt tb + 1"
  shows "sorted_wrt (\<lambda>r r'. \<forall>x \<in> span r'. unat (fst r) \<le> x) (mem_ranges_from nid flags k ta (Some tb) a b)"
  using assms
proof (induction nid flags k ta "Some tb" a b rule: mem_ranges_from.induct)
  case (1 nid flags k ta a b)
  note step = next_mem_range_step [OF "1.prems", of "walk_nid nid" flags k a]
  have nx: "next_mem_range nid flags k ta (Some tb) a b
      = next_mem_range_from (walk_nid nid) flags k ta (Some tb) a b"
    by (simp add: next_mem_range_def walk_nid_def)
  show ?case
  proof (cases "next_mem_range nid flags k ta (Some tb) a b")
    case None
    then show ?thesis by (simp add: mem_ranges_from.simps [of _ _ _ _ _ a])
  next
    case (Some x)
    obtain r a' b' where x: "x = (r, a', b')" by (cases x)
    with Some step nx have b': "b' \<le> cnt tb + 1"
      and above: "\<forall>x \<in> ahead (walk_nid nid) flags k ta tb a' b'. unat (fst r) \<le> x"
      by (auto simp: step_ok_def)
    have "\<forall>q \<in> set (mem_ranges_from nid flags k ta (Some tb) a' b'). \<forall>x \<in> span q. unat (fst r) \<le> x"
      using mem_ranges_from_exact [OF "1.prems"(1,2) b', of nid flags k a'] above by blast
    with "1.hyps" [OF Some x [symmetric] refl "1.prems"(1,2) b'] Some x show ?thesis
      by (subst mem_ranges_from.simps) simp
  qed
qed


text \<open>A block in one usable memory region, clear of the reserved regions.\<close>

definition free_block ::
    "int \<Rightarrow> u32 \<Rightarrow> memblock \<Rightarrow> nat \<Rightarrow> phys_addr \<Rightarrow> phys_addr \<Rightarrow> phys_addr \<Rightarrow> nat \<Rightarrow> bool" where
  "free_block nid flags mb k start end sz c \<longleftrightarrow> block_at k start end sz c
     \<and> (\<exists>m \<in> set (regions (memory mb)). \<not> should_skip_region Memory m (walk_nid nid) flags
          \<and> {c ..< c + unat sz} \<subseteq> addrs m)
     \<and> {c ..< c + unat sz} \<inter> covered (reserved mb) = {}"

lemma region_base_covered:
  assumes "type_ok t" and "j < cnt t" and "rb (regions t ! j) \<noteq> 0"
  shows "rb (regions t ! j) \<in> covered t"
proof -
  have "regions t ! j \<in> set (regions t)" using assms(2) by simp
  then have "r_size (regions t ! j) \<noteq> 0"
    using assms by (auto simp: type_ok_def table_ok_def region_ok_def empty_region_def)
  then show ?thesis using assms(2) by (auto simp: covers_def addrs_def intro!: bexI [of _ "regions t ! j"])
qed

lemma interval_in_gap:
  assumes ok: "type_ok t" and free: "{c ..< c + n} \<inter> covered t = {}" and g: "in_gap t j c" and j: "j \<le> cnt t"
    and top: "c + n < 2 ^ 32" and x: "c \<le> x" "x < c + n"
  shows "in_gap t j x"
proof (cases "j = cnt t")
  case True
  with g x top show ?thesis by (simp add: in_gap_def gap_end_def unat_PHYS_ADDR_MAX)
next
  case False
  with j have j': "j < cnt t" by simp
  have "x < rb (regions t ! j)"
  proof (rule ccontr)
    assume "\<not> x < rb (regions t ! j)"
    moreover have "c < rb (regions t ! j)" using g j' by (simp add: in_gap_def gap_end_less)
    ultimately have "rb (regions t ! j) \<in> {c ..< c + n}" and "rb (regions t ! j) \<noteq> 0" using x by auto
    with region_base_covered [OF ok j'] free show False by blast
  qed
  with g x j' show ?thesis by (simp add: in_gap_def gap_end_less)
qed

lemma gap_unique:
  assumes ok: "type_ok t" and "in_gap t i x" "in_gap t j x" "i \<le> cnt t" "j \<le> cnt t"
  shows "i = j"
  using gap_order [OF ok, of i j] gap_order [OF ok, of j i] assms(2-5)
  by (cases i j rule: linorder_cases) (auto simp: in_gap_def)

lemma region_unique:
  assumes ok: "type_ok t" and "x \<in> addrs (regions t ! i)" "x \<in> addrs (regions t ! j)" "i < cnt t" "j < cnt t"
  shows "i = j"
  using sorted_regions [OF ok, of i j] sorted_regions [OF ok, of j i] assms(2-5)
  by (cases i j rule: linorder_cases) (auto simp: addrs_def)

lemma free_block_in_range:
  assumes ok: "mb_ok mb" and fb: "free_block nid flags mb k start end sz c" and pos: "sz \<noteq> 0"
    and un: "\<Union> (span ` set rs) = free_mem nid flags mb"
    and cells: "\<forall>r \<in> set rs. cell (memory mb) (reserved mb) (span r)"
  shows "\<exists>r \<in> set rs. {c ..< c + unat sz} \<subseteq> span r"
proof -
  from ok have m: "type_ok (memory mb)" and rv: "type_ok (reserved mb)" by (auto simp: mb_ok_def)
  from fb obtain i where i: "i < cnt (memory mb)" "{c ..< c + unat sz} \<subseteq> addrs (regions (memory mb) ! i)"
      "\<not> should_skip_region Memory (regions (memory mb) ! i) (walk_nid nid) flags"
    and free: "{c ..< c + unat sz} \<inter> covered (reserved mb) = {}"
    and top: "c + unat sz < 2 ^ 32"
    using unat_u32_bound [of "end"] by (auto simp: free_block_def block_at_def in_set_conv_nth)
  have c0: "c \<in> {c ..< c + unat sz}" using pos by simp
  have "regions (memory mb) ! i \<in> set (regions (memory mb))" using i(1) by simp
  with i(2,3) c0 free have "c \<in> free_mem nid flags mb" unfolding free_mem_def by blast
  with un obtain r where r: "r \<in> set rs" "c \<in> span r" by blast
  with cells obtain i' j where ij: "i' < cnt (memory mb)" "j \<le> cnt (reserved mb)"
    "span r = {x. x \<in> addrs (regions (memory mb) ! i') \<and> in_gap (reserved mb) j x}"
    unfolding cell_def by blast
  with r have g: "in_gap (reserved mb) j c" and "c \<in> addrs (regions (memory mb) ! i')" by auto
  then have "i' = i" using region_unique [OF m, of c i' i] ij i c0 by blast
  with ij i interval_in_gap [OF rv free g ij(2) top] have "{c ..< c + unat sz} \<subseteq> span r" by auto
  with r show ?thesis by blast
qed

lemma range_is_free_block:
  assumes ok: "mb_ok mb" and blk: "block_at k start end sz c" and sub: "{c ..< c + unat sz} \<subseteq> span r"
    and pos: "sz \<noteq> 0" and r: "r \<in> set rs"
    and un: "\<Union> (span ` set rs) = free_mem nid flags mb"
    and cells: "\<forall>r \<in> set rs. cell (memory mb) (reserved mb) (span r)"
  shows "free_block nid flags mb k start end sz c"
proof -
  from ok have m: "type_ok (memory mb)" by (auto simp: mb_ok_def)
  have all: "{c ..< c + unat sz} \<subseteq> free_mem nid flags mb" using sub r un by blast
  have c0: "c \<in> {c ..< c + unat sz}" using pos by simp
  from r cells obtain i j where ij: "i < cnt (memory mb)"
    "span r = {x. x \<in> addrs (regions (memory mb) ! i) \<and> in_gap (reserved mb) j x}"
    unfolding cell_def by blast
  from all c0 have "c \<in> free_mem nid flags mb" by blast
  then obtain i' where i': "i' < cnt (memory mb)" "c \<in> addrs (regions (memory mb) ! i')"
    "\<not> should_skip_region Memory (regions (memory mb) ! i') (walk_nid nid) flags"
    by (auto simp: free_mem_def in_set_conv_nth)
  have "c \<in> addrs (regions (memory mb) ! i)" using sub c0 ij by blast
  then have "i' = i" using region_unique [OF m] i' ij by blast
  with i' ij sub have "\<not> should_skip_region Memory (regions (memory mb) ! i) (walk_nid nid) flags"
    "{c ..< c + unat sz} \<subseteq> addrs (regions (memory mb) ! i)" by auto
  moreover have "regions (memory mb) ! i \<in> set (regions (memory mb))" using ij(1) by simp
  ultimately show ?thesis using all blk unfolding free_block_def free_mem_def by blast
qed

lemma memblock_find_correct:
  assumes ok: "mb_ok mb" and k: "k < 32" and pos: "sz \<noteq> 0"
    and lo: "lo = max start PAGE_SIZE"
    and hi: "hi = (if end = MEMBLOCK_ALLOC_ACCESSIBLE \<or> end = MEMBLOCK_ALLOC_NOLEAKTRACE
                   then current_limit mb else end)"
  shows "if memblock_find_in_range_node mb sz (2 ^ k) start end nid flags = 0
     then (\<nexists>c. free_block nid flags mb k lo hi sz c)
     else free_block nid flags mb k lo hi sz
            (unat (memblock_find_in_range_node mb sz (2 ^ k) start end nid flags))"
proof -
  let ?hi = "max lo hi" and ?up = "for_each_free_mem_range nid flags mb"
    and ?down = "for_each_free_mem_range_reverse nid flags mb"
  from ok have m: "type_ok (memory mb)" and rv: "type_ok (reserved mb)" by (auto simp: mb_ok_def)
  define c where "c = memblock_find_in_range_node mb sz (2 ^ k) start end nid flags"
  have c: "c = (if bottom_up mb then scan_bottom_up lo ?hi sz (2 ^ k) ?up
      else scan_top_down lo ?hi sz (2 ^ k) ?down)"
    by (simp add: c_def memblock_find_in_range_node_def memblock_find_range_bottom_up_def
        memblock_find_range_top_down_def lo hi Let_def)
  have le: "lo \<le> ?hi" by simp
  have nz: "lo \<noteq> 0" unfolding lo by (auto simp: max_def PAGE_SIZE_def PAGE_SHIFT_def)
  define rs where "rs = (if bottom_up mb then ?up else ?down)"
  have un: "\<Union> (span ` set rs) = free_mem nid flags mb"
    and cells: "\<forall>r \<in> set rs. cell (memory mb) (reserved mb) (span r)"
    using free_walks_exact(1,2) [OF ok, of nid flags] free_walks_exact(3) [OF ok, of _ nid flags]
    unfolding rs_def by (cases "bottom_up mb"; (simp only: if_True if_False; blast))+
  have asc: "sorted_wrt (\<lambda>r r'. \<forall>x \<in> span r'. unat (fst r) \<le> x) ?up"
    unfolding for_each_free_mem_range_def by (intro mem_ranges_from_ascending m rv) simp
  have blk: "block_at k lo ?hi sz d \<longleftrightarrow> block_at k lo hi sz d" for d
  proof -
    have "0 < unat sz" using pos by simp
    then show ?thesis unfolding block_at_def unat_max by linarith
  qed
  have sound: "block_at k lo hi sz (unat c) \<and> (\<exists>r \<in> set rs. {unat c ..< unat c + unat sz} \<subseteq> span r)"
    if "c \<noteq> 0"
    using scan_bottom_up_sound [OF k le pos _ that] scan_top_down_sound [OF k le pos _ that] c blk
    by (simp add: rs_def split: if_splits)
  have complete: "c \<noteq> 0" if "r \<in> set rs" "block_at k lo hi sz d" "{d ..< d + unat sz} \<subseteq> span r" for r d
    using scan_bottom_up_complete [OF k nz le pos asc, of r d]
      scan_top_down_complete [OF k nz le pos, of r _ d] that c blk
    by (simp add: rs_def split: if_splits)
  show ?thesis
  proof (cases "c = 0")
    case True
    have "\<not> free_block nid flags mb k lo hi sz d" for d
    proof
      assume f: "free_block nid flags mb k lo hi sz d"
      then have "block_at k lo hi sz d" by (simp add: free_block_def)
      with complete free_block_in_range [OF ok f pos un cells] True show False by blast
    qed
    with True show ?thesis unfolding c_def [symmetric] by simp
  next
    case False
    with sound range_is_free_block [OF ok _ _ pos _ un cells]
    have "free_block nid flags mb k lo hi sz (unat c)" by blast
    with False show ?thesis unfolding c_def [symmetric] by simp
  qed
qed

section \<open>Allocation\<close>

text \<open>What a successful allocation promises, and what a failed one leaves alone.\<close>

definition allocated ::
    "nat \<Rightarrow> phys_addr \<Rightarrow> phys_addr \<Rightarrow> phys_addr \<Rightarrow> memblock \<Rightarrow> memblock \<Rightarrow> phys_addr \<Rightarrow> bool" where
  "allocated k lo hi sz mb mb' a \<longleftrightarrow>
     (if a = 0 then mb' = mb
      else block_at k lo hi sz (unat a)
        \<and> {unat a ..< unat a + unat sz} \<subseteq> covered (memory mb) - covered (reserved mb)
        \<and> covered (reserved mb') = covered (reserved mb) \<union> {unat a ..< unat a + unat sz}
        \<and> type_ok (reserved mb') \<and> (\<exists>t. mb' = mb\<lparr>reserved := t\<rparr>))"

lemma request_block: "unat a + unat sz < 2 ^ 32 \<Longrightarrow> request a sz = {unat a ..< unat a + unat sz}"
proof -
  assume "unat a + unat sz < 2 ^ 32"
  moreover have "unat (PHYS_ADDR_MAX - a) = 2 ^ 32 - 1 - unat a"
    using unat_u32_bound [of a]
    by (subst unat_sub) (auto simp: unat_PHYS_ADDR_MAX word_le_nat_alt)
  ultimately have "unat (memblock_cap_size a sz) = unat sz"
    by (simp add: memblock_cap_size_def unat_min)
  then show ?thesis by (simp add: request_def)
qed

lemma alloc_try_allocates:
  assumes ok: "mb_ok mb" and fixed: "\<not> memblock_can_resize mb" and k: "k < 32" and pos: "sz \<noteq> 0"
    and lo: "lo = max start PAGE_SIZE"
    and hi: "hi = (if end = MEMBLOCK_ALLOC_ACCESSIBLE \<or> end = MEMBLOCK_ALLOC_NOLEAKTRACE
                   then current_limit mb else end)"
  shows "\<exists>mb' a. alloc_try (Suc n) env sz (2 ^ k) start end nid flags mb = Ok (mb', a)
    \<and> allocated k lo hi sz mb mb' a"
proof -
  define f where "f = memblock_find_in_range_node mb sz (2 ^ k) start end nid flags"
  show ?thesis
  proof (cases "f = 0")
    case True
    then show ?thesis by (simp add: alloc_try_def f_def [symmetric] allocated_def)
  next
    case False
    with memblock_find_correct [OF ok k pos lo hi, of nid flags]
    have fb: "free_block nid flags mb k lo hi sz (unat f)" by (simp add: f_def)
    then have blk: "block_at k lo hi sz (unat f)"
      and free: "{unat f ..< unat f + unat sz} \<subseteq> covered (memory mb) - covered (reserved mb)"
      by (auto simp: free_block_def covers_def)
    from blk have "unat f + unat sz < 2 ^ 32"
      using unat_u32_bound [of hi] by (simp add: block_at_def)
    then have req: "request f sz = {unat f ..< unat f + unat sz}" by (rule request_block)
    have "type_ok (get_type Reserved mb)" using ok by (simp add: mb_ok_def)
    from add_range_total [OF this disjI2 [OF fixed], where base = f and sz = sz and n = n and env = env
        and nid = MAX_NUMNODES and fl = 0]
    obtain mb' r where r: "memblock_reserve (Suc n) env f sz mb = Ok (mb', r)"
      and cases: "if add_fits Reserved f sz mb
         then r = 0 \<and> type_ok (reserved mb') \<and> covered (reserved mb') = covered (reserved mb) \<union> request f sz
            \<and> (\<exists>t. mb' = mb\<lparr>reserved := t\<rparr>)
         else r = - ENOMEM \<and> mb' = mb"
      unfolding memblock_reserve_def get_type.simps set_type.simps by blast
    have al: "alloc_try (Suc n) env sz (2 ^ k) start end nid flags mb = Ok (mb', if r = 0 then f else 0)"
      using False r by (simp add: alloc_try_def f_def [symmetric])
    show ?thesis
    proof (cases "add_fits Reserved f sz mb")
      case True
      with cases blk free req False have "allocated k lo hi sz mb mb' f" "r = 0" by (simp_all add: allocated_def)
      with al show ?thesis by auto
    next
      case nofit: False
      with cases have "r \<noteq> 0" "mb' = mb" by (simp_all add: ENOMEM_def)
      with al show ?thesis by (simp add: allocated_def)
    qed
  qed
qed

lemma alloc_round_allocates:
  assumes "mb_ok mb" and "\<not> memblock_can_resize mb" and "k < 32" and "sz \<noteq> 0"
    and "lo = max start PAGE_SIZE"
    and "hi = (if end = MEMBLOCK_ALLOC_ACCESSIBLE \<or> end = MEMBLOCK_ALLOC_NOLEAKTRACE
                   then current_limit mb else end)"
  shows "\<exists>mb' a. alloc_round (Suc n) env sz (2 ^ k) start end nid exact flags mb = Ok (mb', a)
    \<and> allocated k lo hi sz mb mb' a"
proof -
  obtain mb1 a where 1: "alloc_try (Suc n) env sz (2 ^ k) start end nid flags mb = Ok (mb1, a)"
    "allocated k lo hi sz mb mb1 a"
    using alloc_try_allocates [OF assms] by blast
  show ?thesis
  proof (cases "a = 0")
    case True
    with 1 have "mb1 = mb" by (simp add: allocated_def)
    with 1 True alloc_try_allocates [OF assms, of n env NUMA_NO_NODE flags] show ?thesis
      by (auto simp: alloc_round_def)
  next
    case False
    with 1 show ?thesis by (simp add: alloc_round_def)
  qed
qed

section \<open>Properties\<close>

lemma example_mb_whole: "mb_ok example_mb"
  using example_mb_ok by (simp add: mb_ok_def)

text \<open>
  \<^bold>\<open>C5\<close>. Both walks over the free ranges, upwards and downwards, visit exactly the usable memory that
  is not reserved: every free address lies in a visited range and every address of a visited range
  is free. Each visited range is the whole of one memory region between two neighbouring
  reserved regions.
\<close>

theorem for_each_free_mem_range_exact:
  assumes "mb_ok mb"
  shows "\<Union> (span ` set (for_each_free_mem_range nid flags mb)) = free_mem nid flags mb
    \<and> \<Union> (span ` set (for_each_free_mem_range_reverse nid flags mb)) = free_mem nid flags mb
    \<and> list_all (\<lambda>r. cell (memory mb) (reserved mb) (span r)) (for_each_free_mem_range nid flags mb)
    \<and> list_all (\<lambda>r. cell (memory mb) (reserved mb) (span r)) (for_each_free_mem_range_reverse nid flags mb)"
  unfolding list_all_iff by (intro conjI ballI free_walks_exact [OF assms]) (erule disjI1 disjI2)+

theorem for_each_free_mem_range_exact_witness:
  "\<Union> (span ` set (for_each_free_mem_range NUMA_NO_NODE MEMBLOCK_NONE example_mb))
     = free_mem NUMA_NO_NODE MEMBLOCK_NONE example_mb"
  using for_each_free_mem_range_exact [OF example_mb_whole] by blast

text \<open>
  \<^bold>\<open>C3\<close>. The search for a free block of a power-of-two alignment is sound and complete: an address it
  returns is aligned, within the limits (page 0 excluded), inside one usable memory region and
  clear of every reserved region; and it returns 0 only when no such block exists, in either
  direction of search and although \<open>round_up\<close> may wrap at the top of the address space.
\<close>

theorem memblock_find_in_range_node_correct:
  assumes "mb_ok mb" and "k < 32" and "sz \<noteq> 0"
  shows "let lo = max start PAGE_SIZE;
      hi = (if end = MEMBLOCK_ALLOC_ACCESSIBLE \<or> end = MEMBLOCK_ALLOC_NOLEAKTRACE
            then current_limit mb else end);
      found = memblock_find_in_range_node mb sz (2 ^ k) start end nid flags
    in if found = 0 then (\<nexists>c. free_block nid flags mb k lo hi sz c)
       else free_block nid flags mb k lo hi sz (unat found)"
  unfolding Let_def by (rule memblock_find_correct [OF assms refl refl])

theorem memblock_find_in_range_node_correct_witness:
  "free_block NUMA_NO_NODE MEMBLOCK_NONE example_mb 12 (max 0 PAGE_SIZE) 0x200000 0x2000
     (unat (memblock_find_in_range_node example_mb 0x2000 (2 ^ 12) 0 0x200000 NUMA_NO_NODE MEMBLOCK_NONE))"
proof -
  have "memblock_find_in_range_node example_mb 0x2000 (2 ^ 12) 0 0x200000 NUMA_NO_NODE MEMBLOCK_NONE \<noteq> 0"
    and "(0x200000 :: u32) \<noteq> MEMBLOCK_ALLOC_ACCESSIBLE" "(0x200000 :: u32) \<noteq> MEMBLOCK_ALLOC_NOLEAKTRACE"
    by code_simp+
  with memblock_find_in_range_node_correct [OF example_mb_whole, of 12 "0x2000" 0 "0x200000"
      NUMA_NO_NODE MEMBLOCK_NONE]
  show ?thesis by (simp add: Let_def)
qed



end
