(* ===== verification/Kbits.thy ===== *)
theory Kbits
  imports Kprelude
begin

text \<open>
  The positions of the lowest and of the highest set bit (\<open>__ffs\<close> and \<open>fls\<close> of
  \<open>arch/x86/include/asm/bitops.h\<close>), with the facts that relate them to powers of two.
\<close>

lemma unat_of_nat_small: "n < 2 ^ LENGTH('a::len) \<Longrightarrow> unat (of_nat n :: 'a word) = n"
  by (simp add: unat_of_nat take_bit_nat_eq_self)

lemma unat_exp: "k < LENGTH('a::len) \<Longrightarrow> unat (2 ^ k :: 'a word) = 2 ^ k"
  using unat_of_nat_small [of "2 ^ k"] by simp

lemma unat_drop: "unat (drop_bit n x) = unat x div 2 ^ n"
  unfolding unat_drop_bit_eq by (rule drop_bit_eq_div)

lemma unat_half: "unat (drop_bit 1 x) = unat x div 2"
  using unat_drop [of 1 x] by (simp only: power_one_right)

text \<open>\<open>fls\<close>: the position of the highest set bit counted from 1, 0 for the zero word.\<close>

function fls_word :: "'a::len word \<Rightarrow> nat" where
  "fls_word x = (if x = 0 then 0 else Suc (fls_word (drop_bit 1 x)))"
  by pat_completeness auto
termination
proof (relation "measure unat")
  fix x :: "'a word"
  assume "x \<noteq> 0"
  then have "0 < unat x" by (simp add: unat_gt_0)
  then show "(drop_bit 1 x, x) \<in> measure unat" by (simp add: unat_half del: One_nat_def)
qed simp

declare fls_word.simps [simp del]

lemma unat_0_iff: "unat x = 0 \<longleftrightarrow> x = 0"
  by (rule unat_eq_zero)

lemma fls_word_0 [simp]: "fls_word 0 = 0"
  by (simp add: fls_word.simps)

lemma fls_upper: "unat x < 2 ^ fls_word x"
proof (induction x rule: fls_word.induct)
  case (1 x)
  show ?case
  proof (cases "x = 0")
    case False
    from 1 [OF False] have "unat x div 2 < 2 ^ fls_word (drop_bit 1 x)" by (simp only: unat_half)
    then show ?thesis using False by (subst fls_word.simps) simp
  qed simp
qed

lemma fls_lower: "x \<noteq> 0 \<Longrightarrow> 2 ^ (fls_word x - 1) \<le> unat x"
proof (induction x rule: fls_word.induct)
  case (1 x)
  show ?case
  proof (cases "drop_bit 1 x = 0")
    case True
    have "0 < unat x" using "1.prems" by (metis gr0I unat_0_iff)
    with True "1.prems" show ?thesis by (subst fls_word.simps) simp
  next
    case False
    have pos: "0 < fls_word (drop_bit 1 x)" using False by (subst fls_word.simps) simp
    from "1.IH" [OF "1.prems" False] have "2 ^ (fls_word (drop_bit 1 x) - 1) \<le> unat x div 2"
      by (simp only: unat_half)
    then have "2 * 2 ^ (fls_word (drop_bit 1 x) - 1) \<le> unat x" by linarith
    moreover have "2 * 2 ^ (fls_word (drop_bit 1 x) - 1) = (2 :: nat) ^ fls_word (drop_bit 1 x)"
      using pos by (cases "fls_word (drop_bit 1 x)") simp_all
    moreover have "fls_word x - 1 = fls_word (drop_bit 1 x)"
      using "1.prems" by (subst fls_word.simps) simp
    ultimately show ?thesis by simp
  qed
qed

lemma fls_pos: "x \<noteq> 0 \<Longrightarrow> 0 < fls_word x"
  by (subst fls_word.simps) simp

lemma fls_le_iff: "fls_word x \<le> n \<longleftrightarrow> unat x < 2 ^ n"
proof (cases "x = 0")
  case False
  show ?thesis
  proof
    assume "fls_word x \<le> n"
    then have "(2 :: nat) ^ fls_word x \<le> 2 ^ n" by (simp add: power_increasing)
    with fls_upper [of x] show "unat x < 2 ^ n" by linarith
  next
    assume "unat x < 2 ^ n"
    with fls_lower [OF False] have "(2 :: nat) ^ (fls_word x - 1) < 2 ^ n" by linarith
    then have "fls_word x - 1 < n" by simp
    then show "fls_word x \<le> n" using fls_pos [OF False] by linarith
  qed
qed simp

lemma fls_le_length: "fls_word (x :: 'a::len word) \<le> LENGTH('a)"
  by (simp add: fls_le_iff)

lemma even_unat: "even (unat x) \<longleftrightarrow> even x"
  by transfer (simp add: even_nat_iff even_take_bit_eq)

lemma ffs_upto_split:
  "x \<noteq> 0 \<Longrightarrow> unat x < 2 ^ n \<Longrightarrow> \<exists>q. odd q \<and> unat x = 2 ^ ffs_upto n x * q"
proof (induction n arbitrary: x)
  case (Suc n)
  show ?case
  proof (cases "odd x")
    case True
    then have "odd (unat x)" by (simp add: even_unat)
    with True show ?thesis by simp
  next
    case False
    then have ev: "even (unat x)" by (simp add: even_unat)
    have h: "unat (drop_bit 1 x) = unat x div 2" by (rule unat_half)
    have "0 < unat x" using Suc.prems(1) by (metis gr0I unat_0_iff)
    with ev have "0 < unat x div 2" by presburger
    with h have nz: "drop_bit 1 x \<noteq> 0" by (metis less_irrefl unat_0)
    have "unat (drop_bit 1 x) < 2 ^ n" using Suc.prems(2) h by simp
    from Suc.IH [OF nz this] obtain q where "odd q" "unat x div 2 = 2 ^ ffs_upto n (drop_bit 1 x) * q"
      using h by auto
    with ev False show ?thesis by (intro exI [of _ q]) (auto simp: dvd_div_eq_mult elim!: evenE)
  qed
qed (simp add: unat_0_iff)

lemma ffs_split: "x \<noteq> 0 \<Longrightarrow> \<exists>q. odd q \<and> unat x = 2 ^ ffs_word x * q"
  unfolding ffs_word_def by (rule ffs_upto_split) simp_all

lemma ffs_drop:
  assumes "x \<noteq> 0"
  shows "odd (unat (drop_bit (ffs_word x) x))" and "unat x = 2 ^ ffs_word x * unat (drop_bit (ffs_word x) x)"
proof -
  from ffs_split [OF assms] obtain q where q: "odd q" "unat x = 2 ^ ffs_word x * q" by blast
  then have "unat (drop_bit (ffs_word x) x) = q" by (simp add: unat_drop)
  with q show "odd (unat (drop_bit (ffs_word x) x))"
    and "unat x = 2 ^ ffs_word x * unat (drop_bit (ffs_word x) x)" by simp_all
qed

lemma ffs_unique:
  assumes "x \<noteq> 0" and "unat x = 2 ^ n * q" and "odd q"
  shows "ffs_word x = n"
proof -
  from ffs_split [OF assms(1)] obtain p where p: "odd p" "unat x = 2 ^ ffs_word x * p" by blast
  with assms have eq: "2 ^ n * q = 2 ^ ffs_word x * p" by simp
  show ?thesis
  proof (cases "ffs_word x" n rule: linorder_cases)
    case less
    then obtain j where "n = ffs_word x + Suc j" by (auto simp: less_iff_Suc_add)
    with eq have "p = 2 ^ Suc j * q" by (simp add: power_add)
    with p show ?thesis by simp
  next
    case greater
    then obtain j where "ffs_word x = n + Suc j" by (auto simp: less_iff_Suc_add)
    with eq have "q = 2 ^ Suc j * p" by (simp add: power_add)
    with assms show ?thesis by simp
  qed simp
qed

lemma ffs_less_length:
  fixes x :: "'a::len word"
  assumes "x \<noteq> 0"
  shows "ffs_word x < LENGTH('a)"
proof -
  from ffs_split [OF assms] obtain q where q: "odd q" "unat x = 2 ^ ffs_word x * q" by blast
  have "1 \<le> q" using q(1) by (cases q) auto
  then have "2 ^ ffs_word x \<le> unat x" using q(2) by simp
  moreover have "unat x < 2 ^ LENGTH('a)" by simp
  ultimately have "(2 :: nat) ^ ffs_word x < 2 ^ LENGTH('a)" by linarith
  then show ?thesis by simp
qed

lemma sint_unat:
  fixes b :: "'a::len word"
  shows "sint b = (if unat b < 2 ^ (LENGTH('a) - 1) then int (unat b) else int (unat b) - 2 ^ LENGTH('a))"
proof -
  obtain n where n: "LENGTH('a) = Suc n" by (cases "LENGTH('a)") auto
  have "unat b < 2 ^ LENGTH('a)" by simp
  then have u: "unat b < 2 * 2 ^ n" using n by simp
  have "sint b = take_bit (Suc n) (int (unat b) + 2 ^ n) - 2 ^ n"
    using n by (simp add: sint_uint signed_take_bit_eq_take_bit_shift)
  also have "take_bit (Suc n) (int (unat b) + 2 ^ n) = (int (unat b) + 2 ^ n) mod (2 * 2 ^ n)"
    by (simp add: take_bit_eq_mod)
  also have "\<dots> = (if unat b < 2 ^ n then int (unat b) + 2 ^ n else int (unat b) - 2 ^ n)"
  proof (cases "unat b < 2 ^ n")
    case True
    then have "int (unat b) < int (2 ^ n)" by (simp only: of_nat_less_iff)
    then have "int (unat b) < 2 ^ n" by (simp only: of_nat_power of_nat_numeral)
    then have "int (unat b) + 2 ^ n < 2 * 2 ^ n" by linarith
    with True show ?thesis by (subst mod_pos_pos_trivial) auto
  next
    case False
    then have "int (2 ^ n) \<le> int (unat b)" by (simp only: of_nat_le_iff not_less)
    then have 1: "2 ^ n \<le> int (unat b)" by (simp only: of_nat_power of_nat_numeral)
    have "int (unat b) < int (2 * 2 ^ n)" using u by (simp only: of_nat_less_iff)
    then have 2: "int (unat b) < 2 * 2 ^ n" by (simp only: of_nat_power of_nat_numeral of_nat_mult)
    have "(int (unat b) + 2 ^ n) mod (2 * 2 ^ n) = (int (unat b) - 2 ^ n + 2 * 2 ^ n) mod (2 * 2 ^ n)"
      by (simp add: add.commute)
    also have "\<dots> = (int (unat b) - 2 ^ n) mod (2 * 2 ^ n)" by (rule mod_add_self2)
    also have "\<dots> = int (unat b) - 2 ^ n" using 1 2 by (intro mod_pos_pos_trivial) linarith+
    finally show ?thesis using False by simp
  qed
  finally show ?thesis using n by simp
qed

lemma sint_pos:
  fixes b :: u64
  assumes "0 < sint b"
  shows "0 < unat b" and "unat b < 2 ^ 63"
proof -
  have u: "unat b < 2 ^ 64" using unat_u64_bound [of b] by simp
  show "unat b < 2 ^ 63"
  proof (rule ccontr)
    assume "\<not> unat b < 2 ^ 63"
    then have "sint b = int (unat b) - 2 ^ 64" by (subst sint_unat) (simp del: of_nat_unat)
    with assms u show False by (simp del: of_nat_unat)
  qed
  then have "sint b = int (unat b)" by (subst sint_unat) (simp del: of_nat_unat)
  with assms show "0 < unat b" by (simp del: of_nat_unat)
qed

end
