(* ===== verification/Kmath.thy ===== *)
theory Kmath
  imports Kbits
begin

text \<open>
  The arithmetic routines of \<open>lib/math\<close>: binary \<open>gcd\<close>, \<open>lcm\<close>, \<open>int_sqrt\<close>, the 64-by-32 and 64-by-64
  divisions of \<open>div64.c\<close> with the \<open>divl\<close> wrappers of \<open>arch/x86/include/asm/div64.h\<close>, and division by
  a precomputed reciprocal. \<open>unsigned long\<close> is 32 bits wide. A loop that need not end for
  every argument is a partial function, \<open>None\<close> being the run that does not return.
\<close>

section \<open>Definitions\<close>

subsection \<open>gcd.c and lcm.c\<close>

partial_function (option) gcd_loop :: "u32 \<Rightarrow> u32 \<Rightarrow> u32 \<Rightarrow> u32 option" where
  "gcd_loop r a b =
     (let a = drop_bit (ffs_word a) a
      in if a = 1 then Some (r AND - r)
         else if a = b then Some (push_bit (ffs_word r) a)
         else if a < b then gcd_loop r (b - a) a
         else gcd_loop r (a - b) b)"

declare gcd_loop.simps [code]

definition gcd_ulong :: "u32 \<Rightarrow> u32 \<Rightarrow> u32 option" where
  "gcd_ulong a b =
     (let r = a OR b
      in if a = 0 \<or> b = 0 then Some r
         else let b = drop_bit (ffs_word b) b
              in if b = 1 then Some (r AND - r) else gcd_loop r a b)"

definition lcm_ulong :: "u32 \<Rightarrow> u32 \<Rightarrow> u32 option" where
  "lcm_ulong a b =
     (if a \<noteq> 0 \<and> b \<noteq> 0 then map_option (\<lambda>g. (a div g) * b) (gcd_ulong a b) else Some 0)"

definition lcm_not_zero :: "u32 \<Rightarrow> u32 \<Rightarrow> u32 option" where
  "lcm_not_zero a b =
     map_option (\<lambda>l. if l \<noteq> 0 then l else if b \<noteq> 0 then b else a) (lcm_ulong a b)"

subsection \<open>int_sqrt.c\<close>

function int_sqrt_loop :: "u32 \<Rightarrow> u32 \<Rightarrow> u32 \<Rightarrow> u32" where
  "int_sqrt_loop x y m =
     (if m \<noteq> 0
      then let b = y + m; y = drop_bit 1 y
           in if x \<ge> b then int_sqrt_loop (x - b) (y + m) (drop_bit 2 m)
              else int_sqrt_loop x y (drop_bit 2 m)
      else y)"
  by pat_completeness auto
termination
proof (relation "measure (\<lambda>(x, y, m). unat m)")
  fix x y m b y' :: u32
  assume "m \<noteq> 0"
  then have "unat (drop_bit 2 m) < unat m"
    by (simp only: unat_drop unat_gt_0 [symmetric]) simp
  then show "((x - b, y' + m, drop_bit 2 m), x, y, m) \<in> measure (\<lambda>(x, y, m). unat m)"
    and "((x, y', drop_bit 2 m), x, y, m) \<in> measure (\<lambda>(x, y, m). unat m)" by simp_all
qed simp

declare int_sqrt_loop.simps [simp del]

definition int_sqrt :: "u32 \<Rightarrow> u32" where
  "int_sqrt x =
     (if x \<le> 1 then x
      else int_sqrt_loop x 0 (push_bit (unat (of_nat (fls_word x - 1) AND NOT (1 :: u32))) 1))"

subsection \<open>div64.c\<close>

text \<open>
  The instruction \<open>divl\<close> divides \<open>upper:low\<close> by a 32-bit divisor; it faults when the divisor is 0 or
  the quotient does not fit.
\<close>

definition divl :: "u32 \<Rightarrow> u32 \<Rightarrow> u32 \<Rightarrow> (u32 \<times> u32) outcome" where
  "divl upper low divisor =
     (if divisor = 0 \<or> upper \<ge> divisor then Bug
      else let n = unat upper * 2 ^ 32 + unat low
           in Ok (of_nat (n div unat divisor), of_nat (n mod unat divisor)))"

definition lo32 :: "u64 \<Rightarrow> u32" where "lo32 x = ucast x"
definition hi32 :: "u64 \<Rightarrow> u32" where "hi32 x = ucast (drop_bit 32 x)"
definition join64 :: "u32 \<Rightarrow> u32 \<Rightarrow> u64" where
  "join64 hi lo = push_bit 32 (ucast hi) OR ucast lo"

definition div_u64_rem :: "u64 \<Rightarrow> u32 \<Rightarrow> (u64 \<times> u32) outcome" where
  "div_u64_rem dividend divisor =
     (let upper = hi32 dividend;
          (hi, upper) = (if upper \<ge> divisor then (upper div divisor, upper mod divisor) else (0, upper))
      in obind (divl upper (lo32 dividend) divisor) (\<lambda>(lo, rm). Ok (join64 hi lo, rm)))"

definition div_u64 :: "u64 \<Rightarrow> u32 \<Rightarrow> u64 outcome" where
  "div_u64 dividend divisor = obind (div_u64_rem dividend divisor) (\<lambda>(q, _). Ok q)"

text \<open>\<open>do_div\<close> on a divisor that is not a compile-time constant: the quotient and the remainder.\<close>

definition do_div :: "u64 \<Rightarrow> u32 \<Rightarrow> (u64 \<times> u32) outcome" where
  "do_div n base =
     (let high = hi32 n;
          (high, upper) = (if high \<noteq> 0 then (high div base, high mod base) else (high, high))
      in if base = 0 then Bug
         else obind (divl upper (lo32 n) base) (\<lambda>(lo, md). Ok (join64 high lo, md)))"

text \<open>\<open>__div64_32\<close>: the first loop scales the divisor up, the second subtracts it back down.\<close>

function div64_scale :: "u64 \<Rightarrow> u64 \<Rightarrow> u64 \<Rightarrow> u64 \<times> u64" where
  "div64_scale b d rem =
     (if 0 < sint b \<and> b < rem then div64_scale (b + b) (d + d) rem else (b, d))"
  by pat_completeness auto
termination
proof (relation "measure (\<lambda>(b, d, rem). 2 ^ 64 - unat b)")
  fix b d rem :: u64
  assume "0 < sint b \<and> b < rem"
  then have "0 < sint b" by simp
  then have "unat b < 2 ^ 63" and "0 < unat b" by (fact sint_pos)+
  then have "unat (b + b) = unat b + unat b" by (intro unat_add_nowrap) simp
  with \<open>unat b < 2 ^ 63\<close> \<open>0 < unat b\<close>
  show "((b + b, d + d, rem), b, d, rem) \<in> measure (\<lambda>(b, d, rem). 2 ^ 64 - unat b)" by simp
qed simp

declare div64_scale.simps [simp del]

function div64_subtract :: "u64 \<Rightarrow> u64 \<Rightarrow> u64 \<Rightarrow> u64 \<Rightarrow> u64 \<times> u64" where
  "div64_subtract b d rem res =
     (let (rem, res) = (if rem \<ge> b then (rem - b, res + d) else (rem, res));
          b = drop_bit 1 b; d = drop_bit 1 d
      in if d \<noteq> 0 then div64_subtract b d rem res else (res, rem))"
  by pat_completeness auto
termination
proof (relation "measure (\<lambda>(b, d, rem, res). unat d)")
  fix b d rem res rem' res' b' d' :: u64 and p
  assume d': "d' = drop_bit 1 d" "d' \<noteq> 0"
  then have "unat d' < unat d" by (metis div_less_dividend less_numeral_extra(3) one_less_numeral_iff
        semiring_norm(76) unat_half unat_gt_0 bot_nat_0.not_eq_extremum div_0)
  then show "((b', d', rem', res'), b, d, rem, res) \<in> measure (\<lambda>(b, d, rem, res). unat d)" by simp
qed simp

declare div64_subtract.simps [simp del]

definition div64_32 :: "u64 \<Rightarrow> u32 \<Rightarrow> (u64 \<times> u32) outcome" where
  "div64_32 n base =
     (let rem = n; b = ucast base; d = 1; high = hi32 rem
      in if high \<ge> base \<and> base = 0 then Bug
         else
           let (res, rem) =
                 (if high \<ge> base
                  then (push_bit 32 (ucast (high div base)),
                        rem - push_bit 32 (ucast (high div base * base)))
                  else (0, rem));
               (b, d) = div64_scale b d rem;
               (res, rem) = div64_subtract b d rem res
           in Ok (res, ucast rem))"

definition div64_u64_rem :: "u64 \<Rightarrow> u64 \<Rightarrow> (u64 \<times> u64) outcome" where
  "div64_u64_rem dividend divisor =
     (let high = hi32 divisor
      in if high = 0
         then obind (div_u64_rem dividend (lo32 divisor)) (\<lambda>(quot, rem32). Ok (quot, ucast rem32))
         else
           let n = fls_word high
           in obind (div_u64 (drop_bit n dividend) (lo32 (drop_bit n divisor))) (\<lambda>quot.
                let quot = (if quot \<noteq> 0 then quot - 1 else quot);
                    remainder = dividend - quot * divisor
                in if remainder \<ge> divisor then Ok (quot + 1, remainder - divisor)
                   else Ok (quot, remainder)))"

definition div64_u64 :: "u64 \<Rightarrow> u64 \<Rightarrow> u64 outcome" where
  "div64_u64 dividend divisor =
     (let high = hi32 divisor
      in if high = 0 then div_u64 dividend (lo32 divisor)
         else
           let n = fls_word high
           in obind (div_u64 (drop_bit n dividend) (lo32 (drop_bit n divisor))) (\<lambda>quot.
                let quot = (if quot \<noteq> 0 then quot - 1 else quot)
                in if dividend - quot * divisor \<ge> divisor then Ok (quot + 1) else Ok quot))"

text \<open>
  The signed divisions. Signed values are words read with \<open>sint\<close>; \<open>abs_s32\<close> and \<open>abs_s64\<close> are the kernel's
  \<open>abs\<close>, which wraps on the least value.
\<close>

definition abs_word :: "'a::len word \<Rightarrow> 'a word" where
  "abs_word x = (if sint x < 0 then - x else x)"

definition div_s64_rem :: "u64 \<Rightarrow> u32 \<Rightarrow> (u64 \<times> u32) outcome" where
  "div_s64_rem dividend divisor =
     (if sint dividend < 0
      then obind (div_u64_rem (- dividend) (abs_word divisor)) (\<lambda>(quotient, remainder).
             Ok (if sint divisor > 0 then - quotient else quotient, - remainder))
      else obind (div_u64_rem dividend (abs_word divisor)) (\<lambda>(quotient, remainder).
             Ok (if sint divisor < 0 then - quotient else quotient, remainder)))"

definition div64_s64 :: "u64 \<Rightarrow> u64 \<Rightarrow> u64 outcome" where
  "div64_s64 dividend divisor =
     obind (div64_u64 (abs_word dividend) (abs_word divisor)) (\<lambda>quot.
       let t = signed_drop_bit 63 (dividend XOR divisor)
       in Ok ((quot XOR t) - t))"

text \<open>\<open>__iter_div_u64_rem\<close> subtracts; a zero divisor never ends.\<close>

partial_function (option) iter_div_u64_rem :: "u32 \<Rightarrow> u64 \<Rightarrow> u32 \<Rightarrow> (u32 \<times> u64) option" where
  "iter_div_u64_rem ret dividend divisor =
     (if dividend \<ge> ucast divisor
      then iter_div_u64_rem (ret + 1) (dividend - ucast divisor) divisor
      else Some (ret, dividend))"

declare iter_div_u64_rem.simps [code]

subsection \<open>reciprocal_div.c\<close>

record reciprocal_value =
  rv_m :: u32
  rv_sh1 :: u8
  rv_sh2 :: u8

definition reciprocal_value_of :: "u32 \<Rightarrow> reciprocal_value outcome" where
  "reciprocal_value_of d =
     (let l = fls_word (d - 1); m0 = (push_bit 32 1 :: u64) * (push_bit l 1 - ucast d)
      in obind (do_div m0 d) (\<lambda>(q, _).
           Ok \<lparr>rv_m = ucast (q + 1), rv_sh1 = of_nat (min l 1), rv_sh2 = of_nat (max (l - 1) 0)\<rparr>))"

definition reciprocal_divide :: "u32 \<Rightarrow> reciprocal_value \<Rightarrow> u32" where
  "reciprocal_divide a R =
     (let t = ucast (drop_bit 32 (ucast a * ucast (rv_m R) :: u64)) :: u32
      in drop_bit (unat (rv_sh2 R)) (t + drop_bit (unat (rv_sh1 R)) (a - t)))"

section \<open>Greatest common divisor\<close>

lemma bit_pred_push:
  fixes q :: nat
  assumes "odd q"
  shows "bit (push_bit n q - 1) i \<longleftrightarrow> i < n \<or> (n < i \<and> bit q (i - n))"
proof -
  obtain p where p: "q = Suc (2 * p)" using assms by (auto elim: oddE)
  have "push_bit n q - 1 = push_bit n (2 * p) + mask n"
    by (simp add: p push_bit_eq_mult mask_eq_exp_minus_1 algebra_simps)
  also have "\<dots> = push_bit n (2 * p) OR mask n"
    by (rule disjunctive_add_eq_or, rule bit_eqI) (auto simp: bit_simps)
  finally show ?thesis
    by (cases "i - n") (auto simp: bit_simps p bit_Suc bit_0 not_less)
qed

lemma and_minus_lowest:
  fixes x :: "'a::len word"
  assumes "x \<noteq> 0"
  shows "x AND - x = 2 ^ ffs_word x"
proof -
  define n where "n = ffs_word x"
  from ffs_split [OF assms] obtain q where q: "odd q" "unat x = push_bit n q"
    by (auto simp: n_def push_bit_eq_mult mult.commute)
  have x: "bit x i \<longleftrightarrow> i < LENGTH('a) \<and> bit (push_bit n q) i" for i
    using q(2) by (metis bit_unsigned_iff bit_imp_le_length possible_bit_nat)
  have y: "bit (x - 1) i \<longleftrightarrow> i < LENGTH('a) \<and> bit (push_bit n q - 1) i" for i
    using q(2) unat_minus_one [OF assms] by (metis bit_unsigned_iff bit_imp_le_length possible_bit_nat)
  have "n < LENGTH('a)" unfolding n_def by (rule ffs_less_length [OF assms])
  have "bit q 0" using q(1) by (simp add: bit_0)
  show ?thesis unfolding n_def [symmetric]
  proof (rule bit_eqI)
    fix i
    assume "possible_bit TYPE('a word) i"
    then have "i < LENGTH('a)" by simp
    then show "bit (x AND - x) i = bit (2 ^ n :: 'a word) i"
      using \<open>n < LENGTH('a)\<close> \<open>bit q 0\<close>
      by (auto simp: bit_and_iff bit_minus_iff x y bit_pred_push [OF q(1)] bit_exp_iff bit_push_bit_iff simp del: One_nat_def)
  qed
qed

lemma ffs_or:
  assumes "a \<noteq> 0" and "b \<noteq> 0"
  shows "ffs_word (a OR b) = min (ffs_word a) (ffs_word b)"
proof -
  from ffs_split [OF assms(1)] obtain p where p: "odd p" "unat a = 2 ^ ffs_word a * p" by blast
  from ffs_split [OF assms(2)] obtain q where q: "odd q" "unat b = 2 ^ ffs_word b * q" by blast
  define n where "n = min (ffs_word a) (ffs_word b)"
  define i where "i = ffs_word a - n"
  define j where "j = ffs_word b - n"
  have ij: "ffs_word a = n + i" "ffs_word b = n + j" "i = 0 \<or> j = 0" by (auto simp: n_def i_def j_def min_def)
  have "unat (a OR b) = unat a OR unat b" by (rule unsigned_or_eq)
  also have "\<dots> = push_bit n (2 ^ i * p) OR push_bit n (2 ^ j * q)"
    by (simp add: p q ij push_bit_eq_mult power_add algebra_simps)
  also have "\<dots> = push_bit n ((2 ^ i * p) OR (2 ^ j * q))" by (simp add: push_bit_or)
  finally have u: "unat (a OR b) = 2 ^ n * ((2 ^ i * p) OR (2 ^ j * q))"
    by (simp add: push_bit_eq_mult mult.commute)
  have "odd ((2 ^ i * p) OR (2 ^ j * q))" using ij(3) p q by (auto simp: even_or_iff)
  moreover have "a OR b \<noteq> 0" using assms(1) by (metis or_eq_0_iff)
  ultimately show ?thesis using ffs_unique [OF _ u] by (simp add: n_def)
qed

lemma gcd_drop_two:
  fixes a b :: nat
  assumes "odd b"
  shows "gcd (2 ^ k * a) b = gcd a b"
  using assms by (simp add: gcd_mult_left_left_cancel)

lemma gcd_loop_correct:
  assumes "a \<noteq> 0" and "odd (unat b)" and "r \<noteq> 0"
    and fit: "2 ^ ffs_word r * gcd (unat a) (unat b) < 2 ^ 32"
  shows "gcd_loop r a b = Some (of_nat (2 ^ ffs_word r * gcd (unat a) (unat b)))"
  using assms
proof (induction "unat a + unat b" arbitrary: a b rule: less_induct)
  case less
  define c where "c = drop_bit (ffs_word a) a"
  have c: "odd (unat c)" "unat a = 2 ^ ffs_word a * unat c"
    using ffs_drop [OF less.prems(1)] by (simp_all add: c_def)
  have cle: "unat c \<le> unat a" using c(2) by simp
  have g: "gcd (unat a) (unat b) = gcd (unat c) (unat b)"
    using gcd_drop_two [OF less.prems(2)] c(2) by metis
  have c0: "0 < unat c" using c(1) by (cases "unat c") auto
  have b0: "0 < unat b" using less.prems(2) by (cases "unat b") auto
  have unfold: "gcd_loop r a b =
     (if c = 1 then Some (r AND - r) else if c = b then Some (push_bit (ffs_word r) c)
      else if c < b then gcd_loop r (b - c) c else gcd_loop r (c - b) b)"
    by (subst gcd_loop.simps) (simp add: c_def Let_def)
  consider "c = 1" | "c \<noteq> 1" "c = b" | "c \<noteq> 1" "c \<noteq> b" "c < b" | "c \<noteq> 1" "c \<noteq> b" "b < c" by (metis linorder_neqE)
  then show ?case
  proof cases
    case 1
    then have "gcd (unat a) (unat b) = 1" by (simp add: g)
    then show ?thesis using 1 and_minus_lowest [OF less.prems(3)] by (simp add: unfold)
  next
    case 2
    then have "gcd (unat a) (unat b) = unat c" by (simp add: g)
    then show ?thesis using 2 by (simp add: unfold push_bit_eq_mult mult.commute)
  next
    case 3
    have d: "unat (b - c) = unat b - unat c" using 3 by (intro unat_sub) simp
    have lt: "unat c < unat b" using 3 by (simp add: word_less_nat_alt)
    have gg: "gcd (unat (b - c)) (unat c) = gcd (unat a) (unat b)"
      using lt d g gcd_diff1_nat [of "unat c" "unat b"] by (metis gcd.commute less_imp_le_nat)
    have "gcd_loop r (b - c) c = Some (of_nat (2 ^ ffs_word r * gcd (unat (b - c)) (unat c)))"
    proof (rule less.hyps)
      show "unat (b - c) + unat c < unat a + unat b" using d lt cle c0 by linarith
      show "b - c \<noteq> 0" using 3 by auto
      show "2 ^ ffs_word r * gcd (unat (b - c)) (unat c) < 2 ^ 32" using less.prems(4) gg by simp
    qed (use c less.prems in auto)
    with 3 gg show ?thesis by (simp add: unfold)
  next
    case 4
    have d: "unat (c - b) = unat c - unat b" using 4 by (intro unat_sub) simp
    have lt: "unat b < unat c" using 4 by (simp add: word_less_nat_alt)
    have gg: "gcd (unat (c - b)) (unat b) = gcd (unat a) (unat b)"
      using lt d g by (simp add: gcd_diff1_nat)
    have "gcd_loop r (c - b) b = Some (of_nat (2 ^ ffs_word r * gcd (unat (c - b)) (unat b)))"
    proof (rule less.hyps)
      show "unat (c - b) + unat b < unat a + unat b" using d lt cle b0 by linarith
      show "c - b \<noteq> 0" using 4 by auto
      show "2 ^ ffs_word r * gcd (unat (c - b)) (unat b) < 2 ^ 32" using less.prems(4) gg by simp
    qed (use c less.prems in auto)
    moreover have "\<not> c < b" using 4 by simp
    ultimately show ?thesis using 4 gg by (simp add: unfold)
  qed
qed

lemma gcd_split_two:
  fixes p q :: nat
  assumes "odd p" "odd q"
  shows "gcd (2 ^ i * p) (2 ^ j * q) = 2 ^ min i j * gcd p q"
proof (cases "i \<le> j")
  case True
  then obtain k where k: "j = i + k" using le_Suc_ex by blast
  have "gcd p (2 ^ k * q) = gcd p q" using gcd_drop_two [OF assms(1), of k q] by (simp add: gcd.commute)
  then show ?thesis by (simp add: k power_add mult.assoc gcd_mult_distrib_nat [symmetric])
next
  case False
  then obtain k where k: "i = j + k" using le_Suc_ex by (meson nat_le_linear)
  have "gcd (2 ^ k * p) q = gcd p q" using gcd_drop_two [OF assms(2)] .
  then show ?thesis by (simp add: k power_add mult.assoc gcd_mult_distrib_nat [symmetric])
qed

lemma gcd_ulong_eq: "gcd_ulong a b = Some (of_nat (gcd (unat a) (unat b)))"
proof (cases "a = 0 \<or> b = 0")
  case True
  then show ?thesis by (auto simp: gcd_ulong_def)
next
  case False
  define r where "r = a OR b"
  define c where "c = drop_bit (ffs_word b) b"
  define p where "p = unat (drop_bit (ffs_word a) a)"
  from False have p: "odd p" "unat a = 2 ^ ffs_word a * p" using ffs_drop [of a] by (simp_all add: p_def)
  from False have c: "odd (unat c)" "unat b = 2 ^ ffs_word b * unat c"
    using ffs_drop [of b] by (simp_all add: c_def)
  have r0: "r \<noteq> 0" using False by (auto simp: r_def or_eq_0_iff)
  have whole: "gcd (unat a) (unat b) = 2 ^ ffs_word r * gcd p (unat c)"
    unfolding p(2) c(2) gcd_split_two [OF p(1) c(1)] using False by (simp add: r_def ffs_or)
  have part: "gcd (unat a) (unat c) = gcd p (unat c)" unfolding p(2) by (rule gcd_drop_two [OF c(1)])
  have "0 < unat a" using False by (simp add: unat_gt_0)
  then have "gcd (unat a) (unat b) \<le> unat a" by (simp add: gcd_le1_nat)
  then have fit: "2 ^ ffs_word r * gcd (unat a) (unat c) < 2 ^ 32"
    using whole part unat_u32_bound [of a] by simp
  have unfold: "gcd_ulong a b = (if c = 1 then Some (r AND - r) else gcd_loop r a c)"
    using False by (simp add: gcd_ulong_def r_def c_def Let_def)
  show ?thesis
  proof (cases "c = 1")
    case True
    then show ?thesis using whole and_minus_lowest [OF r0] by (simp add: unfold)
  next
    case c1: False
    have "gcd_loop r a c = Some (of_nat (2 ^ ffs_word r * gcd (unat a) (unat c)))"
      using False by (intro gcd_loop_correct c r0 fit) simp
    then show ?thesis using c1 whole part by (simp add: unfold)
  qed
qed

section \<open>Square root\<close>

lemma sqrt_step:
  fixes s x X k :: nat
  assumes "s * s + x = X" and "X < (s + 2 * k) * (s + 2 * k)"
  shows "s * (2 * k) + k * k \<le> x \<Longrightarrow> (s + k) * (s + k) + (x - (s * (2 * k) + k * k)) = X"
    and "\<not> s * (2 * k) + k * k \<le> x \<Longrightarrow> X < (s + k) * (s + k)"
  using assms by (auto simp: algebra_simps)

text \<open>The state of the loop: \<open>s\<close> is the root found so far, \<open>k\<close> the bit tried next.\<close>

definition sqrt_state :: "nat \<Rightarrow> nat \<Rightarrow> nat \<Rightarrow> u32 \<Rightarrow> u32 \<Rightarrow> bool" where
  "sqrt_state X s k x y \<longleftrightarrow> s * s + unat x = X \<and> unat y = s * k \<and> k dvd s
     \<and> X < (s + k) * (s + k) \<and> X < 2 ^ 32"

lemma square_less: "s * s < 2 ^ 32 \<Longrightarrow> s < 2 ^ 16" for s :: nat
  by (rule ccontr) (use mult_le_mono [of "2 ^ 16" s "2 ^ 16" s] in simp)

lemma sqrt_no_overflow:
  fixes s k :: nat
  assumes "s * s < 2 ^ 32" and "2 * k dvd s" and "2 * k dvd 2 ^ 16"
  shows "s * (2 * k) + k * k < 2 ^ 32"
proof -
  have "s < 2 ^ 16" by (rule square_less [OF assms(1)])
  moreover from assms(2,3) have "2 * k dvd 2 ^ 16 - s" by (intro dvd_diff_nat)
  ultimately have le: "s + 2 * k \<le> 2 ^ 16" using dvd_imp_le [of "2 * k" "2 ^ 16 - s"] by simp
  have "s * (2 * k) + k * k \<le> (s + k) * (s + k)" by (simp add: algebra_simps)
  also have "\<dots> < 2 ^ 16 * 2 ^ 16"
  proof -
    have "0 < k" using assms(3) by (cases k) auto
    with le have "s + k < 2 ^ 16" by simp
    then show ?thesis by (intro mult_strict_mono) auto
  qed
  finally show ?thesis by simp
qed

lemma int_sqrt_step:
  fixes x y m :: u32
  assumes m: "unat m = k * k" and st: "sqrt_state X s (2 * k) x y" and k: "2 * k dvd 2 ^ 16"
  shows "if y + m \<le> x then sqrt_state X (s + k) k (x - (y + m)) (drop_bit 1 y + m)
     else sqrt_state X s k x (drop_bit 1 y)"
proof -
  from st have inv: "s * s + unat x = X" "unat y = s * (2 * k)" "2 * k dvd s"
    "X < (s + 2 * k) * (s + 2 * k)" "X < 2 ^ 32" by (auto simp: sqrt_state_def)
  have ov: "s * (2 * k) + k * k < 2 ^ 32" using inv k by (intro sqrt_no_overflow) auto
  then have b: "unat (y + m) = s * (2 * k) + k * k"
    using inv m by (subst unat_add_nowrap) auto
  have h: "unat (drop_bit 1 y) = s * k" by (simp only: unat_half inv)
  have hm: "unat (drop_bit 1 y + m) = (s + k) * k"
  proof -
    have "s * k + k * k < 2 ^ LENGTH(32)" using ov by simp
    then have "unat (drop_bit 1 y + m) = s * k + k * k" unfolding h [symmetric] m [symmetric] by (rule unat_add_nowrap)
    then show ?thesis by (simp only: distrib_right)
  qed
  have kd: "k dvd s" by (rule dvd_mult_right [OF inv(3)])
  show ?thesis
  proof (cases "y + m \<le> x")
    case True
    then have le: "s * (2 * k) + k * k \<le> unat x" using b by (simp add: word_le_nat_alt)
    have "unat (x - (y + m)) = unat x - (s * (2 * k) + k * k)" using True b by (simp add: unat_sub)
    with True hm kd sqrt_step(1) [OF inv(1,4) le] inv show ?thesis
      by (simp add: sqrt_state_def algebra_simps)
  next
    case False
    then have "\<not> s * (2 * k) + k * k \<le> unat x" using b by (simp add: word_le_nat_alt)
    with False h kd sqrt_step(2) [OF inv(1,4)] inv show ?thesis by (simp add: sqrt_state_def)
  qed
qed

definition is_isqrt :: "nat \<Rightarrow> nat \<Rightarrow> bool" where
  "is_isqrt X t \<longleftrightarrow> t * t \<le> X \<and> X < (t + 1) * (t + 1)"

lemma int_sqrt_loop_unfold:
  "m \<noteq> 0 \<Longrightarrow> int_sqrt_loop x y m =
     (if y + m \<le> x then int_sqrt_loop (x - (y + m)) (drop_bit 1 y + m) (drop_bit 2 m)
      else int_sqrt_loop x (drop_bit 1 y) (drop_bit 2 m))"
  by (subst int_sqrt_loop.simps) (simp add: Let_def)

lemma int_sqrt_loop_done: "sqrt_state X s 1 x y \<Longrightarrow> is_isqrt X (unat (int_sqrt_loop x y 0))"
  by (subst int_sqrt_loop.simps) (auto simp: sqrt_state_def is_isqrt_def)

lemma int_sqrt_loop_correct:
  assumes "unat m = 4 ^ j" and "sqrt_state X s (2 ^ (j + 1)) x y" and "j < 16"
  shows "is_isqrt X (unat (int_sqrt_loop x y m))"
  using assms
proof (induction j arbitrary: x y m s)
  case 0
  have m: "unat m = 1 * 1" using 0 by simp
  have st: "sqrt_state X s (2 * 1) x y" using "0.prems"(2) by (simp add: numeral_2_eq_2)
  have m1: "m = 1" using m by (simp add: word_unat_eq_iff)
  have m0: "drop_bit 2 m = 0" unfolding m1 by (simp add: word_unat_eq_iff unat_drop)
  show ?case
  proof (cases "y + m \<le> x")
    case True
    with int_sqrt_step [OF m st] have "sqrt_state X (s + 1) 1 (x - (y + m)) (drop_bit 1 y + m)" by simp
    from int_sqrt_loop_done [OF this] True m1 m0 show ?thesis by (subst int_sqrt_loop_unfold) simp_all
  next
    case False
    with int_sqrt_step [OF m st] have "sqrt_state X s 1 x (drop_bit 1 y)" by simp
    from int_sqrt_loop_done [OF this] False m1 m0 show ?thesis by (subst int_sqrt_loop_unfold) simp_all
  qed
next
  case (Suc j)
  define k :: nat where "k = 2 ^ (j + 1)"
  have kk: "unat m = k * k" using Suc.prems(1) by (simp add: k_def power_mult_distrib [symmetric])
  have st: "sqrt_state X s (2 * k) x y" using Suc.prems(2) by (simp add: k_def)
  have kd: "2 * k dvd 2 ^ 16" using Suc.prems(3) le_imp_power_dvd [of "j + 2" 16 "2 :: nat"]
    by (simp add: k_def)
  have m4: "unat (drop_bit 2 m) = 4 ^ j" using Suc.prems(1) by (simp only: unat_drop) simp
  have m0: "m \<noteq> 0" using Suc.prems(1) by auto
  have j: "j < 16" using Suc.prems(3) by simp
  note IH = Suc.IH [OF m4 _ j, folded k_def]
  show ?case
  proof (cases "y + m \<le> x")
    case True
    with int_sqrt_step [OF kk st kd] IH m0 show ?thesis by (subst int_sqrt_loop_unfold) simp_all
  next
    case False
    with int_sqrt_step [OF kk st kd] IH m0 show ?thesis by (subst int_sqrt_loop_unfold) simp_all
  qed
qed

lemma int_sqrt_is_isqrt: "is_isqrt (unat x) (unat (int_sqrt x))"
proof (cases "x \<le> 1")
  case True
  then have "unat x \<le> 1" by (simp add: word_le_nat_alt)
  then have "unat x = 0 \<or> unat x = 1" by linarith
  with True show ?thesis by (auto simp: int_sqrt_def is_isqrt_def)
next
  case False
  define n where "n = fls_word x - 1"
  define e where "e = unat (of_nat n AND NOT (1 :: u32))"
  have x0: "x \<noteq> 0" using False by auto
  have n32: "n < 32" using fls_le_length [of x] fls_pos [OF x0] by (simp add: n_def)
  have "e = n div 2 * 2"
  proof -
    have "unat (of_nat n :: u32) = n" using n32 by (intro unat_of_nat_small) simp
    then show ?thesis using unat_and_not_mask [of 1 "of_nat n :: u32"] by (simp add: e_def mask_eq_exp_minus_1)
  qed
  then obtain j where j: "e = 2 * j" "j = n div 2" by auto
  have j16: "j < 16" using n32 j by simp
  define m :: u32 where "m = push_bit e 1"
  have m: "unat m = 4 ^ j"
  proof -
    have "e < 32" using j j16 by simp
    then have "unat m = 2 ^ e" using unat_exp [of e, where 'a = 32] by (simp add: m_def push_bit_eq_mult)
    then show ?thesis by (simp add: j power_mult)
  qed
  have "unat x < 2 ^ (n + 1)" using fls_upper [of x] fls_pos [OF x0] by (simp add: n_def)
  also have "(2 :: nat) ^ (n + 1) \<le> 2 ^ (2 * j + 2)" using j by (intro power_increasing) simp_all
  also have "\<dots> = (2 ^ (j + 1)) * (2 ^ (j + 1))" by (simp flip: power_add mult_2)
  finally have "sqrt_state (unat x) 0 (2 ^ (j + 1)) x 0"
    using unat_u32_bound [of x] by (simp add: sqrt_state_def)
  from int_sqrt_loop_correct [OF m this j16]
  have "is_isqrt (unat x) (unat (int_sqrt_loop x 0 m))" .
  moreover have "int_sqrt x = int_sqrt_loop x 0 m" using False by (simp add: int_sqrt_def m_def e_def n_def)
  ultimately show ?thesis by simp
qed
section \<open>Division\<close>

lemma unat_ucast_down: "unat (ucast (x :: u64) :: u32) = unat x mod 2 ^ 32"
  by (simp add: unsigned_ucast_eq take_bit_eq_mod)

lemma unat_ucast_up: "unat (ucast (x :: u32) :: u64) = unat x"
proof -
  have "unat x < 2 ^ 64" using unat_u32_bound [of x] by simp
  then show ?thesis by (simp add: unsigned_ucast_eq take_bit_eq_mod)
qed

lemma unat_lo32: "unat (lo32 n) = unat n mod 2 ^ 32"
  by (simp only: lo32_def unat_ucast_down)

lemma unat_hi32: "unat (hi32 n) = unat n div 2 ^ 32"
proof -
  have "unat n div 2 ^ 32 < 2 ^ 32" using unat_u64_bound [of n] by (simp add: div_less_iff_less_mult)
  then show ?thesis by (simp only: hi32_def unat_ucast_down unat_drop) simp
qed

lemma unat_join64: "unat (join64 hi lo) = unat hi * 2 ^ 32 + unat lo"
proof -
  have "unat (join64 hi lo) = unat (push_bit 32 (ucast hi) :: u64) OR unat (ucast lo :: u64)"
    unfolding join64_def by (rule unsigned_or_eq)
  also have "unat (push_bit 32 (ucast hi) :: u64) = push_bit 32 (unat hi)"
    unfolding unsigned_push_bit_eq unat_ucast_up
    using unat_u32_bound [of hi] by (simp add: take_bit_eq_mod push_bit_eq_mult)
  also have "unat (ucast lo :: u64) = unat lo" by (rule unat_ucast_up)
  also have "push_bit 32 (unat hi) OR unat lo = push_bit 32 (unat hi) + unat lo"
  proof (rule disjunctive_add_eq_or [symmetric], rule bit_eqI)
    fix i
    have "\<not> bit (unat lo) i" if "32 \<le> i"
    proof -
      have "unat lo < 2 ^ i"
        using that unat_u32_bound [of lo] power_increasing [of 32 i "2 :: nat"] by simp
      then show ?thesis by (simp add: bit_iff_odd)
    qed
    then show "bit (push_bit 32 (unat hi) AND unat lo) i = bit 0 i"
      by (auto simp: bit_and_iff bit_push_bit_iff)
  qed
  finally show ?thesis by (simp add: push_bit_eq_mult)
qed

lemma div_split_high:
  fixes d H L :: nat
  assumes "0 < d"
  shows "(H * B + L) div d = H div d * B + ((H mod d) * B + L) div d"
    and "(H * B + L) mod d = ((H mod d) * B + L) mod d"
proof -
  have eq: "H * B + L = d * (H div d * B) + ((H mod d) * B + L)"
    by (metis add.assoc add_mult_distrib mult.assoc mult_div_mod_eq)
  show "(H * B + L) div d = H div d * B + ((H mod d) * B + L) div d"
    unfolding eq using assms by (intro div_mult_self4) simp
  show "(H * B + L) mod d = ((H mod d) * B + L) mod d"
    unfolding eq by (rule mod_mult_self4)
qed

lemma high_quotient_fits:
  fixes d u L :: nat
  assumes "u < d" and "L < B"
  shows "(u * B + L) div d < B"
proof -
  have "u * B + L < Suc u * B" using assms(2) by simp
  also have "\<dots> \<le> d * B" using assms(1) by (intro mult_le_mono1) simp
  finally show ?thesis using assms(1) by (simp add: div_less_iff_less_mult mult.commute)
qed

lemma divl_correct:
  assumes "upper < divisor"
  shows "\<exists>q r. divl upper low divisor = Ok (q, r)
     \<and> unat q = (unat upper * 2 ^ 32 + unat low) div unat divisor
     \<and> unat r = (unat upper * 2 ^ 32 + unat low) mod unat divisor"
proof -
  let ?n = "unat upper * 2 ^ 32 + unat low"
  have lt: "unat upper < unat divisor" using assms by (simp add: word_less_nat_alt)
  then have "?n div unat divisor < 2 ^ 32"
    using unat_u32_bound [of low] by (intro high_quotient_fits) simp_all
  then have q: "unat (of_nat (?n div unat divisor) :: u32) = ?n div unat divisor"
    by (intro unat_of_nat_small) simp
  have "?n mod unat divisor < unat divisor" using lt by simp
  then have "?n mod unat divisor < 2 ^ 32" using unat_u32_bound [of divisor] by simp
  then have r: "unat (of_nat (?n mod unat divisor) :: u32) = ?n mod unat divisor"
    by (intro unat_of_nat_small) simp
  have "divisor \<noteq> 0" "\<not> divisor \<le> upper" using assms by auto
  with q r show ?thesis by (simp add: divl_def Let_def del: unat_of_nat)
qed

lemma div_u64_rem_correct:
  assumes "divisor \<noteq> 0"
  shows "\<exists>q r. div_u64_rem n divisor = Ok (q, r)
     \<and> unat q = unat n div unat divisor \<and> unat r = unat n mod unat divisor"
proof -
  let ?H = "hi32 n" and ?d = "unat divisor"
  have d0: "0 < ?d" using assms by (simp add: unat_gt_0)
  have n: "unat n = unat ?H * 2 ^ 32 + unat (lo32 n)" by (simp only: unat_hi32 unat_lo32 div_mult_mod_eq)
  define hi where "hi = (if divisor \<le> ?H then ?H div divisor else 0)"
  define upper where "upper = (if divisor \<le> ?H then ?H mod divisor else ?H)"
  have hi: "unat hi = unat ?H div ?d" by (auto simp: hi_def unat_div word_le_nat_alt)
  have up: "unat upper = unat ?H mod ?d" by (auto simp: upper_def unat_mod word_le_nat_alt)
  have "upper < divisor" unfolding word_less_nat_alt up using d0 by simp
  from divl_correct [OF this, of "lo32 n"] obtain q r where qr: "divl upper (lo32 n) divisor = Ok (q, r)"
    "unat q = (unat upper * 2 ^ 32 + unat (lo32 n)) div ?d"
    "unat r = (unat upper * 2 ^ 32 + unat (lo32 n)) mod ?d" by blast
  have "div_u64_rem n divisor = Ok (join64 hi q, r)"
    using qr(1) by (simp add: div_u64_rem_def Let_def hi_def upper_def split: if_splits)
  moreover have "unat (join64 hi q) = unat n div ?d"
    unfolding n unat_join64 hi qr(2) up by (rule div_split_high(1) [OF d0, symmetric])
  moreover have "unat r = unat n mod ?d"
    unfolding n qr(3) up by (rule div_split_high(2) [OF d0, symmetric])
  ultimately show ?thesis by blast
qed

lemma do_div_correct:
  assumes "base \<noteq> 0"
  shows "\<exists>q r. do_div n base = Ok (q, r) \<and> unat q = unat n div unat base \<and> unat r = unat n mod unat base"
proof -
  let ?H = "hi32 n" and ?d = "unat base"
  have d0: "0 < ?d" using assms by (simp add: unat_gt_0)
  have n: "unat n = unat ?H * 2 ^ 32 + unat (lo32 n)" by (simp only: unat_hi32 unat_lo32 div_mult_mod_eq)
  define hi where "hi = (if ?H \<noteq> 0 then ?H div base else ?H)"
  define upper where "upper = (if ?H \<noteq> 0 then ?H mod base else ?H)"
  have hi: "unat hi = unat ?H div ?d" by (auto simp: hi_def unat_div)
  have up: "unat upper = unat ?H mod ?d" by (auto simp: upper_def unat_mod)
  have "upper < base" unfolding word_less_nat_alt up using d0 by simp
  from divl_correct [OF this, of "lo32 n"] obtain q r where qr: "divl upper (lo32 n) base = Ok (q, r)"
    "unat q = (unat upper * 2 ^ 32 + unat (lo32 n)) div ?d"
    "unat r = (unat upper * 2 ^ 32 + unat (lo32 n)) mod ?d" by blast
  have "do_div n base = Ok (join64 hi q, r)"
    using qr(1) assms by (simp add: do_div_def Let_def hi_def upper_def split: if_splits)
  moreover have "unat (join64 hi q) = unat n div ?d"
    unfolding n unat_join64 hi qr(2) up by (rule div_split_high(1) [OF d0, symmetric])
  moreover have "unat r = unat n mod ?d"
    unfolding n qr(3) up by (rule div_split_high(2) [OF d0, symmetric])
  ultimately show ?thesis by blast
qed

text \<open>Shifting both operands so that the divisor fits 32 bits overestimates the quotient by at most 1.\<close>

lemma shifted_quotient:
  fixes D V n :: nat
  assumes n: "0 < n" and V: "2 ^ (31 + n) \<le> V" and D: "D < 2 ^ 64"
  defines "q \<equiv> (D div 2 ^ n) div (V div 2 ^ n)"
  shows "D div V \<le> q" and "q \<le> D div V + 1"
proof -
  let ?v = "V div 2 ^ n"
  have V0: "0 < V" using V by (metis gr0I le_zero_eq power_eq_0_iff zero_neq_numeral)
  have "2 ^ 31 * 2 ^ n \<le> V" using V by (simp add: power_add)
  then have v: "2 ^ 31 \<le> ?v" by (simp add: less_eq_div_iff_mult_less_eq)
  have q: "q = D div (2 ^ n * ?v)" by (simp add: q_def div_mult2_eq)
  have le: "2 ^ n * ?v \<le> V" by simp
  show "D div V \<le> q" unfolding q using v le by (intro div_le_mono2) auto
  have "(q - 1) * V \<le> D"
  proof (cases "q = 0")
    case False
    define p where "p = q - 1"
    have p: "q = p + 1" using False by (simp add: p_def)
    have Vle: "V \<le> 2 ^ n * ?v + (2 ^ n - 1)"
    proof -
      have "V mod 2 ^ n < 2 ^ n" by simp
      with mult_div_mod_eq [of "2 ^ n" V] show ?thesis by linarith
    qed
    have qv: "q * (2 ^ n * ?v) \<le> D" unfolding q by (rule div_times_less_eq_dividend)
    have "q * 2 ^ n * 2 ^ 31 \<le> q * 2 ^ n * ?v" using v by (rule mult_le_mono2)
    also have "\<dots> < 2 ^ 64" using qv D by (simp add: mult.assoc)
    finally have pb: "p * 2 ^ n < 2 ^ 33"
      using p by (simp add: algebra_simps)
    have small: "p * (2 ^ n - 1) \<le> 2 ^ n * ?v"
    proof (cases "n = 1")
      case True
      then show ?thesis using pb v by simp
    next
      case False
      with n have "2 \<le> n" by simp
      then have "(2 :: nat) ^ 2 \<le> 2 ^ n" by (rule power_increasing) simp
      then have "2 ^ 33 \<le> 2 ^ n * ?v" using mult_le_mono [OF _ v, of "2 ^ 2"] by simp
      moreover have "p * (2 ^ n - 1) \<le> p * 2 ^ n" by simp
      ultimately show ?thesis using pb by linarith
    qed
    have "p * V \<le> p * (2 ^ n * ?v + (2 ^ n - 1))" by (rule mult_le_mono2 [OF Vle])
    also have "\<dots> = p * (2 ^ n * ?v) + p * (2 ^ n - 1)" by (rule distrib_left)
    also have "\<dots> \<le> p * (2 ^ n * ?v) + 2 ^ n * ?v" using small by simp
    also have "\<dots> = q * (2 ^ n * ?v)" by (simp add: p)
    finally show ?thesis using qv by (simp add: p)
  qed simp
  then have "q - 1 \<le> D div V" using V0 by (simp add: less_eq_div_iff_mult_less_eq)
  then show "q \<le> D div V + 1" by simp
qed

lemma unat_mult_nowrap:
  fixes a b :: "'a::len word"
  assumes "unat a * unat b < 2 ^ LENGTH('a)"
  shows "unat (a * b) = unat a * unat b"
  using assms unat_mult_lem by blast

lemma high_divisor:
  fixes divisor :: u64
  assumes "hi32 divisor \<noteq> 0" and "n = fls_word (hi32 divisor)"
  shows "0 < n" and "2 ^ (31 + n) \<le> unat divisor"
    and "unat (lo32 (drop_bit n divisor)) = unat divisor div 2 ^ n"
proof -
  show n: "0 < n" using fls_pos [OF assms(1)] assms(2) by simp
  have H: "2 ^ (n - 1) \<le> unat (hi32 divisor)" "unat (hi32 divisor) < 2 ^ n"
    using fls_lower [OF assms(1)] fls_upper [of "hi32 divisor"] assms(2) by simp_all
  have split: "unat divisor = unat (hi32 divisor) * 2 ^ 32 + unat (lo32 divisor)"
    by (simp only: unat_hi32 unat_lo32 div_mult_mod_eq)
  have "2 ^ (n - 1) * 2 ^ 32 \<le> unat divisor" using H(1) split by (simp add: trans_le_add1)
  then show "2 ^ (31 + n) \<le> unat divisor" using n by (cases n) (simp_all add: power_add)
  have "unat divisor < Suc (unat (hi32 divisor)) * 2 ^ 32"
    using split unat_u32_bound [of "lo32 divisor"] by simp
  also have "\<dots> \<le> 2 ^ n * 2 ^ 32" using H(2) by (intro mult_le_mono1) simp
  finally have "unat divisor div 2 ^ n < 2 ^ 32" by (simp add: div_less_iff_less_mult mult.commute)
  then show "unat (lo32 (drop_bit n divisor)) = unat divisor div 2 ^ n"
    by (simp only: unat_lo32 unat_drop) simp
qed

text \<open>The common part of \<open>div64_u64_rem\<close> and \<open>div64_u64\<close> for a divisor of more than 32 bits.\<close>

lemma div64_estimate:
  fixes dividend divisor :: u64
  assumes hi: "hi32 divisor \<noteq> 0" and n: "n = fls_word (hi32 divisor)"
  obtains quot where "div_u64 (drop_bit n dividend) (lo32 (drop_bit n divisor)) = Ok quot"
    and "let q = (if quot \<noteq> 0 then quot - 1 else quot); D = unat dividend; V = unat divisor
         in unat (dividend - q * divisor) = D - unat q * V \<and> unat q * V \<le> D
            \<and> (unat q = D div V \<or> unat q + 1 = D div V)"
proof -
  let ?D = "unat dividend" and ?V = "unat divisor"
  note h = high_divisor [OF hi n]
  have v0: "lo32 (drop_bit n divisor) \<noteq> 0"
  proof -
    have "2 ^ 31 * 2 ^ n \<le> ?V" using h(2) by (simp add: power_add)
    then have "2 ^ 31 \<le> ?V div 2 ^ n" by (simp add: less_eq_div_iff_mult_less_eq)
    then have "unat (lo32 (drop_bit n divisor)) \<noteq> 0" using h(3) by simp
    then show ?thesis by auto
  qed
  from div_u64_rem_correct [OF v0, of "drop_bit n dividend"] obtain quot r where
    q: "div_u64_rem (drop_bit n dividend) (lo32 (drop_bit n divisor)) = Ok (quot, r)"
    "unat quot = (?D div 2 ^ n) div (?V div 2 ^ n)"
    by (auto simp: unat_drop h(3))
  define q' where "q' = (if quot \<noteq> 0 then quot - 1 else quot)"
  have q': "unat q' = unat quot - 1" by (auto simp: q'_def unat_minus_one)
  note est = shifted_quotient [OF h(1,2), of ?D, folded q(2)]
  have D64: "?D < 2 ^ 64" using unat_u64_bound [of dividend] by simp
  have cases: "unat q' = ?D div ?V \<or> unat q' + 1 = ?D div ?V"
    using est [OF D64] q' by (cases "unat quot") auto
  then have "unat q' \<le> ?D div ?V" by linarith
  then have le: "unat q' * ?V \<le> ?D" by (meson div_times_less_eq_dividend le_trans mult_le_mono1)
  then have m: "unat (q' * divisor) = unat q' * ?V" using D64 by (intro unat_mult_nowrap) simp
  have "unat (dividend - q' * divisor) = ?D - unat q' * ?V"
    using le m by (simp add: unat_sub word_le_nat_alt)
  then show thesis using that [of quot] q cases le by (simp add: div_u64_def Let_def q'_def)
qed

lemma quotient_fix:
  fixes q D V :: nat
  assumes "q = D div V \<or> q + 1 = D div V" and "0 < V"
  shows "V \<le> D - q * V \<Longrightarrow> q + 1 = D div V \<and> D - q * V - V = D mod V"
    and "\<not> V \<le> D - q * V \<Longrightarrow> q = D div V \<and> D - q * V = D mod V"
proof -
  have d: "D = D div V * V + D mod V" and r: "D mod V < V" using assms(2) by simp_all
  show "q + 1 = D div V \<and> D - q * V - V = D mod V" if "V \<le> D - q * V"
  proof -
    have "q \<noteq> D div V" using that d r by (metis add_diff_cancel_left' not_le)
    with assms(1) have q: "D div V = q + 1" by simp
    with d have "D = q * V + V + D mod V" by simp
    with q show ?thesis by simp
  qed
  show "q = D div V \<and> D - q * V = D mod V" if "\<not> V \<le> D - q * V"
  proof -
    have "q + 1 \<noteq> D div V"
    proof
      assume q: "q + 1 = D div V"
      with d have "D = q * V + V + D mod V" by (metis add_mult_distrib nat_mult_1)
      with that show False by simp
    qed
    with assms(1) have q: "q = D div V" by simp
    with d show ?thesis by (metis add_diff_cancel_left')
  qed
qed

lemma div64_u64_rem_eq:
  assumes "divisor \<noteq> 0"
  shows "\<exists>q r. div64_u64_rem dividend divisor = Ok (q, r) \<and> div64_u64 dividend divisor = Ok q
     \<and> unat q = unat dividend div unat divisor \<and> unat r = unat dividend mod unat divisor"
proof (cases "hi32 divisor = 0")
  case True
  then have "unat divisor div 2 ^ 32 = 0" by (metis unat_0 unat_hi32)
  then have d: "unat (lo32 divisor) = unat divisor" by (simp add: unat_lo32)
  with assms have "lo32 divisor \<noteq> 0" by (metis unat_0 unat_0_iff)
  from div_u64_rem_correct [OF this, of dividend] True d show ?thesis
    by (auto simp: div64_u64_rem_def div64_u64_def div_u64_def Let_def unat_ucast_up)
next
  case False
  let ?D = "unat dividend" and ?V = "unat divisor"
  from div64_estimate [OF False refl, of dividend] obtain quot where
    e: "div_u64 (drop_bit (fls_word (hi32 divisor)) dividend) (lo32 (drop_bit (fls_word (hi32 divisor)) divisor)) = Ok quot"
    and est: "let q = (if quot \<noteq> 0 then quot - 1 else quot); D = unat dividend; V = unat divisor
         in unat (dividend - q * divisor) = D - unat q * V \<and> unat q * V \<le> D
            \<and> (unat q = D div V \<or> unat q + 1 = D div V)" by blast
  define q where "q = (if quot \<noteq> 0 then quot - 1 else quot)"
  from est have rm: "unat (dividend - q * divisor) = ?D - unat q * ?V"
    and c: "unat q = ?D div ?V \<or> unat q + 1 = ?D div ?V" by (simp_all add: q_def Let_def)
  have V0: "0 < ?V" using assms by (simp add: unat_gt_0)
  have rem: "div64_u64_rem dividend divisor = (if divisor \<le> dividend - q * divisor
      then Ok (q + 1, dividend - q * divisor - divisor) else Ok (q, dividend - q * divisor))"
    using False e by (simp add: div64_u64_rem_def Let_def q_def)
  have quo: "div64_u64 dividend divisor = (if divisor \<le> dividend - q * divisor then Ok (q + 1) else Ok q)"
    using False e by (simp add: div64_u64_def Let_def q_def)
  show ?thesis
  proof (cases "divisor \<le> dividend - q * divisor")
    case True
    then have V: "?V \<le> ?D - unat q * ?V" using rm by (simp add: word_le_nat_alt)
    note f = quotient_fix(1) [OF c V0 V]
    have "unat q + 1 \<le> ?D" using f by (metis div_le_dividend)
    then have "unat (q + 1) = unat q + 1"
      using unat_u64_bound [of dividend] by (subst unat_add_nowrap) simp_all
    moreover have "unat (dividend - q * divisor - divisor) = ?D - unat q * ?V - ?V"
      using True rm by (simp add: unat_sub)
    ultimately show ?thesis using True f rem quo by auto
  next
    case nle: False
    then have V: "\<not> ?V \<le> ?D - unat q * ?V" using rm by (simp add: word_le_nat_alt)
    from quotient_fix(2) [OF c V0 V] nle rem quo rm show ?thesis by auto
  qed
qed
subsection \<open>The shift-and-subtract division\<close>

lemma div64_scale_correct:
  fixes b d rem :: u64
  assumes "unat b = B * 2 ^ k" and "unat d = 2 ^ k" and "0 < B"
  shows "\<exists>b' d' k'. div64_scale b d rem = (b', d') \<and> unat b' = B * 2 ^ k' \<and> unat d' = 2 ^ k'
     \<and> unat rem < 2 * unat b'"
  using assms
proof (induction b d rem arbitrary: k rule: div64_scale.induct)
  case (1 b d rem)
  show ?case
  proof (cases "0 < sint b \<and> b < rem")
    case True
    then have b63: "unat b < 2 ^ 63" using sint_pos [of b] by simp
    have "2 ^ k \<le> B * 2 ^ k" using "1.prems"(3) by simp
    then have "unat d \<le> unat b" using "1.prems" by simp
    with b63 have d2: "unat (d + d) = 2 ^ Suc k" using "1.prems"(2) by (subst unat_add_nowrap) simp_all
    have b2: "unat (b + b) = B * 2 ^ Suc k" using b63 "1.prems"(1) by (subst unat_add_nowrap) simp_all
    from "1.IH" [OF True b2 d2 "1.prems"(3)] True show ?thesis
      by (simp add: div64_scale.simps [of b d rem])
  next
    case False
    have "0 < unat b" using "1.prems" by simp
    have "unat rem < 2 * unat b"
    proof (cases "b < rem")
      case True
      with False have "sint b \<le> 0" by simp
      then have "2 ^ 63 \<le> unat b"
        using \<open>0 < unat b\<close> by (subst (asm) sint_unat) (auto simp del: of_nat_unat split: if_splits)
      then show ?thesis using unat_u64_bound [of rem] by simp
    next
      case nlt: False
      with \<open>0 < unat b\<close> show ?thesis unfolding word_less_nat_alt by linarith
    qed
    with False "1.prems" show ?thesis by (auto simp: div64_scale.simps [of b d rem])
  qed
qed

lemma div64_subtract_step:
  fixes b d rem res :: u64
  assumes b: "unat b = B * 2 ^ k" and d: "unat d = 2 ^ k" and lt: "unat rem < 2 * unat b"
    and N: "N = unat res * B + unat rem" "N < 2 ^ 64" and B: "0 < B"
  obtains rem1 res1 where "(if rem \<ge> b then (rem - b, res + d) else (rem, res)) = (rem1, res1)"
    and "N = unat res1 * B + unat rem1" and "unat rem1 < unat b"
proof (cases "b \<le> rem")
  case True
  then have le: "unat b \<le> unat rem" by (simp add: word_le_nat_alt)
  have r: "unat (rem - b) = unat rem - unat b" using True by (rule unat_sub)
  have eq: "N = (unat res + 2 ^ k) * B + (unat rem - unat b)"
    using N le b by (simp add: algebra_simps)
  have "unat res + 2 ^ k \<le> (unat res + 2 ^ k) * B" using B by simp
  then have "unat res + 2 ^ k < 2 ^ 64" using eq N(2) by linarith
  then have "unat res + unat d < 2 ^ LENGTH(64)" using d by simp
  then have "unat (res + d) = unat res + 2 ^ k" using d by (simp add: unat_add_nowrap)
  with True eq r lt le show thesis by (intro that [of "rem - b" "res + d"]) simp_all
next
  case False
  with N show thesis by (intro that [of rem res]) (simp_all add: word_le_nat_alt)
qed

lemma div64_subtract_correct:
  fixes b d rem res :: u64
  assumes "unat b = B * 2 ^ k" and "unat d = 2 ^ k" and "unat rem < 2 * unat b"
    and "N = unat res * B + unat rem" and "N < 2 ^ 64" and "0 < B"
  shows "\<exists>res' rem'. div64_subtract b d rem res = (res', rem')
     \<and> N = unat res' * B + unat rem' \<and> unat rem' < B"
  using assms
proof (induction k arbitrary: b d rem res)
  case 0
  from div64_subtract_step [OF "0.prems"] obtain rem1 res1 where
    s: "(if rem \<ge> b then (rem - b, res + d) else (rem, res)) = (rem1, res1)"
    "N = unat res1 * B + unat rem1" "unat rem1 < unat b" by blast
  have "drop_bit 1 d = 0" using "0.prems"(2) by (simp add: word_unat_eq_iff unat_half del: One_nat_def)
  then have "div64_subtract b d rem res = (res1, rem1)"
    by (subst div64_subtract.simps) (simp only: s(1) Let_def prod.case simp_thms if_False)
  with s "0.prems"(1) show ?case by simp
next
  case (Suc k)
  from div64_subtract_step [OF Suc.prems] obtain rem1 res1 where
    s: "(if rem \<ge> b then (rem - b, res + d) else (rem, res)) = (rem1, res1)"
    "N = unat res1 * B + unat rem1" "unat rem1 < unat b" by blast
  have d: "unat (drop_bit 1 d) = 2 ^ k" using Suc.prems(2) by (simp only: unat_half) simp
  have b: "unat (drop_bit 1 b) = B * 2 ^ k" using Suc.prems(1) by (simp only: unat_half) simp
  have "drop_bit 1 d \<noteq> 0" using d by (metis power_not_zero unat_0 zero_neq_numeral)
  then have "div64_subtract b d rem res = div64_subtract (drop_bit 1 b) (drop_bit 1 d) rem1 res1"
    by (subst div64_subtract.simps) (simp only: s(1) Let_def prod.case simp_thms if_True)
  moreover have "unat rem1 < 2 * unat (drop_bit 1 b)" using s(3) b Suc.prems(1) by simp
  ultimately show ?case using Suc.IH [OF b d _ s(2) Suc.prems(5,6)] by simp
qed

lemma div64_32_eq:
  assumes "base \<noteq> 0"
  shows "\<exists>q r. div64_32 n base = Ok (q, r) \<and> unat q = unat n div unat base \<and> unat r = unat n mod unat base"
proof -
  let ?H = "hi32 n" and ?B = "unat base"
  have B: "0 < ?B" using assms by (simp add: unat_gt_0)
  have n: "unat n = unat ?H * 2 ^ 32 + unat (lo32 n)" by (simp only: unat_hi32 unat_lo32 div_mult_mod_eq)
  define st where "st = (if base \<le> ?H then (push_bit 32 (ucast (?H div base)),
      n - push_bit 32 (ucast (?H div base * base))) else (0, n) :: u64 \<times> u64)"
  obtain res rem where st': "st = (res, rem)" by fastforce
  have sh: "unat (push_bit 32 (ucast w) :: u64) = unat w * 2 ^ 32" for w :: u32
    using unat_join64 [of w 0] by (simp add: join64_def)
  have N: "unat n = unat res * ?B + unat rem"
  proof (cases "base \<le> ?H")
    case True
    have p: "unat (?H div base * base) = unat ?H div ?B * ?B"
      using unat_u32_bound [of ?H] by (subst unat_mult_nowrap) (simp_all add: unat_div order_le_less_trans [OF div_times_less_eq_dividend])
    have le: "unat ?H div ?B * ?B * 2 ^ 32 \<le> unat n" unfolding n by (simp add: trans_le_add1)
    have "unat rem = unat n - unat ?H div ?B * ?B * 2 ^ 32"
      using True st' le by (auto simp: st_def unat_sub word_le_nat_alt sh p)
    moreover have "unat res = unat ?H div ?B * 2 ^ 32" using True st' by (auto simp: st_def sh unat_div)
    ultimately show ?thesis using le by (simp add: mult.commute mult.left_commute)
  next
    case False
    then show ?thesis using st' by (auto simp: st_def)
  qed
  have b: "unat (ucast base :: u64) = ?B * 2 ^ 0" by (simp add: unat_ucast_up)
  have "unat (1 :: u64) = 2 ^ 0" by simp
  from div64_scale_correct [OF b this B, of rem] obtain b' d' k where
    sc: "div64_scale (ucast base) 1 rem = (b', d')" "unat b' = ?B * 2 ^ k" "unat d' = 2 ^ k"
      "unat rem < 2 * unat b'" by blast
  have "unat n < 2 ^ 64" using unat_u64_bound [of n] by simp
  from div64_subtract_correct [OF sc(2,3,4) N this B] obtain res' rem' where
    sub: "div64_subtract b' d' rem res = (res', rem')" "unat n = unat res' * ?B + unat rem'"
      "unat rem' < ?B" by blast
  have "div64_32 n base = Ok (res', ucast rem')"
    using assms sc(1) sub(1) st' unfolding div64_32_def Let_def st_def [symmetric]
    by (simp add: st_def [symmetric])
  moreover have "unat res' = unat n div ?B" and "unat rem' = unat n mod ?B" using sub B by simp_all
  moreover have "unat (ucast rem' :: u32) = unat rem'"
    using sub(3) unat_u32_bound [of base] by (simp add: unat_ucast_down)
  ultimately show ?thesis by simp
qed

section \<open>Division by a reciprocal\<close>

text \<open>The multiplier \<open>2\<^sup>3\<^sup>2 + m\<close> stands for \<open>2\<^sup>3\<^sup>2\<^sup>+\<^sup>l / d\<close> closely enough for every 32-bit dividend.\<close>

lemma reciprocal_estimate:
  fixes a d l M :: nat
  assumes d: "0 < d" and lo: "2 ^ (32 + l) < M * d" and hi: "M * d \<le> 2 ^ (32 + l) + 2 ^ l"
    and a: "a < 2 ^ 32"
  shows "M * a div 2 ^ (32 + l) = a div d"
proof (rule div_nat_eqI)
  let ?q = "a div d" and ?P = "(2 :: nat) ^ (32 + l)"
  have q: "?q * d \<le> a" "a < (?q + 1) * d"
    using d by (simp_all add: dividend_less_div_times)
  have "?P * ?q * d \<le> ?P * a" using q(1) by (simp add: mult.assoc)
  also have "?P * a \<le> M * d * a" using lo by (intro mult_le_mono1) simp
  finally have "?P * ?q * d \<le> M * a * d" by (simp add: algebra_simps)
  then show "?P * ?q \<le> M * a" using d by simp
  have "M * a * d \<le> (?P + 2 ^ l) * a" using mult_le_mono1 [OF hi, of a] by (simp add: algebra_simps)
  also have "\<dots> < ?P * (?q + 1) * d"
  proof -
    have "a + 1 \<le> (?q + 1) * d" using q(2) by simp
    then have "?P * (a + 1) \<le> ?P * ((?q + 1) * d)" by (rule mult_le_mono2)
    moreover have "2 ^ l * a < ?P" using a by (simp add: power_add)
    ultimately show ?thesis by (simp add: algebra_simps)
  qed
  finally have "M * a * d < ?P * (?q + 1) * d" .
  then show "M * a < ?P * Suc ?q" using d by simp
qed

lemma halving_sum:
  fixes a t l :: nat
  assumes "t \<le> a" and "0 < l"
  shows "(t + (a - t) div 2) div 2 ^ (l - 1) = (a + t) div 2 ^ l"
proof -
  obtain j where j: "l = Suc j" using assms(2) by (cases l) auto
  have "t + (a - t) div 2 = (a + t) div 2" using assms(1) by presburger
  then show ?thesis by (simp add: j div_mult2_eq)
qed

lemma reciprocal_multiplier:
  fixes D l q :: nat
  assumes "2 ^ (l - 1) < D" and "D \<le> 2 ^ l" and "0 < l" and "D < 2 ^ 32"
    and q: "q = 2 ^ 32 * (2 ^ l - D) div D"
  shows "q + 1 < 2 ^ 32" and "2 ^ (32 + l) < (2 ^ 32 + (q + 1)) * D"
    and "(2 ^ 32 + (q + 1)) * D \<le> 2 ^ (32 + l) + 2 ^ l"
proof -
  define r where "r = 2 ^ 32 * (2 ^ l - D) mod D"
  have r: "q * D + r = 2 ^ 32 * (2 ^ l - D)" by (simp add: q r_def)
  have rD: "r < D" using assms(1) by (simp add: r_def)
  have pl: "(2 :: nat) ^ l = 2 * 2 ^ (l - 1)" using assms(3) by (cases l) simp_all
  have "2 ^ l - D \<le> D - 1" using assms(1) pl by linarith
  then have "2 ^ 32 * (2 ^ l - D) \<le> 2 ^ 32 * (D - 1)" by (rule mult_le_mono2)
  then have qD: "q * D \<le> 2 ^ 32 * D - 2 ^ 32" using r by (simp add: diff_mult_distrib2)
  show "q + 1 < 2 ^ 32"
  proof (rule ccontr)
    assume "\<not> q + 1 < 2 ^ 32"
    then have "2 ^ 32 - 1 \<le> q" by simp
    then have "(2 ^ 32 - 1) * D \<le> q * D" by (rule mult_le_mono1)
    then have "(2 ^ 32 - 1) * D \<le> 2 ^ 32 * D - 2 ^ 32" using qD by linarith
    moreover have "0 < D" using assms(1) by simp
    ultimately show False using assms(4) by simp
  qed
  have "2 ^ 32 * (2 ^ l - D) = 2 ^ (32 + l) - 2 ^ 32 * D"
    by (simp add: diff_mult_distrib2 power_add)
  moreover have "2 ^ 32 * D \<le> 2 ^ (32 + l)" using assms(2) by (simp add: power_add)
  ultimately have "2 ^ 32 * D + q * D + r = 2 ^ (32 + l)" using r by linarith
  moreover have "(2 ^ 32 + (q + 1)) * D = 2 ^ 32 * D + q * D + D" by (simp add: algebra_simps)
  ultimately show "2 ^ (32 + l) < (2 ^ 32 + (q + 1)) * D"
    and "(2 ^ 32 + (q + 1)) * D \<le> 2 ^ (32 + l) + 2 ^ l" using rD assms(2) by linarith+
qed

lemma reciprocal_divide_steps:
  assumes "unat (rv_m R) = m" and "unat (rv_sh1 R) = 1" and "unat (rv_sh2 R) = l - 1" and "0 < l"
  shows "unat (reciprocal_divide a R) = (2 ^ 32 + m) * unat a div 2 ^ (32 + l)"
proof -
  have m: "m < 2 ^ 32" using unat_u32_bound [of "rv_m R"] assms(1) by simp
  define t :: u32 where "t = ucast (drop_bit 32 (ucast a * ucast (rv_m R) :: u64))"
  have "unat a * m < 2 ^ 32 * 2 ^ 32" using unat_u32_bound [of a] m by (intro mult_strict_mono) simp_all
  then have p: "unat (ucast a * ucast (rv_m R) :: u64) = unat a * m"
    using assms(1) by (subst unat_mult_nowrap) (simp_all add: unat_ucast_up)
  have "unat a * m \<le> unat a * 2 ^ 32" using m by (intro mult_le_mono2) simp
  then have tle: "unat a * m div 2 ^ 32 \<le> unat a"
    by (metis div_le_mono div_mult_self_is_m zero_less_numeral zero_less_power)
  then have t: "unat t = unat a * m div 2 ^ 32"
    using unat_u32_bound [of a] by (simp only: t_def unat_ucast_down unat_drop p) simp
  have d: "unat (a - t) = unat a - unat t" using t tle by (simp add: unat_sub word_le_nat_alt)
  have h: "unat (drop_bit 1 (a - t)) = (unat a - unat t) div 2" by (simp only: unat_half d)
  have le: "unat t + (unat a - unat t) div 2 \<le> unat a" using t tle by linarith
  then have s: "unat (t + drop_bit 1 (a - t)) = unat t + (unat a - unat t) div 2"
    using h unat_u32_bound [of a] by (subst unat_add_nowrap) simp_all
  have "reciprocal_divide a R = drop_bit (l - 1) (t + drop_bit 1 (a - t))"
    by (simp only: reciprocal_divide_def Let_def t_def [symmetric] assms(2,3))
  then have "unat (reciprocal_divide a R) = (unat t + (unat a - unat t) div 2) div 2 ^ (l - 1)"
    by (simp only: unat_drop s)
  also have "\<dots> = (unat a + unat t) div 2 ^ l"
    using t tle assms(4) by (intro halving_sum) simp_all
  also have "unat a + unat t = (2 ^ 32 + m) * unat a div 2 ^ 32"
    unfolding t by (simp add: algebra_simps)
  finally show ?thesis by (simp add: power_add div_mult2_eq)
qed

lemma reciprocal_divide_eq:
  assumes "d \<noteq> 0"
  shows "\<exists>R. reciprocal_value_of d = Ok R \<and> unat (reciprocal_divide a R) = unat a div unat d"
proof -
  define l where "l = fls_word (d - 1)"
  define m0 where "m0 = (push_bit 32 1 :: u64) * (push_bit l 1 - ucast d)"
  have l32: "l \<le> 32" unfolding l_def using fls_le_length [of "d - 1"] by simp
  have d0: "0 < unat d" using assms by (simp add: unat_gt_0)
  have d32: "unat d < 2 ^ 32" using unat_u32_bound [of d] by simp
  have dm: "unat (d - 1) = unat d - 1" by (rule unat_minus_one [OF assms])
  have dle: "unat d \<le> 2 ^ l" using fls_upper [of "d - 1"] dm d0 by (simp add: l_def)
  have pl: "unat (push_bit l 1 :: u64) = 2 ^ l"
    using l32 unat_exp [of l, where 'a = 64] by (simp add: push_bit_eq_mult)
  have df: "unat (push_bit l 1 - ucast d :: u64) = 2 ^ l - unat d"
  proof -
    have "(ucast d :: u64) \<le> push_bit l 1" unfolding word_le_nat_alt pl unat_ucast_up by (rule dle)
    from unat_sub [OF this] show ?thesis by (simp only: pl unat_ucast_up)
  qed
  have "2 ^ l - unat d < 2 ^ 32"
  proof -
    have "(2 :: nat) ^ l \<le> 2 ^ 32" using l32 by (intro power_increasing) simp_all
    with d0 dle show ?thesis by linarith
  qed
  then have "unat (push_bit 32 1 :: u64) * (2 ^ l - unat d) < 2 ^ LENGTH(64)" by (simp add: push_bit_eq_mult)
  then have "unat m0 = unat (push_bit 32 1 :: u64) * (2 ^ l - unat d)"
    unfolding m0_def df [symmetric] by (rule unat_mult_nowrap)
  then have m0: "unat m0 = 2 ^ 32 * (2 ^ l - unat d)" by (simp add: push_bit_eq_mult)
  from do_div_correct [OF assms, of m0] obtain q r where q: "do_div m0 d = Ok (q, r)"
    "unat q = 2 ^ 32 * (2 ^ l - unat d) div unat d" unfolding m0 by blast
  define R where "R = \<lparr>rv_m = ucast (q + 1), rv_sh1 = of_nat (min l 1), rv_sh2 = of_nat (max (l - 1) 0)\<rparr>"
  have R: "reciprocal_value_of d = Ok R"
    unfolding reciprocal_value_of_def Let_def l_def [symmetric] m0_def [symmetric] q(1) R_def by simp
  have sh2: "unat (rv_sh2 R) = l - 1"
    using l32 unat_of_nat_small [of "l - 1", where 'a = 8] by (simp add: R_def)
  show ?thesis
  proof (cases "l = 0")
    case True
    with dle d0 have "unat d = 1" by simp
    with True q(2) have "q = 0" by (simp add: word_unat_eq_iff)
    then have "rv_m R = 1" "unat (rv_sh1 R) = 0" using True by (simp_all add: R_def)
    moreover have "unat (ucast (drop_bit 32 (ucast a :: u64)) :: u32) = 0"
      using unat_u32_bound [of a] by (simp only: unat_ucast_down unat_drop unat_ucast_up) simp
    then have "ucast (drop_bit 32 (ucast a :: u64)) = (0 :: u32)" by (simp only: unat_0_iff)
    ultimately have "reciprocal_divide a R = a"
      using sh2 True by (simp add: reciprocal_divide_def)
    with R \<open>unat d = 1\<close> show ?thesis by simp
  next
    case False
    have "d - 1 \<noteq> 0" using False by (auto simp: l_def)
    from fls_lower [OF this] have "2 ^ (l - 1) \<le> unat d - 1" unfolding l_def dm .
    then have lo: "2 ^ (l - 1) < unat d" using d0 by linarith
    note mult = reciprocal_multiplier [OF lo dle _ d32 q(2)]
    have l0: "0 < l" using False by simp
    have "unat (q + 1) = unat q + 1" using mult(1) [OF l0] by (subst unat_add_nowrap) simp_all
    then have rm: "unat (rv_m R) = unat q + 1" using mult(1) [OF l0] by (simp add: R_def unat_ucast_down)
    have "unat (rv_sh1 R) = 1" using l0 min_absorb2 [of 1 l] by (simp add: R_def)
    from reciprocal_divide_steps [OF rm this sh2 l0, of a]
      reciprocal_estimate [OF d0 mult(2) [OF l0] mult(3) [OF l0], of "unat a"] R unat_u32_bound [of a]
    show ?thesis by auto
  qed
qed

section \<open>Properties\<close>


text \<open>
  \<^bold>\<open>C13\<close>. \<open>int_sqrt\<close> returns the integer square root of every 32-bit argument, without overflow on the way.
\<close>

theorem int_sqrt_correct:
  "unat (int_sqrt x) * unat (int_sqrt x) \<le> unat x
    \<and> unat x < (unat (int_sqrt x) + 1) * (unat (int_sqrt x) + 1)"
  using int_sqrt_is_isqrt [of x] by (simp only: is_isqrt_def)



text \<open>
  \<^bold>\<open>C11\<close>. Dividing by a precomputed reciprocal is exact: for every non-zero 32-bit divisor and every
  32-bit dividend, \<open>reciprocal_divide\<close> with the value \<open>reciprocal_value\<close> computed returns the quotient.
\<close>

theorem reciprocal_divide_correct:
  assumes "d \<noteq> 0"
  shows "\<exists>R. reciprocal_value_of d = Ok R \<and> unat (reciprocal_divide a R) = unat a div unat d"
  by (rule reciprocal_divide_eq [OF assms])

theorem reciprocal_divide_correct_witness:
  "\<exists>R. reciprocal_value_of 7 = Ok R \<and> unat (reciprocal_divide 0xFFFFFFFF R) = 613566756"
  using reciprocal_divide_correct [of 7 "0xFFFFFFFF"] by simp

end
