(* ===== verification/Kswap.thy ===== *)
theory Kswap
  imports Kmath
begin

text \<open>
  The byte-level swap routines of \<open>lib/sort.c\<close>: memory is a function from addresses to bytes, a
  \<open>u32\<close> access moves four bytes. The lemmas show that the routine \<open>sort_r\<close> picks for an element size
  exchanges two elements and touches nothing else.
\<close>

unbundle bit_operations_syntax

section \<open>Definitions\<close>

type_synonym memory = "u32 \<Rightarrow> u8"

definition load :: "nat \<Rightarrow> memory \<Rightarrow> u32 \<Rightarrow> u8 list" where
  "load w mem p = map (\<lambda>k. mem (p + of_nat k)) [0..<w]"

definition store :: "u8 list \<Rightarrow> u32 \<Rightarrow> memory \<Rightarrow> memory" where
  "store bs p mem = (\<lambda>r. if unat (r - p) < length bs then bs ! unat (r - p) else mem r)"

text \<open>\<open>t = *p; *p = *q; *q = t\<close> for an access of \<open>w\<close> bytes.\<close>

definition exchange :: "nat \<Rightarrow> u32 \<Rightarrow> u32 \<Rightarrow> memory \<Rightarrow> memory" where
  "exchange w p q mem =
     (let t = load w mem p; mem = store (load w mem q) p mem in store t q mem)"

partial_function (option) swap_words_32 :: "u32 \<Rightarrow> u32 \<Rightarrow> u32 \<Rightarrow> memory \<Rightarrow> memory option" where
  "swap_words_32 a b n mem =
     (let n = n - 4; mem = exchange 4 (a + n) (b + n) mem
      in if n \<noteq> 0 then swap_words_32 a b n mem else Some mem)"

partial_function (option) swap_words_64 :: "u32 \<Rightarrow> u32 \<Rightarrow> u32 \<Rightarrow> memory \<Rightarrow> memory option" where
  "swap_words_64 a b n mem =
     (let n = n - 4; mem = exchange 4 (a + n) (b + n) mem;
          n = n - 4; mem = exchange 4 (a + n) (b + n) mem
      in if n \<noteq> 0 then swap_words_64 a b n mem else Some mem)"

partial_function (option) swap_bytes :: "u32 \<Rightarrow> u32 \<Rightarrow> u32 \<Rightarrow> memory \<Rightarrow> memory option" where
  "swap_bytes a b n mem =
     (let n = n - 1; mem = exchange 1 (a + n) (b + n) mem
      in if n \<noteq> 0 then swap_bytes a b n mem else Some mem)"

definition is_aligned :: "u32 \<Rightarrow> u8 \<Rightarrow> bool" where
  "is_aligned sz align = ((ucast sz :: u8) AND (align - 1) = 0)"

datatype swap_func = SWAP_WORDS_64 | SWAP_WORDS_32 | SWAP_BYTES

definition choose_swap :: "u32 \<Rightarrow> swap_func" where
  "choose_swap sz =
     (if is_aligned sz 8 then SWAP_WORDS_64
      else if is_aligned sz 4 then SWAP_WORDS_32 else SWAP_BYTES)"

fun swap_with :: "swap_func \<Rightarrow> u32 \<Rightarrow> u32 \<Rightarrow> u32 \<Rightarrow> memory \<Rightarrow> memory option" where
  "swap_with SWAP_WORDS_64 a b sz mem = swap_words_64 a b sz mem"
| "swap_with SWAP_WORDS_32 a b sz mem = swap_words_32 a b sz mem"
| "swap_with SWAP_BYTES a b sz mem = swap_bytes a b sz mem"

lemmas [code] = swap_words_32.simps swap_words_64.simps swap_bytes.simps

section \<open>Exchanging two blocks\<close>

text \<open>Memory with the bytes \<open>lo\<close> to \<open>hi\<close> of the blocks at \<open>a\<close> and \<open>b\<close> exchanged.\<close>

definition exchanged :: "u32 \<Rightarrow> u32 \<Rightarrow> nat \<Rightarrow> nat \<Rightarrow> memory \<Rightarrow> memory" where
  "exchanged a b lo hi mem = (\<lambda>r.
     if lo \<le> unat (r - a) \<and> unat (r - a) < hi then mem (b + (r - a))
     else if lo \<le> unat (r - b) \<and> unat (r - b) < hi then mem (a + (r - b))
     else mem r)"

definition disjoint_blocks :: "u32 \<Rightarrow> u32 \<Rightarrow> nat \<Rightarrow> bool" where
  "disjoint_blocks a b n \<longleftrightarrow> n \<le> unat (a - b) \<and> n \<le> unat (b - a)"

lemma mod_0_once:
  assumes "s mod N = 0" and "0 < s" and "s < 2 * N"
  shows "s = (N :: nat)"
proof -
  obtain k where k: "s = N * k" using assms(1) by (auto simp: dvd_eq_mod_eq_0 [symmetric])
  then have "k < 2" "k \<noteq> 0" using assms by (auto simp: mult.commute)
  then have "k = 1" by simp
  with k show ?thesis by simp
qed

lemma unat_sub_less:
  fixes x m :: u32
  assumes "unat m + w \<le> 4294967296"
  shows "unat (x - m) < w \<longleftrightarrow> unat m \<le> unat x \<and> unat x < unat m + w"
proof (cases "m \<le> x")
  case True
  then show ?thesis by (auto simp: unat_sub word_le_nat_alt)
next
  case False
  then have "unat (m - x) = unat m - unat x" by (simp add: unat_sub)
  moreover have "(unat (x - m) + unat (m - x)) mod 4294967296 = 0"
    using unat_word_ariths(1) [of "x - m" "m - x"] by simp
  moreover have "0 < unat (m - x)" using False by (auto simp: unat_gt_0)
  moreover have "unat (x - m) < 4294967296" "unat (m - x) < 4294967296" by (rule unat_u32_bound)+
  ultimately have "unat (x - m) = 4294967296 - (unat m - unat x)"
    using mod_0_once [of "unat (x - m) + unat (m - x)" 4294967296] by linarith
  with False assms show ?thesis by (auto simp: word_le_nat_alt)
qed

lemma disjoint_blocks_apart:
  assumes "disjoint_blocks a b n" and "unat (r - a) < n" and "unat (r - b) < n"
  shows False
proof (cases "r - a \<le> r - b")
  case True
  have "a - b = (r - b) - (r - a)" by simp
  then have "unat (a - b) = unat (r - b) - unat (r - a)" using unat_sub [OF True] by simp
  then show False using assms unfolding disjoint_blocks_def by linarith
next
  case False
  have "b - a = (r - a) - (r - b)" by simp
  then have "unat (b - a) = unat (r - a) - unat (r - b)" using unat_sub [of "r - b" "r - a"] False by simp
  then show False using assms unfolding disjoint_blocks_def by linarith
qed

lemma exchange_apply:
  assumes "w \<le> 4294967296" and "disjoint_blocks p q w"
  shows "exchange w p q mem = exchanged p q 0 w mem"
proof
  fix r
  have ld: "load w m p' ! unat (r - q') = m (p' + (r - q'))" if "unat (r - q') < w" for p' q' m
    using that by (simp add: load_def)
  show "exchange w p q mem r = exchanged p q 0 w mem r"
    using disjoint_blocks_apart [OF assms(2), of r]
    by (auto simp: exchange_def exchanged_def Let_def store_def ld load_def [THEN arg_cong [of _ _ length]])
qed

lemma exchanged_step:
  assumes dis: "disjoint_blocks a b hi" and n: "unat n + w \<le> hi" and "hi \<le> 4294967296" and w: "0 < w"
  shows "exchange w (a + n) (b + n) (exchanged a b (unat n + w) hi mem) = exchanged a b (unat n) hi mem"
proof -
  have "disjoint_blocks (a + n) (b + n) w" using dis n by (auto simp: disjoint_blocks_def)
  then have ex: "exchange w (a + n) (b + n) m = exchanged (a + n) (b + n) 0 w m" for m
    using assms by (intro exchange_apply) auto
  have lim: "unat n + w \<le> 4294967296" using assms by simp
  have shift: "unat (r - (c + n)) < w \<longleftrightarrow> unat n \<le> unat (r - c) \<and> unat (r - c) < unat n + w" for r c
    using unat_sub_less [OF lim, of "r - c"] by (simp add: algebra_simps)
  have undo: "b + n + (r - (a + n)) = b + (r - a)" "a + n + (r - (b + n)) = a + (r - b)" for r by simp_all
  show ?thesis
  proof
    fix r
    have 1: "\<not> (unat (b + (r - a) - a) < hi)" if "unat (r - a) < hi"
      using disjoint_blocks_apart [OF dis, of "b + (r - a)"] that by auto
    have 2: "\<not> (unat (a + (r - b) - b) < hi)" if "unat (r - b) < hi"
      using disjoint_blocks_apart [OF dis, of "a + (r - b)"] that by auto
    have 3: "\<not> (unat (r - a) < hi \<and> unat (r - b) < hi)" using disjoint_blocks_apart [OF dis] by blast
    show "exchange w (a + n) (b + n) (exchanged a b (unat n + w) hi mem) r = exchanged a b (unat n) hi mem r"
      unfolding ex
      using 1 2 3 n by (auto simp: exchanged_def shift undo)
  qed
qed

lemma exchanged_none [simp]: "exchanged a b n n mem = mem"
  by (rule ext) (auto simp: exchanged_def)

lemma unat_sub_const:
  assumes "m dvd unat n" and "n \<noteq> 0" and "m = unat k"
  shows "unat (n - k :: u32) = unat n - m"
proof -
  have "0 < unat n" using assms(2) by (simp add: unat_gt_0)
  then have "unat k \<le> unat n" using assms(1,3) by (auto dest: dvd_imp_le)
  then show ?thesis using assms(3) by (simp add: unat_sub word_le_nat_alt)
qed

lemma swap_words_32_from:
  assumes "disjoint_blocks a b hi" and "4 dvd unat n" and "n \<noteq> 0" and "unat n \<le> hi" and "hi \<le> 4294967296"
  shows "swap_words_32 a b n (exchanged a b (unat n) hi mem) = Some (exchanged a b 0 hi mem)"
  using assms
proof (induction "unat n" arbitrary: n rule: less_induct)
  case less
  have s: "unat (n - 4) + 4 = unat n" and lt: "unat (n - 4) < unat n"
    using unat_sub_const [OF less.prems(2,3), of 4] less.prems(2,3) dvd_imp_le [of 4 "unat n"] by (auto simp: unat_gt_0)
  have "exchange 4 (a + (n - 4)) (b + (n - 4)) (exchanged a b (unat n) hi mem) = exchanged a b (unat (n - 4)) hi mem"
    using exchanged_step [OF less.prems(1), of "n - 4" 4 mem] s less.prems(4,5) by simp
  moreover have "4 dvd unat (n - 4)" using s less.prems(2) by presburger
  ultimately show ?case
    using less.hyps [OF lt less.prems(1)] s less.prems(4,5)
    by (cases "n - 4 = 0"; subst swap_words_32.simps) (simp_all only: Let_def unat_0 simp_thms if_True if_False)
qed

lemma swap_words_64_from:
  assumes "disjoint_blocks a b hi" and "8 dvd unat n" and "n \<noteq> 0" and "unat n \<le> hi" and "hi \<le> 4294967296"
  shows "swap_words_64 a b n (exchanged a b (unat n) hi mem) = Some (exchanged a b 0 hi mem)"
  using assms
proof (induction "unat n" arbitrary: n rule: less_induct)
  case less
  have d4: "4 dvd unat n" using less.prems(2) by presburger
  have n8: "8 \<le> unat n" using less.prems(2,3) dvd_imp_le [of 8 "unat n"] by (simp add: unat_gt_0)
  have s: "unat (n - 4) + 4 = unat n" using unat_sub_const [OF d4 less.prems(3), of 4] n8 by simp
  have nz: "n - 4 \<noteq> 0" using s n8 by auto
  have d4': "4 dvd unat (n - 4)" using s less.prems(2) by presburger
  have s': "unat (n - 4 - 4) + 4 = unat (n - 4)" using unat_sub_const [OF d4' nz, of 4] s n8 by simp
  have "exchange 4 (a + (n - 4)) (b + (n - 4)) (exchanged a b (unat n) hi mem) = exchanged a b (unat (n - 4)) hi mem"
    using exchanged_step [OF less.prems(1), of "n - 4" 4 mem] s less.prems(4,5) by simp
  moreover have "exchange 4 (a + (n - 4 - 4)) (b + (n - 4 - 4)) (exchanged a b (unat (n - 4)) hi mem)
      = exchanged a b (unat (n - 4 - 4)) hi mem"
    using exchanged_step [OF less.prems(1), of "n - 4 - 4" 4 mem] s s' less.prems(4,5) by simp
  moreover have "8 dvd unat (n - 4 - 4)" using s s' less.prems(2) by presburger
  moreover have lt: "unat (n - 4 - 4) < unat n" using s s' by simp
  ultimately show ?case
    using less.hyps [OF lt less.prems(1)] s s' less.prems(4,5)
    by (cases "n - 4 - 4 = 0"; subst swap_words_64.simps) (simp_all only: Let_def unat_0 simp_thms if_True if_False)
qed

lemma swap_bytes_from:
  assumes "disjoint_blocks a b hi" and "n \<noteq> 0" and "unat n \<le> hi" and "hi \<le> 4294967296"
  shows "swap_bytes a b n (exchanged a b (unat n) hi mem) = Some (exchanged a b 0 hi mem)"
  using assms
proof (induction "unat n" arbitrary: n rule: less_induct)
  case less
  have s: "unat (n - 1) + 1 = unat n" and lt: "unat (n - 1) < unat n"
    using unat_sub_const [of 1 n 1] less.prems(2) by (auto simp: unat_gt_0)
  have "exchange 1 (a + (n - 1)) (b + (n - 1)) (exchanged a b (unat n) hi mem) = exchanged a b (unat (n - 1)) hi mem"
    using exchanged_step [OF less.prems(1), of "n - 1" 1 mem] s less.prems(3,4) by simp
  then show ?case
    using less.hyps [OF lt less.prems(1)] s less.prems(3,4)
    by (cases "n - 1 = 0"; subst swap_bytes.simps) (simp_all only: Let_def unat_0 simp_thms if_True if_False)
qed

lemma is_aligned_iff:
  assumes "k \<le> 7"
  shows "is_aligned sz (2 ^ k) \<longleftrightarrow> 2 ^ k dvd unat sz"
proof -
  have m: "2 ^ k - 1 = (mask k :: u8)" by (simp add: mask_eq_exp_minus_1)
  have "is_aligned sz (2 ^ k) \<longleftrightarrow> unat (take_bit k (ucast sz :: u8)) = 0"
    unfolding is_aligned_def m by (simp add: take_bit_eq_mask unat_eq_zero)
  also have "unat (take_bit k (ucast sz :: u8)) = unat sz mod 2 ^ k"
    using assms by (simp add: unsigned_take_bit_eq unsigned_ucast_eq take_bit_eq_mod mod_mod_cancel le_imp_power_dvd flip: take_bit_eq_mod)
  finally show ?thesis by (simp add: dvd_eq_mod_eq_0)
qed

section \<open>Properties\<close>

text \<open>
  \<^bold>\<open>C14\<close>. The swap routine that \<open>sort_r\<close> picks by the alignment of the element size terminates for
  every non-zero size and exchanges two elements that do not overlap, byte by byte, leaving all other
  memory as it was: moving words is the same as moving bytes.
\<close>

theorem chosen_swap_exchanges:
  assumes "sz \<noteq> 0" and "disjoint_blocks a b (unat sz)"
  shows "swap_with (choose_swap sz) a b sz mem = Some (exchanged a b 0 (unat sz) mem)"
proof -
  have b: "unat sz \<le> 4294967296" using unat_u32_bound [of sz] by simp
  have "is_aligned sz 8 \<longleftrightarrow> 8 dvd unat sz" "is_aligned sz 4 \<longleftrightarrow> 4 dvd unat sz"
    using is_aligned_iff [of 3 sz] is_aligned_iff [of 2 sz] by simp_all
  then show ?thesis
    using swap_words_64_from [OF assms(2) _ assms(1) le_refl b, of mem]
      swap_words_32_from [OF assms(2) _ assms(1) le_refl b, of mem]
      swap_bytes_from [OF assms(2,1) le_refl b, of mem]
    by (simp add: choose_swap_def)
qed

theorem chosen_swap_exchanges_witness:
  "choose_swap 12 = SWAP_WORDS_32
    \<and> swap_with (choose_swap 12) 100 124 12 ucast = Some (exchanged 100 124 0 12 ucast)"
  using chosen_swap_exchanges [of 12 100 124 ucast]
  by (simp add: disjoint_blocks_def choose_swap_def is_aligned_def)

end
