(* ===== verification/Ksort.thy ===== *)
theory Ksort
  imports Kmath "HOL-Library.Multiset"
begin

text \<open>
  Sorting and searching: the bottom-up heapsort of \<open>lib/sort.c\<close> on byte offsets, the same sort on
  element indices, the refinement between the two, the correctness of the sort, and \<open>bsearch\<close>.
\<close>

section \<open>Definitions\<close>

type_synonym 'a cmp = "'a \<Rightarrow> 'a \<Rightarrow> int"

definition swap_at :: "nat \<Rightarrow> nat \<Rightarrow> 'a list \<Rightarrow> 'a list" where
  "swap_at i j xs = xs[i := xs ! j, j := xs ! i]"


text \<open>
  \<open>lib/sort.c\<close> at the level of the source: offsets are byte offsets of type \<open>size_t\<close>, the element at
  offset \<open>i\<close> is entry \<open>i / sz\<close> of the list. A swap exchanges two elements.
\<close>

definition elem_at :: "u32 \<Rightarrow> 'a list \<Rightarrow> u32 \<Rightarrow> 'a" where
  "elem_at sz xs i = xs ! (unat i div unat sz)"

definition do_swap :: "u32 \<Rightarrow> u32 \<Rightarrow> u32 \<Rightarrow> 'a list \<Rightarrow> 'a list" where
  "do_swap sz i j xs = swap_at (unat i div unat sz) (unat j div unat sz) xs"

definition parent :: "u32 \<Rightarrow> u32 \<Rightarrow> u32 \<Rightarrow> u32" where
  "parent i lsbit sz = (let i = i - sz; i = i - (sz AND - (i AND lsbit)) in i div 2)"

partial_function (option) sort_leaf :: "'a cmp \<Rightarrow> u32 \<Rightarrow> 'a list \<Rightarrow> u32 \<Rightarrow> u32 \<Rightarrow> u32 option" where
  "sort_leaf cmp sz xs n b =
     (let c = 2 * b + sz; d = c + sz
      in if d < n
         then sort_leaf cmp sz xs n (if cmp (elem_at sz xs c) (elem_at sz xs d) \<ge> 0 then c else d)
         else Some (if d = n then c else b))"

partial_function (option) sort_climb ::
    "'a cmp \<Rightarrow> u32 \<Rightarrow> u32 \<Rightarrow> 'a list \<Rightarrow> u32 \<Rightarrow> u32 \<Rightarrow> u32 option" where
  "sort_climb cmp sz lsbit xs a b =
     (if b \<noteq> a \<and> cmp (elem_at sz xs a) (elem_at sz xs b) \<ge> 0
      then sort_climb cmp sz lsbit xs a (parent b lsbit sz) else Some b)"

partial_function (option) sort_rotate ::
    "u32 \<Rightarrow> u32 \<Rightarrow> u32 \<Rightarrow> u32 \<Rightarrow> u32 \<Rightarrow> 'a list \<Rightarrow> 'a list option" where
  "sort_rotate sz lsbit a b c xs =
     (if b \<noteq> a
      then let b = parent b lsbit sz in sort_rotate sz lsbit a b c (do_swap sz b c xs)
      else Some xs)"

definition sort_sift :: "'a cmp \<Rightarrow> u32 \<Rightarrow> u32 \<Rightarrow> u32 \<Rightarrow> u32 \<Rightarrow> 'a list \<Rightarrow> 'a list option" where
  "sort_sift cmp sz lsbit n a xs =
     Option.bind (sort_leaf cmp sz xs n a) (\<lambda>b.
     Option.bind (sort_climb cmp sz lsbit xs a b) (\<lambda>b.
     sort_rotate sz lsbit a b b xs))"

partial_function (option) sort_loop ::
    "'a cmp \<Rightarrow> u32 \<Rightarrow> u32 \<Rightarrow> u32 \<Rightarrow> u32 \<Rightarrow> 'a list \<Rightarrow> 'a list option" where
  "sort_loop cmp sz lsbit a n xs =
     (if a \<noteq> 0
      then let a = a - sz
           in Option.bind (sort_sift cmp sz lsbit n a xs) (\<lambda>xs. sort_loop cmp sz lsbit a n xs)
      else
        let n = n - sz
        in if n \<noteq> 0
           then Option.bind (sort_sift cmp sz lsbit n a (do_swap sz 0 n xs))
                  (\<lambda>xs. sort_loop cmp sz lsbit a n xs)
           else Some xs)"

definition sort_r :: "'a cmp \<Rightarrow> u32 \<Rightarrow> u32 \<Rightarrow> 'a list \<Rightarrow> 'a list option" where
  "sort_r cmp num sz xs =
     (let n = num * sz; a = (num div 2) * sz; lsbit = sz AND - sz
      in if a = 0 then Some xs else sort_loop cmp sz lsbit a n xs)"

lemmas [code] = sort_leaf.simps sort_climb.simps sort_rotate.simps sort_loop.simps

text \<open>The same sort on element indices.\<close>

definition parent_ix :: "nat \<Rightarrow> nat" where
  "parent_ix i = (i - 1) div 2"

function leaf_ix :: "'a cmp \<Rightarrow> 'a list \<Rightarrow> nat \<Rightarrow> nat \<Rightarrow> nat" where
  "leaf_ix cmp xs n b =
     (let c = 2 * b + 1; d = c + 1
      in if d < n then leaf_ix cmp xs n (if cmp (xs ! c) (xs ! d) \<ge> 0 then c else d)
         else if d = n then c else b)"
  by pat_completeness auto
termination
  by (relation "measure (\<lambda>(cmp, xs, n, b). n - b)") (auto split: if_splits)

declare leaf_ix.simps [simp del]

function climb_ix :: "'a cmp \<Rightarrow> 'a list \<Rightarrow> nat \<Rightarrow> nat \<Rightarrow> nat" where
  "climb_ix cmp xs a b =
     (if a < b \<and> cmp (xs ! a) (xs ! b) \<ge> 0 then climb_ix cmp xs a (parent_ix b) else b)"
  by pat_completeness auto
termination
  by (relation "measure (\<lambda>(cmp, xs, a, b). b)") (auto simp: parent_ix_def)

declare climb_ix.simps [simp del]

function rotate_ix :: "nat \<Rightarrow> nat \<Rightarrow> nat \<Rightarrow> 'a list \<Rightarrow> 'a list" where
  "rotate_ix a b c xs =
     (if a < b then rotate_ix a (parent_ix b) c (swap_at (parent_ix b) c xs) else xs)"
  by pat_completeness auto
termination
  by (relation "measure (\<lambda>(a, b, c, xs). b)") (auto simp: parent_ix_def)

declare rotate_ix.simps [simp del]

definition sift_ix :: "'a cmp \<Rightarrow> nat \<Rightarrow> nat \<Rightarrow> 'a list \<Rightarrow> 'a list" where
  "sift_ix cmp n a xs = (let b = climb_ix cmp xs a (leaf_ix cmp xs n a) in rotate_ix a b b xs)"

function sort_ix :: "'a cmp \<Rightarrow> nat \<Rightarrow> nat \<Rightarrow> 'a list \<Rightarrow> 'a list" where
  "sort_ix cmp a n xs =
     (if a > 0 then sort_ix cmp (a - 1) n (sift_ix cmp n (a - 1) xs)
      else if n > 1 then sort_ix cmp 0 (n - 1) (sift_ix cmp (n - 1) 0 (swap_at 0 (n - 1) xs))
      else xs)"
  by pat_completeness auto
termination
  by (relation "measure (\<lambda>(cmp, a, n, xs). a + n)") auto

declare sort_ix.simps [simp del]

definition heapsort_ix :: "'a cmp \<Rightarrow> 'a list \<Rightarrow> 'a list" where
  "heapsort_ix cmp xs = sort_ix cmp (length xs div 2) (length xs) xs"

text \<open>What a comparison callback promises: \<open>cmp x y \<ge> 0\<close> is a total preorder.\<close>

locale comparison =
  fixes cmp :: "'a cmp"
  assumes ge_total: "0 \<le> cmp x y \<or> 0 \<le> cmp y x"
    and ge_trans: "0 \<le> cmp x y \<Longrightarrow> 0 \<le> cmp y z \<Longrightarrow> 0 \<le> cmp x z"
begin

abbreviation ge :: "'a \<Rightarrow> 'a \<Rightarrow> bool" where
  "ge x y \<equiv> 0 \<le> cmp x y"

lemma ge_refl: "ge x x"
  using ge_total by blast

lemma not_ge: "\<not> ge x y \<Longrightarrow> ge y x"
  using ge_total by blast

end

definition child :: "nat \<Rightarrow> nat \<Rightarrow> nat \<Rightarrow> bool" where
  "child n i ch \<longleftrightarrow> 0 < ch \<and> ch < n \<and> parent_ix ch = i"

lemma child_iff: "child n i ch \<longleftrightarrow> ch < n \<and> (ch = 2 * i + 1 \<or> ch = 2 * i + 2)"
  by (auto simp: child_def parent_ix_def)

lemma parent_less: "0 < q \<Longrightarrow> parent_ix q < q"
  by (simp add: parent_ix_def)

definition heap_from :: "'a cmp \<Rightarrow> 'a list \<Rightarrow> nat \<Rightarrow> nat \<Rightarrow> bool" where
  "heap_from cmp xs n a \<longleftrightarrow> (\<forall>i ch. a \<le> i \<and> child n i ch \<longrightarrow> 0 \<le> cmp (xs ! i) (xs ! ch))"

text \<open>The nodes a descent along the larger children reaches from \<open>a\<close>.\<close>

inductive max_path :: "'a cmp \<Rightarrow> 'a list \<Rightarrow> nat \<Rightarrow> nat \<Rightarrow> nat \<Rightarrow> bool" for cmp xs n a where
  max_path_start: "max_path cmp xs n a a"
| max_path_step: "max_path cmp xs n a p \<Longrightarrow> child n p q \<Longrightarrow>
    (\<forall>s. child n p s \<longrightarrow> 0 \<le> cmp (xs ! q) (xs ! s)) \<Longrightarrow> max_path cmp xs n a q"

lemma max_path_ge: "max_path cmp xs n a b \<Longrightarrow> a \<le> b"
proof (induction rule: max_path.induct)
  case (max_path_step p q)
  then show ?case by (auto simp: child_iff)
qed simp

lemma max_path_parent:
  assumes "max_path cmp xs n a q" and "a < q"
  shows "max_path cmp xs n a (parent_ix q)" and "child n (parent_ix q) q"
    and "\<forall>s. child n (parent_ix q) s \<longrightarrow> 0 \<le> cmp (xs ! q) (xs ! s)"
proof -
  from assms obtain p where p: "max_path cmp xs n a p" "child n p q"
      "\<forall>s. child n p s \<longrightarrow> 0 \<le> cmp (xs ! q) (xs ! s)"
    by (cases rule: max_path.cases) auto
  moreover from p(2) have "p = parent_ix q" by (simp add: child_def)
  ultimately show "max_path cmp xs n a (parent_ix q)" and "child n (parent_ix q) q"
    and "\<forall>s. child n (parent_ix q) s \<longrightarrow> 0 \<le> cmp (xs ! q) (xs ! s)" by simp_all
qed

lemma max_path_less: "max_path cmp xs n a b \<Longrightarrow> a < n \<Longrightarrow> b < n"
  by (cases rule: max_path.cases) (auto simp: child_def)

function up_to :: "nat \<Rightarrow> nat \<Rightarrow> nat set" where
  "up_to a b = (if a < b then insert (parent_ix b) (up_to a (parent_ix b)) else {})"
  by pat_completeness auto
termination
  by (relation "measure snd") (auto simp: parent_ix_def)

declare up_to.simps [simp del]

lemma up_to_less: "i \<in> up_to a b \<Longrightarrow> i < b"
proof (induction a b rule: up_to.induct)
  case (1 a b)
  then have ab: "a < b" and "i = parent_ix b \<or> i \<in> up_to a (parent_ix b)"
    by (auto simp: up_to.simps [of a b] split: if_splits)
  with "1.IH" [OF ab] have "i \<le> parent_ix b" by auto
  with parent_less [of b] ab show ?case by linarith
qed

lemma up_to_next:
  "i \<in> up_to a b \<Longrightarrow> \<exists>q \<in> insert b (up_to a b). a < q \<and> parent_ix q = i"
proof (induction a b rule: up_to.induct)
  case (1 a b)
  then show ?case by (auto simp: up_to.simps [of a b] split: if_splits)
qed

lemma up_to_step:
  "q \<in> insert b (up_to a b) \<Longrightarrow> a < q \<Longrightarrow> parent_ix q \<in> up_to a b"
proof (induction a b rule: up_to.induct)
  case (1 a b)
  then show ?case by (auto simp: up_to.simps [of a b] split: if_splits)
qed

lemma up_to_no_sibling:
  assumes "r \<in> insert (parent_ix b) (up_to a (parent_ix b))" and "a < r"
  shows "parent_ix r \<noteq> parent_ix b"
proof
  assume "parent_ix r = parent_ix b"
  with parent_less [of r] assms(2) have "parent_ix b < r" by simp
  with assms(1) up_to_less [of r a "parent_ix b"] show False by auto
qed

lemma up_to_unique:
  "q \<in> insert b (up_to a b) \<Longrightarrow> q' \<in> insert b (up_to a b) \<Longrightarrow> a < q \<Longrightarrow> a < q' \<Longrightarrow>
     parent_ix q = parent_ix q' \<Longrightarrow> q = q'"
proof (induction a b rule: up_to.induct)
  case (1 a b)
  show ?case
  proof (cases "a < b")
    case ab: True
    let ?U = "insert (parent_ix b) (up_to a (parent_ix b))"
    from ab have U: "up_to a b = ?U" by (simp add: up_to.simps)
    consider "q = b" "q' = b" | "q = b" "q' \<in> ?U" | "q \<in> ?U" "q' = b" | "q \<in> ?U" "q' \<in> ?U"
      using "1.prems"(1,2) unfolding U by blast
    then show ?thesis
    proof cases
      case 2
      with up_to_no_sibling "1.prems" show ?thesis by metis
    next
      case 3
      with up_to_no_sibling "1.prems" show ?thesis by metis
    next
      case 4
      from "1.IH" [OF ab 4 "1.prems"(3,4,5)] show ?thesis .
    qed simp
  next
    case False
    with "1.prems" show ?thesis by (simp add: up_to.simps [of a b])
  qed
qed

lemma max_path_up:
  "max_path cmp xs n a b \<Longrightarrow> q \<in> up_to a b \<Longrightarrow> max_path cmp xs n a q"
proof (induction a b rule: up_to.induct)
  case (1 a b)
  then show ?case using max_path_parent(1) [of cmp xs n a b]
    by (auto simp: up_to.simps [of a b] split: if_splits)
qed


lemma max_path_top: "max_path cmp xs n a b \<Longrightarrow> a < b \<Longrightarrow> a \<in> up_to a b"
proof (induction b rule: less_induct)
  case (less b)
  have "max_path cmp xs n a (parent_ix b)" using max_path_parent(1) less.prems by blast
  moreover have "parent_ix b < b" using less.prems parent_less by simp
  ultimately have "parent_ix b = a \<or> a \<in> up_to a (parent_ix b)"
    using less.IH max_path_ge by (metis le_neq_implies_less)
  then show ?case using less.prems(2) by (auto simp: up_to.simps [of a b])
qed

text \<open>The three loops of one sift.\<close>

lemma leaf_ix_path:
  assumes "comparison cmp" and "max_path cmp xs n a b"
  shows "max_path cmp xs n a (leaf_ix cmp xs n b) \<and> (\<nexists>ch. child n (leaf_ix cmp xs n b) ch)"
  using assms
proof (induction cmp xs n b rule: leaf_ix.induct)
  case (1 cmp xs n b)
  let ?c = "2 * b + 1" and ?d = "2 * b + 1 + 1"
  show ?case
  proof (cases "?d < n")
    case True
    let ?e = "if cmp (xs ! ?c) (xs ! ?d) \<ge> 0 then ?c else ?d"
    have "max_path cmp xs n a ?e"
    proof (rule max_path_step [OF "1.prems"(2)])
      show "child n b ?e" using True by (auto simp: child_iff)
      show "\<forall>s. child n b s \<longrightarrow> 0 \<le> cmp (xs ! ?e) (xs ! s)"
        using comparison.ge_refl [OF "1.prems"(1)] comparison.not_ge [OF "1.prems"(1)]
        by (auto simp: child_iff)
    qed
    moreover have "leaf_ix cmp xs n b = leaf_ix cmp xs n ?e"
      by (subst leaf_ix.simps) (simp only: Let_def True if_True)
    ultimately show ?thesis using "1.IH" [OF refl refl True "1.prems"(1)] by metis
  next
    case False
    show ?thesis
    proof (cases "?d = n")
      case True
      then have "max_path cmp xs n a ?c"
        using comparison.ge_refl [OF "1.prems"(1)]
        by (intro max_path_step [OF "1.prems"(2)]) (auto simp: child_iff)
      with False True show ?thesis by (auto simp: leaf_ix.simps [of cmp xs n b] Let_def child_iff)
    next
      case ne: False
      with False "1.prems" show ?thesis by (auto simp: leaf_ix.simps [of cmp xs n b] Let_def child_iff)
    qed
  qed
qed

lemma climb_ix_path:
  assumes "comparison cmp" and "max_path cmp xs n a b" and "\<forall>ch. child n b ch \<longrightarrow> 0 \<le> cmp (xs ! a) (xs ! ch)"
  defines "c \<equiv> climb_ix cmp xs a b"
  shows "max_path cmp xs n a c \<and> (\<forall>ch. child n c ch \<longrightarrow> 0 \<le> cmp (xs ! a) (xs ! ch))
     \<and> (a < c \<longrightarrow> 0 \<le> cmp (xs ! c) (xs ! a))"
  using assms(1-3) unfolding c_def
proof (induction cmp xs a b rule: climb_ix.induct)
  case (1 cmp xs a b)
  show ?case
  proof (cases "a < b \<and> 0 \<le> cmp (xs ! a) (xs ! b)")
    case True
    then have ab: "a < b" and g: "0 \<le> cmp (xs ! a) (xs ! b)" by simp_all
    note p = max_path_parent [OF "1.prems"(2) ab]
    have "\<forall>ch. child n (parent_ix b) ch \<longrightarrow> 0 \<le> cmp (xs ! a) (xs ! ch)"
      using p(3) g comparison.ge_trans [OF "1.prems"(1)] by blast
    from "1.IH" [OF True "1.prems"(1) p(1) this] True show ?thesis
      by (simp add: climb_ix.simps [of cmp xs a b])
  next
    case False
    then have c: "climb_ix cmp xs a b = b" by (subst climb_ix.simps) (simp only: if_False)
    have "a < b \<longrightarrow> 0 \<le> cmp (xs ! b) (xs ! a)" using False comparison.not_ge [OF "1.prems"(1)] by blast
    with c "1.prems" show ?thesis by simp
  qed
qed

lemma swap_at_nth:
  "i < length xs \<Longrightarrow> j < length xs \<Longrightarrow>
     swap_at i j xs ! k = (if k = j then xs ! i else if k = i then xs ! j else xs ! k)"
  by (cases "k < length xs") (auto simp: swap_at_def nth_list_update)

lemma swap_at_length [simp]: "length (swap_at i j xs) = length xs"
  by (simp add: swap_at_def)

lemma swap_at_mset: "i < length xs \<Longrightarrow> j < length xs \<Longrightarrow> mset (swap_at i j xs) = mset xs"
  by (cases "i = j") (simp_all add: swap_at_def mset_swap)

text \<open>
  The rotation: every node of the path takes over the element below it, the end of the path takes
  the element of \<open>a\<close>, and nothing else moves.
\<close>

lemma rotate_ix_spec:
  assumes "max_path cmp xs n a b" and "\<forall>i < b. ys ! i = xs ! i" and "ys ! c = xs ! b" and "b \<le> c"
    and "c < length ys"
  shows "length (rotate_ix a b c ys) = length ys \<and> mset (rotate_ix a b c ys) = mset ys
     \<and> rotate_ix a b c ys ! c = xs ! a
     \<and> (\<forall>i. i \<noteq> c \<and> i \<notin> up_to a b \<longrightarrow> rotate_ix a b c ys ! i = ys ! i)
     \<and> (\<forall>q \<in> insert b (up_to a b). a < q \<longrightarrow> rotate_ix a b c ys ! parent_ix q = xs ! q)"
  using assms
proof (induction a b c ys rule: rotate_ix.induct)
  case (1 a b c ys)
  show ?case
  proof (cases "a < b")
    case False
    then have "b = a" using max_path_ge [OF "1.prems"(1)] by simp
    with "1.prems" show ?thesis by (simp add: rotate_ix.simps [of a a] up_to.simps [of a a])
  next
    case ab: True
    let ?p = "parent_ix b" and ?ys = "swap_at (parent_ix b) c ys"
    have pb: "?p < b" using ab parent_less by simp
    have len: "?p < length ys" using pb "1.prems"(4,5) by linarith
    note sw = swap_at_nth [OF len "1.prems"(5)]
    have rec: "rotate_ix a b c ys = rotate_ix a ?p c ?ys" using ab by (simp add: rotate_ix.simps [of a b])
    have U: "up_to a b = insert ?p (up_to a ?p)" using ab by (simp add: up_to.simps [of a b])
    have pc: "?p \<noteq> c" using pb "1.prems"(4) by simp
    have low: "\<forall>i < ?p. ?ys ! i = xs ! i" using "1.prems"(2,4) pb by (auto simp: sw)
    have at_c: "?ys ! c = xs ! ?p" using "1.prems"(2) pb by (simp add: sw)
    have at_p: "?ys ! ?p = xs ! b" using "1.prems"(3) pc by (simp add: sw)
    have "?p \<le> c" "c < length ?ys" using pb "1.prems"(4,5) by simp_all
    note IH = "1.IH" [OF ab max_path_parent(1) [OF "1.prems"(1) ab] low at_c this]
    have keep: "rotate_ix a ?p c ?ys ! i = ys ! i" if "i \<noteq> c" "i \<notin> up_to a b" for i
    proof -
      have "i \<noteq> ?p" using that(2) U by blast
      moreover have "rotate_ix a ?p c ?ys ! i = ?ys ! i" using IH that U by blast
      ultimately show ?thesis using that(1) by (simp add: sw)
    qed
    have "?p \<notin> up_to a ?p" using up_to_less by blast
    then have "rotate_ix a ?p c ?ys ! ?p = xs ! b" using IH pc at_p by metis
    then have below: "\<forall>q \<in> insert b (up_to a b). a < q \<longrightarrow> rotate_ix a ?p c ?ys ! parent_ix q = xs ! q"
      using IH unfolding U by blast
    have "mset (rotate_ix a ?p c ?ys) = mset ys"
      using IH swap_at_mset [OF len "1.prems"(5)] by simp
    then show ?thesis unfolding rec using IH keep below by simp
  qed
qed

lemma sift_ix_heap:
  assumes cmp: "comparison cmp" and heap: "heap_from cmp xs n (Suc a)" and an: "a < n" "n \<le> length xs"
  shows "heap_from cmp (sift_ix cmp n a xs) n a" and "mset (sift_ix cmp n a xs) = mset xs"
    and "length (sift_ix cmp n a xs) = length xs"
    and "\<And>i. n \<le> i \<Longrightarrow> sift_ix cmp n a xs ! i = xs ! i"
proof -
  define b where "b = leaf_ix cmp xs n a"
  define c where "c = climb_ix cmp xs a b"
  define zs where "zs = rotate_ix a c c xs"
  have sift: "sift_ix cmp n a xs = zs" by (simp add: sift_ix_def b_def c_def zs_def Let_def)
  have b: "max_path cmp xs n a b" "\<nexists>ch. child n b ch"
    using leaf_ix_path [OF cmp max_path_start, of xs n a] by (simp_all add: b_def)
  then have "\<forall>ch. child n b ch \<longrightarrow> 0 \<le> cmp (xs ! a) (xs ! ch)" by blast
  from climb_ix_path [OF cmp b(1) this] have c: "max_path cmp xs n a c"
    and below_c: "\<And>ch. child n c ch \<Longrightarrow> 0 \<le> cmp (xs ! a) (xs ! ch)"
    and above_c: "a < c \<Longrightarrow> 0 \<le> cmp (xs ! c) (xs ! a)"
    by (auto simp: c_def)
  have "c < length xs" using max_path_less [OF c an(1)] an(2) by simp
  from rotate_ix_spec [OF c _ refl order_refl this] have z:
    "length zs = length xs" "mset zs = mset xs" "zs ! c = xs ! a"
    "\<And>i. i \<noteq> c \<Longrightarrow> i \<notin> up_to a c \<Longrightarrow> zs ! i = xs ! i"
    "\<And>q. q \<in> insert c (up_to a c) \<Longrightarrow> a < q \<Longrightarrow> zs ! parent_ix q = xs ! q"
    by (auto simp: zs_def)
  have cn: "c < n" by (rule max_path_less [OF c an(1)])
  have upn: "i < n" if "i \<in> up_to a c" for i using up_to_less [OF that] cn by simp
  show "mset (sift_ix cmp n a xs) = mset xs" "length (sift_ix cmp n a xs) = length xs"
    using z by (simp_all add: sift)
  show "sift_ix cmp n a xs ! i = xs ! i" if "n \<le> i" for i
    unfolding sift using z(4) [of i] that cn upn by force
  have "0 \<le> cmp (zs ! i) (zs ! ch)" if ai: "a \<le> i" and ch: "child n i ch" for i ch
  proof -
    have pch: "parent_ix ch = i" "a < ch" using ch ai parent_less [of ch] by (auto simp: child_def)
    show ?thesis
    proof (cases "i \<in> up_to a c")
      case on: True
      from up_to_next [OF on] obtain q where q: "q \<in> insert c (up_to a c)" "a < q" "parent_ix q = i" by blast
      have zi: "zs ! i = xs ! q" using z(5) [OF q(1,2)] q(3) by simp
      have mq: "max_path cmp xs n a q" using q(1) c max_path_up [OF c] by blast
      show ?thesis
      proof (cases "ch = q")
        case True
        show ?thesis
        proof (cases "q = c")
          case qc: True
          then show ?thesis using True zi z(3) above_c q(2) by simp
        next
          case False
          with q(1) have "q \<in> up_to a c" by blast
          from up_to_next [OF this] obtain r where r: "r \<in> insert c (up_to a c)" "a < r" "parent_ix r = q" by blast
          have "child n q r" using max_path_parent(2) [of cmp xs n a r] r max_path_up [OF c, of r] c by blast
          then have "0 \<le> cmp (xs ! q) (xs ! r)" using heap q(2) by (auto simp: heap_from_def)
          moreover have "zs ! q = xs ! r" using z(5) [OF r(1,2)] r(3) by simp
          ultimately show ?thesis using True zi by simp
        qed
      next
        case False
        have "ch \<notin> insert c (up_to a c)"
          using up_to_unique [OF q(1) _ q(2) pch(2)] q(3) pch(1) False by auto
        then have "zs ! ch = xs ! ch" using z(4) by blast
        moreover have "0 \<le> cmp (xs ! q) (xs ! ch)"
          using max_path_parent(3) [OF mq q(2)] q(3) ch by blast
        ultimately show ?thesis using zi by simp
      qed
    next
      case off: False
      then have "ch \<notin> insert c (up_to a c)" using up_to_step [of ch c a] pch by blast
      then have zch: "zs ! ch = xs ! ch" using z(4) by blast
      show ?thesis
      proof (cases "i = c")
        case True
        with below_c ch zch z(3) show ?thesis by simp
      next
        case False
        have "a \<noteq> i"
        proof
          assume "a = i"
          with False max_path_ge [OF c] have "a < c" by simp
          with off \<open>a = i\<close> max_path_top [OF c] show False by blast
        qed
        then have "0 \<le> cmp (xs ! i) (xs ! ch)" using heap ai ch by (auto simp: heap_from_def)
        moreover have "zs ! i = xs ! i" using z(4) [OF False off] .
        ultimately show ?thesis using zch by simp
      qed
    qed
  qed
  then show "heap_from cmp (sift_ix cmp n a xs) n a" unfolding sift heap_from_def by blast
qed


lemma heap_root_max:
  assumes "comparison cmp" and "heap_from cmp xs n 0" and "i < n"
  shows "0 \<le> cmp (xs ! 0) (xs ! i)"
  using assms(3)
proof (induction i rule: less_induct)
  case (less i)
  show ?case
  proof (cases "i = 0")
    case True
    then show ?thesis by (simp add: comparison.ge_refl [OF assms(1)])
  next
    case False
    then have p: "parent_ix i < i" by (simp add: parent_less)
    then have "0 \<le> cmp (xs ! 0) (xs ! parent_ix i)" using less by simp
    moreover have "0 \<le> cmp (xs ! parent_ix i) (xs ! i)"
      using assms(2) False less.prems by (auto simp: heap_from_def child_def)
    ultimately show ?thesis by (rule comparison.ge_trans [OF assms(1)])
  qed
qed

text \<open>While the heap shrinks, everything behind it is at least what comes before.\<close>

definition tail_sorted :: "'a cmp \<Rightarrow> 'a list \<Rightarrow> nat \<Rightarrow> bool" where
  "tail_sorted cmp xs n \<longleftrightarrow> (\<forall>i j. i < j \<and> n \<le> j \<and> j < length xs \<longrightarrow> 0 \<le> cmp (xs ! j) (xs ! i))"

lemma take_set_eq:
  assumes "mset zs = mset ys" and "length zs = length ys" and "\<And>i. n \<le> i \<Longrightarrow> zs ! i = ys ! i"
  shows "set (take n zs) = set (take n ys)"
proof -
  have "drop n zs = drop n ys"
    using assms(2,3) by (intro nth_equalityI) simp_all
  moreover have "mset (take n zs) + mset (drop n zs) = mset (take n ys) + mset (drop n ys)"
    using assms(1) by (simp flip: mset_append)
  ultimately have "mset (take n zs) = mset (take n ys)" by simp
  then show ?thesis by (metis set_mset_mset)
qed

lemma extract_step:
  assumes cmp: "comparison cmp" and heap: "heap_from cmp xs n 0" and tail: "tail_sorted cmp xs n"
    and n: "1 < n" "n \<le> length xs"
  defines "zs \<equiv> sift_ix cmp (n - 1) 0 (swap_at 0 (n - 1) xs)"
  shows "heap_from cmp zs (n - 1) 0" and "tail_sorted cmp zs (n - 1)" and "mset zs = mset xs"
    and "length zs = length xs"
proof -
  define ys where "ys = swap_at 0 (n - 1) xs"
  have len: "0 < length xs" "n - 1 < length xs" using n by linarith+
  note sw = swap_at_nth [OF len, folded ys_def]
  have "heap_from cmp ys (n - 1) (Suc 0)"
    using heap by (auto simp: heap_from_def child_def sw parent_ix_def)
  from sift_ix_heap [OF cmp this] n have z: "heap_from cmp zs (n - 1) 0" "mset zs = mset ys"
    "length zs = length ys" "\<And>i. n - 1 \<le> i \<Longrightarrow> zs ! i = ys ! i"
    by (simp_all add: zs_def ys_def)
  show "heap_from cmp zs (n - 1) 0" by (rule z(1))
  show "mset zs = mset xs" using z(2) swap_at_mset [OF len] by (simp add: ys_def)
  show lz: "length zs = length xs" using z(3) by (simp add: ys_def)
  have early: "\<exists>k < n. zs ! i = xs ! k" if "i < n - 1" for i
  proof -
    have "zs ! i \<in> set (take (n - 1) zs)" using that n lz by (auto simp: in_set_conv_nth intro!: exI [of _ i])
    also have "set (take (n - 1) zs) = set (take (n - 1) ys)" by (rule take_set_eq [OF z(2,3,4)])
    finally obtain k where "k < n - 1" "zs ! i = ys ! k" by (auto simp: in_set_conv_nth)
    then have "zs ! i = xs ! (if k = 0 then n - 1 else k)" and "(if k = 0 then n - 1 else k) < n"
      using n by (auto simp: sw)
    then show ?thesis by blast
  qed
  have last: "zs ! (n - 1) = xs ! 0" using z(4) [of "n - 1"] by (simp add: sw)
  show "tail_sorted cmp zs (n - 1)" unfolding tail_sorted_def lz
  proof (intro allI impI)
    fix i j
    assume ij: "i < j \<and> n - 1 \<le> j \<and> j < length xs"
    show "0 \<le> cmp (zs ! j) (zs ! i)"
    proof (cases "j = n - 1")
      case True
      with early [of i] ij heap_root_max [OF cmp heap] last show ?thesis by auto
    next
      case False
      with ij have zj: "zs ! j = xs ! j" "n \<le> j" using z(4) [of j] n by (auto simp: sw)
      consider "i < n - 1" | "i = n - 1" | "n \<le> i" by linarith
      then show ?thesis
      proof cases
        case 1
        with early obtain k where "k < n" "zs ! i = xs ! k" by blast
        then show ?thesis using tail zj ij by (auto simp: tail_sorted_def)
      next
        case 2
        then show ?thesis using tail zj ij last n by (auto simp: tail_sorted_def)
      next
        case 3
        then have "zs ! i = xs ! i" using z(4) [of i] n by (auto simp: sw)
        then show ?thesis using tail zj ij by (auto simp: tail_sorted_def)
      qed
    qed
  qed
qed

lemma sort_ix_extract:
  assumes "comparison cmp" and "heap_from cmp xs n 0" and "tail_sorted cmp xs n" and "n \<le> length xs"
  shows "tail_sorted cmp (sort_ix cmp 0 n xs) 1 \<and> mset (sort_ix cmp 0 n xs) = mset xs"
  using assms(2-4)
proof (induction n arbitrary: xs rule: less_induct)
  case (less n)
  show ?case
  proof (cases "1 < n")
    case True
    note st = extract_step [OF assms(1) less.prems(1,2) True less.prems(3)]
    let ?zs = "sift_ix cmp (n - 1) 0 (swap_at 0 (n - 1) xs)"
    have "sort_ix cmp 0 n xs = sort_ix cmp 0 (n - 1) ?zs" using True by (subst sort_ix.simps) simp
    moreover have "n - 1 < n" "n - 1 \<le> length ?zs" using True st(4) less.prems(3) by simp_all
    ultimately show ?thesis using less.IH [OF _ st(1,2)] st(3) by simp
  next
    case False
    then have "sort_ix cmp 0 n xs = xs" by (subst sort_ix.simps) simp
    moreover have "tail_sorted cmp xs 1" using less.prems(2) False by (auto simp: tail_sorted_def)
    ultimately show ?thesis by simp
  qed
qed

lemma sort_ix_correct:
  assumes cmp: "comparison cmp" and "heap_from cmp xs (length xs) a" and "a \<le> length xs"
  shows "tail_sorted cmp (sort_ix cmp a (length xs) xs) 1
     \<and> mset (sort_ix cmp a (length xs) xs) = mset xs"
  using assms(2,3)
proof (induction a arbitrary: xs)
  case 0
  then show ?case using sort_ix_extract [OF cmp] by (simp add: tail_sorted_def)
next
  case (Suc a)
  let ?ys = "sift_ix cmp (length xs) a xs"
  note st = sift_ix_heap [OF cmp Suc.prems(1)]
  have "sort_ix cmp (Suc a) (length xs) xs = sort_ix cmp a (length xs) ?ys"
    by (subst sort_ix.simps) simp
  with Suc.IH [of ?ys] st Suc.prems(2) show ?case by simp
qed

lemma heapsort_ix_sorts:
  assumes "comparison cmp"
  shows "sorted_wrt (\<lambda>x y. 0 \<le> cmp y x) (heapsort_ix cmp xs) \<and> mset (heapsort_ix cmp xs) = mset xs"
proof -
  have "heap_from cmp xs (length xs) (length xs div 2)" by (auto simp: heap_from_def child_iff)
  from sort_ix_correct [OF assms this]
  have "tail_sorted cmp (heapsort_ix cmp xs) 1" "mset (heapsort_ix cmp xs) = mset xs"
    by (simp_all add: heapsort_ix_def)
  then show ?thesis by (auto simp: tail_sorted_def sorted_wrt_iff_nth_less)
qed


section \<open>From byte offsets to indices\<close>

text \<open>
  The hypotheses of the refinement: the element sz is not 0, and twice the array (plus one
  element) fits the address space, so that \<open>2 * b + sz\<close> does not wrap.
\<close>

definition off :: "u32 \<Rightarrow> nat \<Rightarrow> u32" where
  "off sz k = of_nat (k * unat sz)"

definition fits :: "u32 \<Rightarrow> nat \<Rightarrow> bool" where
  "fits sz k \<longleftrightarrow> sz \<noteq> 0 \<and> k * unat sz < 2 ^ 32"

lemma fits_mono: "fits sz k \<Longrightarrow> j \<le> k \<Longrightarrow> fits sz j"
  by (auto simp: fits_def intro: order_le_less_trans [OF mult_le_mono1])

lemma unat_off: "fits sz k \<Longrightarrow> unat (off sz k) = k * unat sz"
  unfolding off_def fits_def by (intro unat_of_nat_small) simp

lemma sz_pos: "fits sz k \<Longrightarrow> 0 < unat sz"
  by (simp add: fits_def unat_gt_0)

lemma off_less: "fits sz j \<Longrightarrow> fits sz k \<Longrightarrow> off sz j < off sz k \<longleftrightarrow> j < k"
  by (simp add: word_less_nat_alt unat_off sz_pos)

lemma off_eq: "fits sz j \<Longrightarrow> fits sz k \<Longrightarrow> off sz j = off sz k \<longleftrightarrow> j = k"
  using sz_pos [of sz j] by (simp add: word_unat_eq_iff unat_off)

lemma off_0 [simp]: "off sz 0 = 0"
  by (simp add: off_def)

lemma off_add: "off sz j + off sz k = off sz (j + k)"
  by (simp add: off_def distrib_right)

lemma off_1: "sz = off sz 1"
  by (simp add: off_def)

lemma off_next: "off sz k + sz = off sz (k + 1)"
  by (simp add: off_def distrib_right)

lemma off_left: "2 * off sz b + sz = off sz (2 * b + 1)"
  by (simp add: off_def distrib_right)

lemma off_pred: "0 < k \<Longrightarrow> off sz k - sz = off sz (k - 1)"
  using off_next [of sz "k - 1"] by (simp add: algebra_simps)

lemma elem_at_off: "fits sz k \<Longrightarrow> elem_at sz xs (off sz k) = xs ! k"
  using sz_pos [of sz k] by (simp add: elem_at_def unat_off)

lemma do_swap_off: "fits sz i \<Longrightarrow> fits sz j \<Longrightarrow> do_swap sz (off sz i) (off sz j) xs = swap_at i j xs"
  using sz_pos [of sz i] by (simp add: do_swap_def unat_off)

text \<open>The bit trick of \<open>parent\<close>: the bit \<open>lsbit\<close> of \<open>k * sz\<close> tells whether \<open>k\<close> is odd.\<close>

lemma bit_mult_odd:
  fixes k q :: nat
  assumes "odd q"
  shows "bit (k * (2 ^ n * q)) n \<longleftrightarrow> odd k"
  using assms by (simp add: bit_iff_odd ac_simps)

lemma parent_off:
  assumes f: "fits sz k" and k: "0 < k"
  shows "parent (off sz k) (sz AND - sz) sz = off sz (parent_ix k)"
proof -
  have s0: "sz \<noteq> 0" using f by (simp add: fits_def)
  define n where "n = ffs_word sz"
  from ffs_split [OF s0] obtain q where q: "odd q" "unat sz = 2 ^ n * q" by (auto simp: n_def)
  have ls: "sz AND - sz = 2 ^ n" unfolding n_def by (rule and_minus_lowest [OF s0])
  define i where "i = off sz (k - 1)"
  have fi: "fits sz (k - 1)" using f by (rule fits_mono) simp
  have ui: "unat i = (k - 1) * unat sz" unfolding i_def by (rule unat_off [OF fi])
  have n32: "n < 32" using ffs_less_length [OF s0] by (simp add: n_def)
  have bi: "bit i n \<longleftrightarrow> odd (k - 1)"
  proof -
    have "bit i n \<longleftrightarrow> bit (unat i) n" using n32 by (simp add: bit_unsigned_iff)
    then show ?thesis using bit_mult_odd [OF q(1)] by (simp add: ui q(2))
  qed
  have mask: "sz AND - (i AND 2 ^ n) = (if odd (k - 1) then sz else 0)"
  proof (cases "bit i n")
    case True
    then have "i AND 2 ^ n = 2 ^ n" by (intro bit_eqI) (auto simp: bit_simps)
    moreover have "sz AND - (2 ^ n) = sz"
    proof -
      have "- (2 ^ n) = NOT (mask n :: u32)" by (simp add: minus_exp_eq_not_mask)
      moreover have "unat (sz AND NOT (mask n)) = unat sz"
        using n32 q by (simp add: unat_and_not_mask)
      then have "sz AND NOT (mask n) = sz" by (simp only: word_unat_eq_iff)
      ultimately show ?thesis by simp
    qed
    ultimately show ?thesis using True bi by simp
  next
    case False
    then have "i AND 2 ^ n = 0" by (intro bit_eqI) (auto simp: bit_simps)
    then show ?thesis using False bi by simp
  qed
  have par: "parent (off sz k) (sz AND - sz) sz = (i - (if odd (k - 1) then sz else 0)) div 2"
    unfolding parent_def Let_def ls off_pred [OF k] i_def [symmetric] mask ..
  define j where "j = (if odd (k - 1) then k - 2 else k - 1)"
  have "i - (if odd (k - 1) then sz else 0) = off sz j"
  proof (cases "odd (k - 1)")
    case True
    then have "0 < k - 1" by (cases "k - 1") auto
    then show ?thesis using True off_pred [of "k - 1" sz] by (simp add: i_def j_def numeral_2_eq_2)
  qed (simp add: i_def j_def)
  moreover have "off sz j div 2 = off sz (parent_ix k)"
  proof -
    have fj: "fits sz j" using f by (rule fits_mono) (simp add: j_def)
    have fp: "fits sz (parent_ix k)" using f by (rule fits_mono) (simp add: parent_ix_def)
    have "j = 2 * parent_ix k" using k by (auto simp: j_def parent_ix_def elim!: oddE evenE)
    then have "unat (off sz j) = 2 * (parent_ix k * unat sz)" using unat_off [OF fj] by simp
    then have "unat (off sz j div 2) = unat (off sz (parent_ix k))"
      by (simp add: unat_div unat_off [OF fp])
    then show ?thesis by (simp only: word_unat_eq_iff)
  qed
  ultimately show ?thesis unfolding par by (simp only:)
qed


lemma parent_ix_le: "parent_ix k \<le> k"
  by (simp add: parent_ix_def)

lemma sort_leaf_off:
  assumes "fits sz (2 * n)" and "b < n"
  shows "sort_leaf cmp sz xs (off sz n) (off sz b) = Some (off sz (leaf_ix cmp xs n b))"
  using assms
proof (induction cmp xs n b rule: leaf_ix.induct)
  case (1 cmp xs n b)
  let ?c = "2 * b + 1" and ?d = "2 * b + 1 + 1"
  have f: "fits sz ?c" "fits sz ?d" "fits sz n" using "1.prems" by (auto intro: fits_mono)
  have eq: "sort_leaf cmp sz xs (off sz n) (off sz b) =
     (if ?d < n then sort_leaf cmp sz xs (off sz n) (off sz (if cmp (xs ! ?c) (xs ! ?d) \<ge> 0 then ?c else ?d))
      else Some (if ?d = n then off sz ?c else off sz b))"
    by (subst sort_leaf.simps)
       (simp only: Let_def off_left off_next off_less [OF f(2,3)] off_eq [OF f(2,3)] elem_at_off f
         if_distrib [of "off sz"])
  show ?case
  proof (cases "?d < n")
    case True
    then have "(if cmp (xs ! ?c) (xs ! ?d) \<ge> 0 then ?c else ?d) < n" by simp
    note IH = "1.IH" [OF refl refl True "1.prems"(1) this]
    have "leaf_ix cmp xs n b = leaf_ix cmp xs n (if cmp (xs ! ?c) (xs ! ?d) \<ge> 0 then ?c else ?d)"
      using True by (subst leaf_ix.simps) (simp only: Let_def if_True)
    then show ?thesis unfolding eq using IH True by (simp only: if_True)
  next
    case False
    then have "leaf_ix cmp xs n b = (if ?d = n then ?c else b)"
      by (subst leaf_ix.simps) (simp only: Let_def if_False)
    then show ?thesis unfolding eq using False by (simp only: if_False if_distrib [of "off sz"])
  qed
qed

lemma max_path_descend:
  assumes "max_path cmp xs n a b" and "b \<noteq> a"
  shows "a < b"
  using max_path_ge [OF assms(1)] assms(2) by simp

lemma sort_climb_off:
  assumes "fits sz n" and "max_path cmp xs n a b" and "a < n"
  shows "sort_climb cmp sz (sz AND - sz) xs (off sz a) (off sz b) = Some (off sz (climb_ix cmp xs a b))"
  using assms
proof (induction cmp xs a b rule: climb_ix.induct)
  case (1 cmp xs a b)
  have bn: "b < n" by (rule max_path_less [OF "1.prems"(2,3)])
  have f: "fits sz a" "fits sz b" using "1.prems"(1,3) bn by (auto intro: fits_mono)
  have ab: "b \<noteq> a \<longleftrightarrow> a < b" using max_path_ge [OF "1.prems"(2)] by auto
  show ?case
  proof (cases "a < b \<and> 0 \<le> cmp (xs ! a) (xs ! b)")
    case True
    then have p: "parent (off sz b) (sz AND - sz) sz = off sz (parent_ix b)" by (intro parent_off f) simp
    from True have "sort_climb cmp sz (sz AND - sz) xs (off sz a) (off sz b)
        = sort_climb cmp sz (sz AND - sz) xs (off sz a) (off sz (parent_ix b))"
      by (subst sort_climb.simps) (simp add: off_eq f elem_at_off p)
    with "1.IH" [OF True "1.prems"(1) max_path_parent(1) [OF "1.prems"(2)] "1.prems"(3)] True
    show ?thesis by (simp add: climb_ix.simps [of cmp xs a b])
  next
    case False
    then show ?thesis using ab
      by (subst sort_climb.simps, subst climb_ix.simps) (auto simp: off_eq f elem_at_off)
  qed
qed

lemma sort_rotate_off:
  assumes "fits sz n" and "max_path cmp ys n a b" and "a < n" and "c < n"
  shows "sort_rotate sz (sz AND - sz) (off sz a) (off sz b) (off sz c) xs = Some (rotate_ix a b c xs)"
  using assms
proof (induction a b c xs rule: rotate_ix.induct)
  case (1 a b c xs)
  have bn: "b < n" by (rule max_path_less [OF "1.prems"(2,3)])
  have f: "fits sz a" "fits sz b" "fits sz c" "fits sz (parent_ix b)"
    using "1.prems"(1,3,4) bn parent_ix_le [of b] by (auto intro: fits_mono)
  show ?case
  proof (cases "a < b")
    case True
    then have p: "parent (off sz b) (sz AND - sz) sz = off sz (parent_ix b)" by (intro parent_off f) simp
    from True have "sort_rotate sz (sz AND - sz) (off sz a) (off sz b) (off sz c) xs
        = sort_rotate sz (sz AND - sz) (off sz a) (off sz (parent_ix b)) (off sz c) (swap_at (parent_ix b) c xs)"
      by (subst sort_rotate.simps) (simp add: off_eq f p do_swap_off Let_def)
    with "1.IH" [OF True "1.prems"(1) max_path_parent(1) [OF "1.prems"(2) True] "1.prems"(3,4)] True
    show ?thesis by (simp add: rotate_ix.simps [of a b])
  next
    case False
    then have "b = a" using max_path_ge [OF "1.prems"(2)] by simp
    then show ?thesis by (subst sort_rotate.simps, subst rotate_ix.simps) simp
  qed
qed

lemma sort_sift_off:
  assumes cmp: "comparison cmp" and f: "fits sz (2 * n)" and an: "a < n"
  shows "sort_sift cmp sz (sz AND - sz) (off sz n) (off sz a) xs = Some (sift_ix cmp n a xs)"
proof -
  have fn: "fits sz n" using f by (rule fits_mono) simp
  let ?b = "leaf_ix cmp xs n a"
  have b: "max_path cmp xs n a ?b" "\<nexists>ch. child n ?b ch"
    using leaf_ix_path [OF cmp max_path_start, of xs n a] by simp_all
  then have c: "max_path cmp xs n a (climb_ix cmp xs a ?b)"
    using climb_ix_path [OF cmp b(1)] by blast
  show ?thesis
    unfolding sort_sift_def sort_leaf_off [OF f an] Option.bind.simps sort_climb_off [OF fn b(1) an]
      sort_rotate_off [OF fn c an max_path_less [OF c an]] sift_ix_def Let_def ..
qed

lemma sort_loop_off:
  assumes cmp: "comparison cmp" and "fits sz (2 * n)" and "a \<le> n" and "0 < n"
  shows "sort_loop cmp sz (sz AND - sz) (off sz a) (off sz n) xs = Some (sort_ix cmp a n xs)"
  using assms
proof (induction cmp a n xs rule: sort_ix.induct)
  case (1 cmp a n xs)
  have f: "fits sz a" "fits sz n" "fits sz 0" "fits sz (n - 1)" "fits sz (2 * (n - 1))"
    using "1.prems" by (auto intro: fits_mono)
  consider "0 < a" | "a = 0" "1 < n" | "a = 0" "n = 1" using "1.prems"(4) by linarith
  then show ?case
  proof cases
    case 1
    then have a1: "a - 1 < n" using "1.prems"(3) by simp
    have "off sz a \<noteq> 0" using off_eq [OF f(1,3)] 1 by simp
    moreover note off_pred [OF 1, of sz] sort_sift_off [OF "1.prems"(1,2) a1, of xs]
    ultimately have "sort_loop cmp sz (sz AND - sz) (off sz a) (off sz n) xs
        = sort_loop cmp sz (sz AND - sz) (off sz (a - 1)) (off sz n) (sift_ix cmp n (a - 1) xs)"
      by (subst sort_loop.simps) simp
    with "1.IH"(1) [OF 1 "1.prems"(1,2) _ "1.prems"(4)] 1 "1.prems"(3) show ?thesis
      by (simp add: sort_ix.simps [of cmp a])
  next
    case 2
    have n1: "0 < n - 1" using 2 by simp
    have "off sz (n - 1) \<noteq> 0" using off_eq [OF f(4,3)] n1 by simp
    moreover note off_pred [OF "1.prems"(4), of sz] do_swap_off [OF f(3,4), of xs]
      sort_sift_off [OF "1.prems"(1) f(5) n1, of "swap_at 0 (n - 1) xs"]
    ultimately have "sort_loop cmp sz (sz AND - sz) (off sz a) (off sz n) xs
        = sort_loop cmp sz (sz AND - sz) (off sz 0) (off sz (n - 1))
            (sift_ix cmp (n - 1) 0 (swap_at 0 (n - 1) xs))"
      using 2 by (subst sort_loop.simps) simp
    with "1.IH"(2) [OF _ 2(2) "1.prems"(1) f(5)] 2 show ?thesis
      by (simp add: sort_ix.simps [of cmp 0 n])
  next
    case 3
    then have "off sz n - sz = 0" using off_1 [of sz] by simp
    with 3 show ?thesis by (subst sort_loop.simps) (simp add: sort_ix.simps)
  qed
qed

lemma sort_r_refines:
  assumes cmp: "comparison cmp" and f: "fits sz (2 * unat num)" and len: "length xs = unat num"
  shows "sort_r cmp num sz xs = Some (heapsort_ix cmp xs)"
proof -
  let ?n = "unat num"
  have fn: "fits sz ?n" using f by (rule fits_mono) simp
  have fa: "fits sz (?n div 2)" using f by (rule fits_mono) simp
  have n: "num * sz = off sz ?n" by (simp add: off_def)
  have a: "num div 2 * sz = off sz (?n div 2)"
    using word_arith_nat_mult [of "num div 2" sz] by (simp add: off_def unat_div)
  have z: "off sz (?n div 2) = 0 \<longleftrightarrow> ?n div 2 = 0"
    using off_eq [OF fa fits_mono [OF f, of 0]] by simp
  show ?thesis
  proof (cases "?n div 2 = 0")
    case True
    then have "\<not> 1 < length xs" using len by simp
    then have "sort_ix cmp (length xs div 2) (length xs) xs = xs"
      using True len by (subst sort_ix.simps) simp
    then show ?thesis using True z by (simp add: sort_r_def Let_def a heapsort_ix_def)
  next
    case False
    have "sort_loop cmp sz (sz AND - sz) (off sz (?n div 2)) (off sz ?n) xs = Some (sort_ix cmp (?n div 2) ?n xs)"
      using False by (intro sort_loop_off [OF cmp f]) simp_all
    then show ?thesis using False z len by (simp add: sort_r_def Let_def a n heapsort_ix_def)
  qed
qed


section \<open>Binary search\<close>

text \<open>
  \<open>__inline_bsearch\<close>: the pointer \<open>base\<close> is an index into the list; the result is the index found.
\<close>

function bsearch :: "('k \<Rightarrow> 'a \<Rightarrow> int) \<Rightarrow> 'k \<Rightarrow> 'a list \<Rightarrow> nat \<Rightarrow> nat \<Rightarrow> nat option" where
  "bsearch cmp key xs base num =
     (if num > 0
      then let pivot = base + num div 2; result = cmp key (xs ! pivot)
           in if result = 0 then Some pivot
              else if result > 0 then bsearch cmp key xs (pivot + 1) ((num - 1) div 2)
              else bsearch cmp key xs base (num div 2)
      else None)"
  by pat_completeness auto
termination
  by (relation "measure (\<lambda>(cmp, key, xs, base, num). num)") auto

declare bsearch.simps [simp del]

text \<open>A list is ordered for a key when the elements below the key come first and those above last.\<close>

definition ordered_for :: "('k \<Rightarrow> 'a \<Rightarrow> int) \<Rightarrow> 'k \<Rightarrow> 'a list \<Rightarrow> bool" where
  "ordered_for cmp key xs \<longleftrightarrow> sorted_wrt (\<lambda>x y. (cmp key y > 0 \<longrightarrow> cmp key x > 0)
     \<and> (cmp key x < 0 \<longrightarrow> cmp key y < 0)) xs"

lemma bsearch_range:
  assumes "ordered_for cmp key xs" and "base + num \<le> length xs"
  shows "case bsearch cmp key xs base num of
      Some i \<Rightarrow> i < length xs \<and> cmp key (xs ! i) = 0
    | None \<Rightarrow> (\<forall>i. base \<le> i \<and> i < base + num \<longrightarrow> cmp key (xs ! i) \<noteq> 0)"
  using assms
proof (induction cmp key xs base num rule: bsearch.induct)
  case (1 cmp key xs base num)
  let ?p = "base + num div 2"
  have ord: "(0 < cmp key (xs ! j) \<longrightarrow> 0 < cmp key (xs ! i)) \<and> (cmp key (xs ! i) < 0 \<longrightarrow> cmp key (xs ! j) < 0)"
    if "i < j" "j < length xs" for i j
    using "1.prems"(1) that by (auto simp: ordered_for_def sorted_wrt_iff_nth_less)
  show ?case
  proof (cases "0 < num")
    case True
    then have p: "?p < base + num" by simp
    consider "cmp key (xs ! ?p) = 0" | "0 < cmp key (xs ! ?p)" | "cmp key (xs ! ?p) < 0" by linarith
    then show ?thesis
    proof cases
      case 1
      with True p "1.prems"(2) show ?thesis by (subst bsearch.simps) simp
    next
      case 2
      have eq: "bsearch cmp key xs base num = bsearch cmp key xs (?p + 1) ((num - 1) div 2)"
        using True 2 by (subst bsearch.simps) (simp add: Let_def)
      have low: "0 < cmp key (xs ! i)" if "i \<le> ?p" for i
        using ord [of i ?p] that 2 p "1.prems"(2) by (cases "i = ?p") auto
      have le: "?p + 1 + (num - 1) div 2 = base + num" using True by presburger
      have "cmp key (xs ! i) \<noteq> 0"
        if "\<forall>i. ?p + 1 \<le> i \<and> i < ?p + 1 + (num - 1) div 2 \<longrightarrow> cmp key (xs ! i) \<noteq> 0" "i < base + num" for i
        using that low [of i] le by (cases "i \<le> ?p") (auto simp: not_le)
      with "1.IH"(1) [OF True refl refl _ 2 "1.prems"(1)] 2 le "1.prems"(2) show ?thesis
        unfolding eq by (auto split: option.splits)
    next
      case 3
      have eq: "bsearch cmp key xs base num = bsearch cmp key xs base (num div 2)"
        using True 3 by (subst bsearch.simps) (simp add: Let_def)
      have high: "cmp key (xs ! i) < 0" if "?p \<le> i" "i < base + num" for i
        using ord [of ?p i] that 3 "1.prems"(2) by (cases "i = ?p") auto
      from "1.IH"(2) [OF True refl refl _ _ "1.prems"(1)] high 3 p "1.prems"(2) show ?thesis
        unfolding eq by (auto split: option.splits) (metis less_irrefl not_le)
    qed
  next
    case False
    then show ?thesis by (subst bsearch.simps) simp
  qed
qed

section \<open>Properties\<close>

text \<open>An ordering of integers as a comparison callback, for the examples.\<close>

definition int_cmp :: "int \<Rightarrow> int \<Rightarrow> int" where
  "int_cmp x y = x - y"

interpretation int_cmp: comparison int_cmp
  by unfold_locales (auto simp: int_cmp_def)

text \<open>
  \<^bold>\<open>C7\<close>. \<open>sort_r\<close> terminates and sorts: for every comparison that is a total preorder and every array
  whose double fits the address space, the byte-offset loops (with the bit trick of \<open>parent\<close>) return
  a permutation of the array in ascending order, and it is the array the index-level heapsort gives.
\<close>

theorem sort_r_sorts:
  assumes "comparison cmp" and "fits sz (2 * unat num)" and "length xs = unat num"
  shows "\<exists>ys. sort_r cmp num sz xs = Some ys \<and> ys = heapsort_ix cmp xs
    \<and> sorted_wrt (\<lambda>x y. 0 \<le> cmp y x) ys \<and> mset ys = mset xs"
  using sort_r_refines [OF assms] heapsort_ix_sorts [OF assms(1), of xs] by simp

theorem sort_r_sorts_witness:
  "\<exists>ys. sort_r int_cmp 5 12 [3, 1, 2, 5, 4] = Some ys \<and> sorted_wrt (\<lambda>x y. 0 \<le> int_cmp y x) ys
     \<and> mset ys = mset [3, 1, 2, 5, 4]"
  using sort_r_sorts [OF int_cmp.comparison_axioms, of 12 5 "[3, 1, 2, 5, 4]"] by (auto simp: fits_def)

text \<open>
  \<^bold>\<open>C15\<close>. \<open>bsearch\<close> on an array ordered for the key returns the index of an element that compares
  equal to the key, and \<open>NULL\<close> only when there is none.
\<close>

theorem bsearch_correct:
  assumes "ordered_for cmp key xs"
  shows "case bsearch cmp key xs 0 (length xs) of
      Some i \<Rightarrow> i < length xs \<and> cmp key (xs ! i) = 0
    | None \<Rightarrow> list_all (\<lambda>x. cmp key x \<noteq> 0) xs"
  using bsearch_range [OF assms, of 0 "length xs"] by (auto simp: list_all_length split: option.splits)

theorem bsearch_correct_witness:
  "bsearch int_cmp 7 [1, 3, 7, 9] 0 4 = Some 2
    \<and> (case bsearch int_cmp 7 [1, 3, 7, 9] 0 (length [1, 3, 7, 9 :: int]) of
      Some i \<Rightarrow> i < length [1, 3, 7, 9 :: int] \<and> int_cmp 7 ([1, 3, 7, 9] ! i) = 0
    | None \<Rightarrow> list_all (\<lambda>x. int_cmp 7 x \<noteq> 0) [1, 3, 7, 9])"
proof
  show "bsearch int_cmp 7 [1, 3, 7, 9] 0 4 = Some 2" by code_simp
  have "ordered_for int_cmp 7 [1, 3, 7, 9]" by (simp add: ordered_for_def int_cmp_def)
  from bsearch_correct [OF this] show "case bsearch int_cmp 7 [1, 3, 7, 9] 0 (length [1, 3, 7, 9 :: int]) of
      Some i \<Rightarrow> i < length [1, 3, 7, 9 :: int] \<and> int_cmp 7 ([1, 3, 7, 9] ! i) = 0
    | None \<Rightarrow> list_all (\<lambda>x. int_cmp 7 x \<noteq> 0) [1, 3, 7, 9]" .
qed

end
