(* ===== verification/Krange.thy ===== *)
theory Krange
  imports Ksort
begin

text \<open>
  The address range arrays of \<open>kernel/range.c\<close>: adding a range and merging it with those it touches,
  and packing and sorting an array. An entry whose \<open>end\<close> is 0 is unused. The sort is the one of
  theory \<open>Ksort\<close> with the comparison callback \<open>cmp_range\<close>.
\<close>

section \<open>Definitions\<close>

record krange =
  rstart :: u64
  rend :: u64

definition no_range :: krange where
  "no_range = \<lparr>rstart = 0, rend = 0\<rparr>"

definition add_range :: "krange list \<Rightarrow> nat \<Rightarrow> nat \<Rightarrow> u64 \<Rightarrow> u64 \<Rightarrow> krange list \<times> nat" where
  "add_range ranges az nr_range start fin =
     (if start \<ge> fin then (ranges, nr_range)
      else if nr_range \<ge> az then (ranges, nr_range)
      else (ranges[nr_range := \<lparr>rstart = start, rend = fin\<rparr>], nr_range + 1))"

text \<open>\<open>memmove(&range[i], &range[i + 1], ...)\<close> and clearing the last entry.\<close>

definition drop_range :: "krange list \<Rightarrow> nat \<Rightarrow> nat \<Rightarrow> krange list" where
  "drop_range ranges nr_range i =
     (take i ranges @ take (nr_range - (i + 1)) (drop (i + 1) ranges) @ drop (nr_range - 1) ranges)
       [nr_range - 1 := no_range]"

function merge_loop :: "krange list \<Rightarrow> nat \<Rightarrow> u64 \<Rightarrow> u64 \<Rightarrow> nat \<Rightarrow> krange list \<times> nat \<times> u64 \<times> u64" where
  "merge_loop ranges nr_range start fin i =
     (if i < nr_range then
        let r = ranges ! i in
        if rend r = 0 then merge_loop ranges nr_range start fin (i + 1)
        else
          let common_start = max (rstart r) start; common_end = min (rend r) fin in
          if common_start > common_end then merge_loop ranges nr_range start fin (i + 1)
          else merge_loop (drop_range ranges nr_range i) (nr_range - 1)
                 (min (rstart r) start) (max (rend r) fin) i
      else (ranges, nr_range, start, fin))"
  by pat_completeness auto
termination
  by (relation "measure (\<lambda>(ranges, nr_range, start, fin, i). nr_range - i)") auto

declare merge_loop.simps [simp del]

definition add_range_with_merge ::
    "krange list \<Rightarrow> nat \<Rightarrow> nat \<Rightarrow> u64 \<Rightarrow> u64 \<Rightarrow> krange list \<times> nat" where
  "add_range_with_merge ranges az nr_range start fin =
     (if start \<ge> fin then (ranges, nr_range)
      else case merge_loop ranges nr_range start fin 0 of
        (ranges, nr_range, start, fin) \<Rightarrow> add_range ranges az nr_range start fin)"

definition cmp_range :: "krange \<Rightarrow> krange \<Rightarrow> int" where
  "cmp_range r1 r2 =
     (if rstart r1 < rstart r2 then - 1 else if rstart r1 > rstart r2 then 1 else 0)"

fun last_used :: "krange list \<Rightarrow> nat \<Rightarrow> nat \<Rightarrow> nat option" where
  "last_used ranges i j =
     (if j > i then if rend (ranges ! j) \<noteq> 0 then Some j else last_used ranges i (j - 1)
      else None)"

declare last_used.simps [simp del]

lemma last_used_Some:
  "last_used ranges i k = Some j \<Longrightarrow> i < j \<and> j \<le> k \<and> rend (ranges ! j) \<noteq> 0 \<and> (\<forall>l. j < l \<and> l \<le> k \<longrightarrow> rend (ranges ! l) = 0)"
proof (induction ranges i k rule: last_used.induct)
  case (1 ranges i k)
  from "1.prems" have k: "i < k" by (subst (asm) last_used.simps) (auto split: if_splits)
  show ?case
  proof (cases "rend (ranges ! k) = 0")
    case True
    then have "last_used ranges i (k - 1) = Some j" using "1.prems" k by (subst (asm) last_used.simps) simp
    from "1.IH" [OF k _ this] True k have "i < j" "j \<le> k - 1" "rend (ranges ! j) \<noteq> 0"
      and z: "\<forall>l. j < l \<and> l \<le> k - 1 \<longrightarrow> rend (ranges ! l) = 0" by auto
    moreover have "rend (ranges ! l) = 0" if "j < l" "l \<le> k" for l
      using z True that by (cases "l = k") auto
    ultimately show ?thesis by auto
  next
    case False
    then show ?thesis using "1.prems" k by (subst (asm) last_used.simps) auto
  qed
qed

lemma last_used_None:
  "last_used ranges i k = None \<Longrightarrow> i < l \<Longrightarrow> l \<le> k \<Longrightarrow> rend (ranges ! l) = 0"
proof (induction ranges i k rule: last_used.induct)
  case (1 ranges i k)
  have k: "i < k" using "1.prems" by simp
  have z: "rend (ranges ! k) = 0" and n: "last_used ranges i (k - 1) = None"
    using "1.prems"(1) k by (subst (asm) last_used.simps; simp split: if_splits)+
  show ?case
    using "1.IH" [OF k _ n] z "1.prems"(2,3) by (cases "l = k") auto
qed

function pack_loop :: "krange list \<Rightarrow> nat \<Rightarrow> nat \<Rightarrow> krange list" where
  "pack_loop ranges i k =
     (if i < k then
        if rend (ranges ! i) \<noteq> 0 then pack_loop ranges (i + 1) k
        else case last_used ranges i k of
          None \<Rightarrow> ranges
        | Some j \<Rightarrow> pack_loop (ranges[i := ranges ! j, j := no_range]) (i + 1) (j - 1)
      else ranges)"
  by pat_completeness auto
termination
  by (relation "measure (\<lambda>(ranges, i, k). k - i)") (auto dest: last_used_Some)

declare pack_loop.simps [simp del]

function first_unused :: "krange list \<Rightarrow> nat \<Rightarrow> nat \<Rightarrow> nat" where
  "first_unused ranges i az =
     (if i < az then if rend (ranges ! i) = 0 then i else first_unused ranges (i + 1) az else az)"
  by pat_completeness auto
termination
  by (relation "measure (\<lambda>(ranges, i, az). az - i)") auto

declare first_unused.simps [simp del]

text \<open>The element size passed to \<open>sort\<close> is \<open>sizeof(struct range)\<close>, 16 bytes.\<close>

definition clean_sort_range :: "krange list \<Rightarrow> nat \<Rightarrow> (krange list \<times> nat) option" where
  "clean_sort_range ranges az =
     (let ranges = pack_loop ranges 0 (az - 1); nr_range = first_unused ranges 0 az
      in map_option (\<lambda>sorted. (sorted @ drop nr_range ranges, nr_range))
           (sort_r cmp_range (of_nat nr_range) 16 (take nr_range ranges)))"

section \<open>Merging\<close>

definition span :: "krange \<Rightarrow> u64 set" where
  "span r = {a. rstart r \<le> a \<and> a < rend r}"

definition spans :: "krange list \<Rightarrow> u64 set" where
  "spans rs = (\<Union>r\<in>set rs. span r)"

definition used_ok :: "krange list \<Rightarrow> bool" where
  "used_ok rs \<longleftrightarrow> list_all (\<lambda>r. rend r = 0 \<or> rstart r < rend r) rs"

definition apart :: "krange \<Rightarrow> krange \<Rightarrow> bool" where
  "apart r s \<longleftrightarrow> rend r = 0 \<or> rend s = 0 \<or> min (rend r) (rend s) < max (rstart r) (rstart s)"

definition all_apart :: "krange list \<Rightarrow> bool" where
  "all_apart rs \<longleftrightarrow> sorted_wrt apart rs"

lemma spans_simps [simp]:
  "spans [] = {}" "spans (r # rs) = span r \<union> spans rs" "spans (rs @ ss) = spans rs \<union> spans ss"
  by (auto simp: spans_def)

lemma apart_sym: "apart r s \<longleftrightarrow> apart s r"
  by (auto simp: apart_def min.commute max.commute)

lemma all_apart_append [simp]:
  "all_apart (rs @ ss) \<longleftrightarrow> all_apart rs \<and> all_apart ss \<and> (\<forall>r\<in>set rs. \<forall>s\<in>set ss. apart r s)"
  by (auto simp: all_apart_def sorted_wrt_append)

lemma all_apart_Nil [simp]: "all_apart []"
  by (simp add: all_apart_def)

lemma all_apart_Cons [simp]: "all_apart (r # rs) \<longleftrightarrow> (\<forall>s\<in>set rs. apart r s) \<and> all_apart rs"
  by (simp add: all_apart_def)

lemma span_hull:
  assumes "rstart r < rend r" and "s < f" and "max (rstart r) s \<le> min (rend r) f"
  shows "span \<lparr>rstart = min (rstart r) s, rend = max (rend r) f\<rparr> = span r \<union> span \<lparr>rstart = s, rend = f\<rparr>"
  using assms by (auto simp: span_def min_def max_def not_le not_less split: if_splits)

lemma apart_hull:
  assumes "apart x r" and "apart x \<lparr>rstart = s, rend = f\<rparr>" and "rend r \<noteq> 0" and "s < f"
    and "max (rstart r) s \<le> min (rend r) f"
  shows "apart x \<lparr>rstart = min (rstart r) s, rend = max (rend r) f\<rparr>"
proof -
  have "f \<noteq> 0" using assms(4) by auto
  then show ?thesis using assms by (auto simp: apart_def min_def max_def split: if_splits)
qed

lemma take_drop_range:
  assumes "i < n" and "n \<le> length rs"
  shows "take (n - 1) (drop_range rs n i) = take i rs @ drop (i + 1) (take n rs)"
    and "drop (n - 1) (drop_range rs n i) = no_range # drop n rs"
    and "length (drop_range rs n i) = length rs"
proof -
  have l: "length (take i rs @ take (n - (i + 1)) (drop (i + 1) rs)) = n - 1" using assms by simp
  then show "take (n - 1) (drop_range rs n i) = take i rs @ drop (i + 1) (take n rs)"
    using assms by (simp add: drop_range_def drop_take)
  have "drop (n - 1) rs = rs ! (n - 1) # drop n rs"
    using assms Cons_nth_drop_Suc [of "n - 1" rs] by simp
  then have "drop (n - 1) (drop_range rs n i) = (rs ! (n - 1) # drop n rs)[0 := no_range]"
    unfolding drop_range_def by (subst drop_update_swap) (use assms l in auto)
  then show "drop (n - 1) (drop_range rs n i) = no_range # drop n rs" by simp
  show "length (drop_range rs n i) = length rs" using assms by (simp add: drop_range_def)
qed

text \<open>What the loop keeps; \<open>A\<close> is the part of the array in use.\<close>

lemma merge_loop_spec:
  assumes "merge_loop rs n s f i = (rs', n', s', f')"
    and "i \<le> n" and "n \<le> length rs" and "s < f" and "used_ok (take n rs)" and "all_apart (take n rs)"
    and "\<forall>r\<in>set (take i rs). apart r \<lparr>rstart = s, rend = f\<rparr>"
  shows "length rs' = length rs \<and> n' \<le> n \<and> (n' = n \<longrightarrow> rs' = rs) \<and> s' < f'
    \<and> drop n' rs' = replicate (n - n') no_range @ drop n rs
    \<and> used_ok (take n' rs') \<and> all_apart (take n' rs')
    \<and> (\<forall>r\<in>set (take n' rs'). apart r \<lparr>rstart = s', rend = f'\<rparr>)
    \<and> spans (take n' rs') \<union> span \<lparr>rstart = s', rend = f'\<rparr> = spans (take n rs) \<union> span \<lparr>rstart = s, rend = f\<rparr>"
  using assms
proof (induction rs n s f i rule: merge_loop.induct)
  case (1 rs n s f i)
  show ?case
  proof (cases "i < n")
    case False
    then show ?thesis using "1.prems" by (subst (asm) merge_loop.simps) auto
  next
    case True
    define r where "r = rs ! i"
    have nth: "take (i + 1) rs = take i rs @ [r]"
      using True "1.prems"(3) by (simp add: r_def take_Suc_conv_app_nth)
    have A: "take n rs = take i rs @ r # drop (i + 1) (take n rs)"
      using True "1.prems"(3) id_take_nth_drop [of i "take n rs"] by (simp add: r_def min_def)
    show ?thesis
    proof (cases "apart r \<lparr>rstart = s, rend = f\<rparr>")
      case ap: True
      have f0: "f \<noteq> 0" using "1.prems"(4) by auto
      have eq: "merge_loop rs n s f (i + 1) = (rs', n', s', f')"
        using "1.prems"(1) True ap f0
        by (subst (asm) merge_loop.simps) (auto simp: r_def apart_def Let_def split: if_splits)
      have pre: "\<forall>r\<in>set (take (i + 1) rs). apart r \<lparr>rstart = s, rend = f\<rparr>"
        using ap "1.prems"(7) unfolding nth by auto
      show ?thesis
      proof (cases "rend r = 0")
        case z: True
        show ?thesis
          using "1.IH"(1) [OF True r_def z eq _ "1.prems"(3-6) pre] True by simp
      next
        case nz: False
        have "max (rstart r) s > min (rend r) f" using ap nz f0 by (auto simp: apart_def)
        then show ?thesis
          using "1.IH"(2) [OF True r_def nz refl refl _ eq _ "1.prems"(3-6) pre] True by simp
      qed
    next
      case False
      then have nz: "rend r \<noteq> 0" and t: "max (rstart r) s \<le> min (rend r) f" by (auto simp: apart_def not_less)
      let ?rs = "drop_range rs n i" and ?s = "min (rstart r) s" and ?f = "max (rend r) f"
      have eq: "merge_loop ?rs (n - 1) ?s ?f i = (rs', n', s', f')"
        using "1.prems"(1) True nz leD [OF t]
        by (subst (asm) merge_loop.simps) (simp add: r_def Let_def del: min_less_iff_disj less_max_iff_disj)
      note d = take_drop_range [OF True "1.prems"(3)]
      have ok: "rstart r < rend r" using "1.prems"(5) nz by (subst (asm) A) (auto simp: used_ok_def)
      have tk: "take i ?rs = take i rs"
      proof -
        have "take i ?rs = take i (take (n - 1) ?rs)" using True by (simp add: min_absorb1)
        then show ?thesis unfolding d(1) using True "1.prems"(3) by simp
      qed
      have pre: "\<forall>x\<in>set (take i ?rs). apart x \<lparr>rstart = ?s, rend = ?f\<rparr>"
      proof -
        have "\<forall>x\<in>set (take i rs). apart x r" using "1.prems"(6) by (subst (asm) A) simp
        then show ?thesis unfolding tk using "1.prems"(7) apart_hull [OF _ _ nz "1.prems"(4) t] by blast
      qed
      have lt: "?s < ?f" using "1.prems"(4) by (auto simp: min_def max_def)
      have uo: "used_ok (take (n - 1) ?rs)" using "1.prems"(5) unfolding d(1) used_ok_def by (subst (asm) A) simp
      have aa: "all_apart (take (n - 1) ?rs)" using "1.prems"(6) unfolding d(1) by (subst (asm) A) simp
      have "spans (take n rs) = spans (take (n - 1) ?rs) \<union> span r" unfolding d(1) by (subst A) auto
      then have sp: "spans (take (n - 1) ?rs) \<union> span \<lparr>rstart = ?s, rend = ?f\<rparr>
          = spans (take n rs) \<union> span \<lparr>rstart = s, rend = f\<rparr>"
        using span_hull [OF ok "1.prems"(4) t] by auto
      have ih: "length rs' = length ?rs \<and> n' \<le> n - 1 \<and> (n' = n - 1 \<longrightarrow> rs' = ?rs) \<and> s' < f'
        \<and> drop n' rs' = replicate (n - 1 - n') no_range @ drop (n - 1) ?rs
        \<and> used_ok (take n' rs') \<and> all_apart (take n' rs')
        \<and> (\<forall>r\<in>set (take n' rs'). apart r \<lparr>rstart = s', rend = f'\<rparr>)
        \<and> spans (take n' rs') \<union> span \<lparr>rstart = s', rend = f'\<rparr>
          = spans (take (n - 1) ?rs) \<union> span \<lparr>rstart = ?s, rend = ?f\<rparr>"
        by (rule "1.IH"(3) [OF True r_def nz refl refl _ eq _ _ lt uo aa pre])
          (use leD [OF t] True d(3) "1.prems"(3) in \<open>simp_all del: min_less_iff_disj less_max_iff_disj\<close>)
      have "replicate (n - 1 - n') no_range @ no_range # drop n rs = replicate (n - n') no_range @ drop n rs"
      proof -
        have "n - n' = Suc (n - 1 - n')" using ih True by auto
        then show ?thesis by (simp add: replicate_app_Cons_same)
      qed
      then show ?thesis using ih True unfolding sp d(2,3) by auto
    qed
  qed
qed


section \<open>Packing and sorting\<close>

definition used :: "krange \<Rightarrow> bool" where
  "used r \<longleftrightarrow> rend r \<noteq> 0"

lemma filter_mset_update:
  assumes "i < length rs"
  shows "add_mset (rs ! i) (mset (rs[i := x])) = add_mset x (mset rs)"
  using assms by (simp add: mset_update)

lemma filter_mset_move:
  assumes "i < length rs" and "j < length rs" and "i \<noteq> j" and "\<not> used (rs ! i)" and "used (rs ! j)"
  shows "filter_mset used (mset (rs[i := rs ! j, j := no_range])) = filter_mset used (mset rs)"
proof -
  have n: "\<not> used no_range" by (simp add: used_def no_range_def)
  have "add_mset (rs ! i) (mset (rs[i := rs ! j])) = add_mset (rs ! j) (mset rs)"
    using assms by (intro filter_mset_update) auto
  then have 1: "filter_mset used (mset (rs[i := rs ! j])) = add_mset (rs ! j) (filter_mset used (mset rs))"
    using assms(4,5) by (metis filter_mset_add_mset)
  have "add_mset (rs ! j) (mset (rs[i := rs ! j, j := no_range])) = add_mset no_range (mset (rs[i := rs ! j]))"
    using filter_mset_update [of j "rs[i := rs ! j]" no_range] assms by simp
  then have "add_mset (rs ! j) (filter_mset used (mset (rs[i := rs ! j, j := no_range])))
      = filter_mset used (mset (rs[i := rs ! j]))"
    using assms(5) n by (metis filter_mset_add_mset)
  then show ?thesis unfolding 1 by simp
qed

definition packed :: "krange list \<Rightarrow> bool" where
  "packed rs \<longleftrightarrow> (\<exists>m \<le> length rs. list_all used (take m rs) \<and> list_all (\<lambda>r. \<not> used r) (drop m rs))"

lemma packed_index:
  assumes "m \<le> length rs" and "\<And>l. l < m \<Longrightarrow> used (rs ! l)" and "\<And>l. m \<le> l \<Longrightarrow> l < length rs \<Longrightarrow> \<not> used (rs ! l)"
  shows "packed rs"
  unfolding packed_def using assms by (intro exI [of _ m]) (auto simp: list_all_length)

lemma pack_loop_spec:
  assumes "k < length rs" and "i \<le> k + 1" and "\<forall>l<i. used (rs ! l)"
    and "\<forall>l. k < l \<and> l < length rs \<longrightarrow> \<not> used (rs ! l)"
  shows "packed (pack_loop rs i k) \<and> length (pack_loop rs i k) = length rs
    \<and> filter_mset used (mset (pack_loop rs i k)) = filter_mset used (mset rs)"
  using assms
proof (induction rs i k rule: pack_loop.induct)
  case (1 rs i k)
  show ?case
  proof (cases "i < k")
    case False
    then have e: "pack_loop rs i k = rs" by (subst pack_loop.simps) simp
    have "packed rs"
    proof (cases "i = k \<and> used (rs ! k)")
      case True
      then show ?thesis
        using "1.prems" by (intro packed_index [of "k + 1"]) (auto simp: less_Suc_eq)
    next
      case f: False
      then show ?thesis
        using "1.prems" False by (intro packed_index [of i]) (metis le_antisym le_eq_less_or_eq less_or_eq_imp_le not_less not_less_eq_eq Suc_eq_plus1 order.trans)+
    qed
    then show ?thesis unfolding e by simp
  next
    case True
    show ?thesis
    proof (cases "used (rs ! i)")
      case u: True
      then have e: "pack_loop rs i k = pack_loop rs (i + 1) k" using True by (subst pack_loop.simps) (simp add: used_def)
      have "\<forall>l<i + 1. used (rs ! l)" using "1.prems"(3) u by (auto simp: less_Suc_eq)
      then show ?thesis unfolding e using "1.IH"(1) [OF True _ "1.prems"(1)] u True "1.prems"(4) by (simp add: used_def)
    next
      case u: False
      show ?thesis
      proof (cases "last_used rs i k")
        case None
        then have e: "pack_loop rs i k = rs" using True u by (subst pack_loop.simps) (simp add: used_def)
        have "\<not> used (rs ! l)" if "i \<le> l" "l < length rs" for l
          using last_used_None [OF None, of l] that u "1.prems"(4) by (cases "l = i"; cases "l \<le> k") (auto simp: used_def)
        then have "packed rs" using "1.prems"(1,3) True by (intro packed_index [of i]) auto
        then show ?thesis unfolding e by simp
      next
        case (Some j)
        let ?rs = "rs[i := rs ! j, j := no_range]"
        note j = last_used_Some [OF Some]
        have e: "pack_loop rs i k = pack_loop ?rs (i + 1) (j - 1)"
          using True u Some by (subst pack_loop.simps) (simp add: used_def)
        have mv: "filter_mset used (mset ?rs) = filter_mset used (mset rs)"
          using j u "1.prems"(1) by (intro filter_mset_move) (auto simp: used_def)
        have lo: "\<forall>l<i + 1. used (?rs ! l)"
          using j "1.prems"(1,3) by (auto simp: nth_list_update less_Suc_eq used_def)
        have hi: "\<forall>l. j - 1 < l \<and> l < length ?rs \<longrightarrow> \<not> used (?rs ! l)"
        proof (intro allI impI)
          fix l
          assume l: "j - 1 < l \<and> l < length ?rs"
          then have "l = j \<or> j < l \<and> l \<le> k \<or> k < l" by auto
          then show "\<not> used (?rs ! l)" using l j "1.prems"(1,4) by (auto simp: nth_list_update used_def no_range_def)
        qed
        show ?thesis unfolding e
          using "1.IH"(2) [OF True _ Some _ _ lo hi] u j "1.prems"(1) mv
          by (simp add: used_def [of "rs ! i"] Suc_le_eq less_imp_diff_less order.strict_trans1)
      qed
    qed
  qed
qed

lemma first_unused_spec:
  assumes "length rs = az" and "i \<le> m" and "m \<le> az" and "\<forall>l<m. used (rs ! l)" and "\<forall>l. m \<le> l \<and> l < az \<longrightarrow> \<not> used (rs ! l)"
  shows "first_unused rs i az = m"
  using assms
proof (induction rs i az rule: first_unused.induct)
  case (1 rs i az)
  show ?case
  proof (cases "i < m")
    case True
    then have "used (rs ! i)" "i < az" using "1.prems" by auto
    then show ?thesis using "1.IH" "1.prems" True by (subst first_unused.simps) (simp add: used_def)
  next
    case False
    then have "i = m" using "1.prems" by simp
    then show ?thesis using "1.prems" by (subst first_unused.simps) (auto simp: used_def)
  qed
qed

interpretation range_order: comparison cmp_range
  by unfold_locales (auto simp: cmp_range_def split: if_splits)

lemma cmp_range_ge: "0 \<le> cmp_range s r \<longleftrightarrow> rstart r \<le> rstart s"
  by (auto simp: cmp_range_def)

lemma clean_sort_range_spec:
  assumes "length rs = az" and "az < 2 ^ 27"
  obtains sorted unused where
    "clean_sort_range rs az = Some (sorted @ unused, length sorted)"
    and "list_all used sorted" and "list_all (\<lambda>r. \<not> used r) unused" and "sorted_wrt (\<lambda>r s. rstart r \<le> rstart s) sorted"
    and "mset sorted = filter_mset used (mset rs)" and "length (sorted @ unused) = az"
proof -
  define ps where "ps = pack_loop rs 0 (az - 1)"
  have ps: "packed ps \<and> length ps = az \<and> filter_mset used (mset ps) = filter_mset used (mset rs)"
  proof (cases "az = 0")
    case True
    then show ?thesis using assms(1) by (auto simp: ps_def pack_loop.simps packed_def)
  next
    case False
    then have "az - 1 < length rs" and "\<forall>l. az - 1 < l \<and> l < length rs \<longrightarrow> \<not> used (rs ! l)" using assms(1) by auto
    from pack_loop_spec [OF this(1) _ _ this(2), of 0] assms(1) show ?thesis by (simp add: ps_def)
  qed
  then obtain m where m: "m \<le> az" "list_all used (take m ps)" "list_all (\<lambda>r. \<not> used r) (drop m ps)"
    by (auto simp: packed_def)
  have f: "first_unused ps 0 az = m"
  proof (rule first_unused_spec)
    show "\<forall>l<m. used (ps ! l)" using ps m by (auto simp: list_all_length)
    show "\<forall>l. m \<le> l \<and> l < az \<longrightarrow> \<not> used (ps ! l)"
    proof (intro allI impI)
      fix l
      assume "m \<le> l \<and> l < az"
      then obtain d where "l = m + d" "d < az - m" by (metis le_add_diff_inverse diff_less_mono)
      then show "\<not> used (ps ! l)" using ps m(1,3) by (auto simp: list_all_length)
    qed
  qed (use ps m(1) in auto)
  have um: "unat (of_nat m :: u32) = m" using m(1) assms(2) by (intro unat_of_nat_small) simp
  have sr: "sort_r cmp_range (of_nat m) 16 (take m ps) = Some (heapsort_ix cmp_range (take m ps))"
    using m(1) ps assms(2)
    by (intro sort_r_refines range_order.comparison_axioms) (auto simp: um fits_def)
  note so = heapsort_ix_sorts [OF range_order.comparison_axioms, of "take m ps"]
  have ms: "mset (take m ps) = filter_mset used (mset rs)"
  proof -
    have "filter_mset used (mset ps) = filter_mset used (mset (take m ps @ drop m ps))" by simp
    also have "\<dots> = mset (take m ps)"
    proof -
      have "filter used (take m ps) = take m ps" "filter used (drop m ps) = []"
        using m(2,3) by (simp_all add: list_all_iff filter_empty_conv)
      then show ?thesis by (simp only: mset_filter [symmetric] filter_append append_Nil2)
    qed
    finally show ?thesis using ps by simp
  qed
  show thesis
  proof (rule that [of "heapsort_ix cmp_range (take m ps)" "drop m ps"])
    have "length (heapsort_ix cmp_range (take m ps)) = m"
      using so m(1) ps by (metis length_take min.absorb2 size_mset)
    then show "clean_sort_range rs az = Some (heapsort_ix cmp_range (take m ps) @ drop m ps,
        length (heapsort_ix cmp_range (take m ps)))"
      and "length (heapsort_ix cmp_range (take m ps) @ drop m ps) = az"
      using m(1) ps unfolding clean_sort_range_def ps_def [symmetric] by (simp_all add: f sr Let_def)
    show "list_all used (heapsort_ix cmp_range (take m ps))"
      using so m(2) by (metis list_all_iff set_mset_mset)
    show "sorted_wrt (\<lambda>r s. rstart r \<le> rstart s) (heapsort_ix cmp_range (take m ps))"
      using so by (simp add: cmp_range_ge)
  qed (use so m(3) ms in auto)
qed

section \<open>Properties\<close>

text \<open>
  \<^bold>\<open>C8\<close>. \<open>add_range_with_merge\<close> on an array with a free entry adds exactly the addresses of the new
  range: whatever entries it merges, the ranges in use afterwards cover the old ones and the request
  and nothing else, no two of them overlap or touch, and the entries it frees are cleared.
\<close>

theorem add_range_with_merge_exact:
  assumes "start < fin" and "nr < az" and "length ranges = az"
    and "used_ok (take nr ranges)" and "all_apart (take nr ranges)"
    and "add_range_with_merge ranges az nr start fin = (ranges', nr')"
  shows "spans (take nr' ranges') = spans (take nr ranges) \<union> {a. start \<le> a \<and> a < fin}
    \<and> used_ok (take nr' ranges') \<and> all_apart (take nr' ranges')
    \<and> length ranges' = az \<and> 0 < nr' \<and> nr' \<le> nr + 1
    \<and> drop nr' ranges' = replicate (nr - nr') no_range @ drop (max nr nr') ranges"
proof -
  obtain rs n s f where m: "merge_loop ranges nr start fin 0 = (rs, n, s, f)"
    by (cases "merge_loop ranges nr start fin 0") auto
  note sp = merge_loop_spec [OF m _ _ assms(1,4,5)]
  let ?new = "\<lparr>rstart = s, rend = f\<rparr>"
  have n: "n \<le> nr" "length rs = az" "s < f" "drop n rs = replicate (nr - n) no_range @ drop nr ranges"
      "used_ok (take n rs)" "all_apart (take n rs)" "\<forall>r\<in>set (take n rs). apart r ?new"
      "spans (take n rs) \<union> span ?new = spans (take nr ranges) \<union> span \<lparr>rstart = start, rend = fin\<rparr>"
    using sp assms(2,3) by simp_all
  have res: "ranges' = rs[n := ?new]" "nr' = n + 1"
    using assms(2,6) n(1) assms(1) [unfolded not_le [symmetric]] n(3) [unfolded not_le [symmetric]] by (simp_all add: add_range_with_merge_def m add_range_def)
  have tk: "take nr' ranges' = take n rs @ [?new]"
    using n(1,2) assms(2) by (simp add: res take_Suc_conv_app_nth)
  have "drop nr' ranges' = drop 1 (drop n rs)" by (simp add: res)
  then have dr: "drop nr' ranges' = replicate (nr - nr') no_range @ drop (max nr nr') ranges"
  proof (cases "n = nr")
    case False
    then obtain d where d: "nr = n + 1 + d" using n(1) by (metis Suc_eq_plus1 le_Suc_ex less_eq_Suc_le nat_less_le)
    then have "max nr nr' = nr" by (simp add: res)
    with \<open>drop nr' ranges' = _\<close> show ?thesis unfolding n(4) by (simp add: d res)
  next
    case True
    with \<open>drop nr' ranges' = _\<close> show ?thesis unfolding n(4) by (simp add: res)
  qed
  have "span \<lparr>rstart = start, rend = fin\<rparr> = {a. start \<le> a \<and> a < fin}" by (simp add: span_def)
  then show ?thesis unfolding tk dr using n res by (auto simp: used_ok_def)
qed

definition example_ranges :: "krange list" where
  "example_ranges = [\<lparr>rstart = 10, rend = 20\<rparr>, \<lparr>rstart = 40, rend = 50\<rparr>, \<lparr>rstart = 25, rend = 30\<rparr>, no_range]"

theorem add_range_with_merge_exact_witness:
  "case add_range_with_merge example_ranges 4 3 20 26 of (ranges', nr') \<Rightarrow>
     nr' = 2 \<and> spans (take nr' ranges') = spans (take 3 example_ranges) \<union> {a. 20 \<le> a \<and> a < 26}"
proof -
  have e: "add_range_with_merge example_ranges 4 3 20 26
      = ([\<lparr>rstart = 40, rend = 50\<rparr>, \<lparr>rstart = 10, rend = 30\<rparr>, no_range, no_range], 2)"
    by (simp add: example_ranges_def add_range_with_merge_def merge_loop.simps add_range_def drop_range_def no_range_def Let_def)
  show ?thesis
    unfolding e using add_range_with_merge_exact [OF _ _ _ _ _ e]
    by (simp add: example_ranges_def used_ok_def no_range_def apart_def)
qed

text \<open>
  \<^bold>\<open>C9\<close>. \<open>clean_sort_range\<close> terminates; it returns the number of used entries, moves them to the
  front in ascending order of their starts, loses and invents none, and leaves only unused entries
  behind them.
\<close>

theorem clean_sort_range_correct:
  assumes "length ranges = az" and "az < 2 ^ 27"
  shows "\<exists>ranges' nr. clean_sort_range ranges az = Some (ranges', nr) \<and> length ranges' = az
    \<and> nr = length (filter used ranges) \<and> mset (take nr ranges') = mset (filter used ranges)
    \<and> sorted_wrt (\<lambda>r s. rstart r \<le> rstart s) (take nr ranges') \<and> filter used (drop nr ranges') = []"
proof -
  obtain ss us where s: "clean_sort_range ranges az = Some (ss @ us, length ss)" "list_all (\<lambda>r. \<not> used r) us"
    "sorted_wrt (\<lambda>r s. rstart r \<le> rstart s) ss" "mset ss = filter_mset used (mset ranges)" "length (ss @ us) = az"
    using clean_sort_range_spec [OF assms] by metis
  have "length ss = length (filter used ranges)" using arg_cong [OF s(4), of size] by (simp flip: mset_filter)
  then show ?thesis using s by (intro exI [of _ "ss @ us"] exI [of _ "length ss"]) (auto simp: list_all_iff filter_empty_conv)
qed

theorem clean_sort_range_correct_witness:
  "\<exists>ranges' nr. clean_sort_range (no_range # example_ranges) 5 = Some (ranges', nr) \<and> nr = 3
    \<and> sorted_wrt (\<lambda>r s. rstart r \<le> rstart s) (take nr ranges')
    \<and> mset (take nr ranges') = mset (filter used (no_range # example_ranges))"
proof -
  have "filter used (no_range # example_ranges) = take 3 example_ranges"
    by (simp add: example_ranges_def used_def no_range_def)
  then show ?thesis
    using clean_sort_range_correct [of "no_range # example_ranges" 5]
    by (auto simp: example_ranges_def used_def no_range_def numeral_3_eq_3)
qed

end
