(* ===== verification/Kconfig_Expr.thy ===== *)
theory Kconfig_Expr
  imports Kprelude
begin

text \<open>
  The expressions of the configuration language, \<open>scripts/kconfig/expr.c\<close>: their values, the
  comparison and the simplifications on which the visibility and the dependencies of every
  configuration symbol rest. This theory holds the data, the evaluation, the elimination of
  constants, the equality test and their lemmas.

  A pointer to a symbol is a \<open>sym\<close>: one of the three constant symbols of \<open>symbol.c\<close> or another one.
  What \<open>sym_calc_value\<close> stores in a symbol is a table, \<open>symtab\<close>. A logical expression is a tree of
  the node types that have a value; \<open>E_LIST\<close> and \<open>E_RANGE\<close> nodes, the member lists of choices and the
  bounds of numbers, never occur inside one.
\<close>

section \<open>Data\<close>

datatype tristate = Tno | Tmod | Tyes

fun tri_val :: "tristate \<Rightarrow> nat" where
  "tri_val Tno = 0"
| "tri_val Tmod = 1"
| "tri_val Tyes = 2"

lemma tri_val_inject [simp]: "tri_val a = tri_val b \<longleftrightarrow> a = b"
  by (cases a; cases b) auto

instantiation tristate :: linorder
begin

definition less_eq_tristate :: "tristate \<Rightarrow> tristate \<Rightarrow> bool" where
  "a \<le> b \<longleftrightarrow> tri_val a \<le> tri_val b"

definition less_tristate :: "tristate \<Rightarrow> tristate \<Rightarrow> bool" where
  "a < b \<longleftrightarrow> tri_val a < tri_val b"

instance
  by standard (auto simp: less_eq_tristate_def less_tristate_def)

end

datatype sym = symbol_yes | symbol_mod | symbol_no | Sym nat

datatype symbol_type = S_UNKNOWN | S_BOOLEAN | S_TRISTATE | S_INT | S_HEX | S_STRING

datatype rel = E_EQUAL | E_UNEQUAL | E_LTH | E_LEQ | E_GTH | E_GEQ

datatype conn = E_OR | E_AND

datatype expr =
  E_SYMBOL sym
| E_NOT expr
| E_BIN conn expr expr
| E_COMP rel sym sym

text \<open>\<open>stri\<close> and \<open>sval\<close> are \<open>curr\<close> after \<open>sym_calc_value\<close>; \<open>modules\<close> is the value of \<open>modules_sym\<close>.\<close>

record symtab =
  stype :: "sym \<Rightarrow> symbol_type"
  sconst :: "sym \<Rightarrow> bool"
  stri :: "sym \<Rightarrow> tristate"
  sval :: "sym \<Rightarrow> string"
  modules :: tristate

section \<open>Values\<close>

definition EXPR_OR :: "tristate \<Rightarrow> tristate \<Rightarrow> tristate" where
  "EXPR_OR dep1 dep2 = (if dep1 > dep2 then dep1 else dep2)"

definition EXPR_AND :: "tristate \<Rightarrow> tristate \<Rightarrow> tristate" where
  "EXPR_AND dep1 dep2 = (if dep1 < dep2 then dep1 else dep2)"

fun EXPR_NOT :: "tristate \<Rightarrow> tristate" where
  "EXPR_NOT Tno = Tyes"
| "EXPR_NOT Tmod = Tmod"
| "EXPR_NOT Tyes = Tno"

definition sym_get_string_value :: "symtab \<Rightarrow> sym \<Rightarrow> string" where
  "sym_get_string_value st s =
     (if stype st s = S_BOOLEAN \<or> stype st s = S_TRISTATE
      then case stri st s of
          Tno \<Rightarrow> ''n''
        | Tmod \<Rightarrow> if modules st = Tno then ''n'' else ''m''
        | Tyes \<Rightarrow> ''y''
      else sval st s)"

text \<open>
  The parts of the C library the evaluation uses: \<open>strcmp\<close>, and \<open>strtoll\<close> and \<open>strtoull\<close> (white
  space, sign, base prefix, digits, overflow). The result is the value, the number of characters
  read and whether \<open>errno\<close> is set.
\<close>

fun strcmp_sign :: "string \<Rightarrow> string \<Rightarrow> int" where
  "strcmp_sign [] [] = 0"
| "strcmp_sign [] (d # ds) = - 1"
| "strcmp_sign (c # cs) [] = 1"
| "strcmp_sign (c # cs) (d # ds) =
     (if c = d then strcmp_sign cs ds
      else if (of_char c :: nat) < of_char d then - 1 else 1)"

definition c_isspace :: "char \<Rightarrow> bool" where
  "c_isspace c \<longleftrightarrow> c = CHR '' '' \<or> (9 \<le> (of_char c :: nat) \<and> (of_char c :: nat) \<le> 13)"

definition digit_val :: "char \<Rightarrow> nat option" where
  "digit_val c =
     (let n = of_char c :: nat
      in if 48 \<le> n \<and> n \<le> 57 then Some (n - 48)
         else if 97 \<le> n \<and> n \<le> 122 then Some (n - 87)
         else if 65 \<le> n \<and> n \<le> 90 then Some (n - 55)
         else None)"

definition is_digit_in :: "nat \<Rightarrow> char \<Rightarrow> bool" where
  "is_digit_in base c = (case digit_val c of Some d \<Rightarrow> d < base | None \<Rightarrow> False)"

definition c_isxdigit :: "char \<Rightarrow> bool" where
  "c_isxdigit c = is_digit_in 16 c"

definition digits_val :: "nat \<Rightarrow> string \<Rightarrow> nat" where
  "digits_val base ds = foldl (\<lambda>v c. v * base + the (digit_val c)) 0 ds"

definition has_hex_prefix :: "string \<Rightarrow> bool" where
  "has_hex_prefix s =
     (case s of z # x # d # _ \<Rightarrow> z = CHR ''0'' \<and> (x = CHR ''x'' \<or> x = CHR ''X'') \<and> is_digit_in 16 d
      | _ \<Rightarrow> False)"

definition parse_number :: "string \<Rightarrow> nat \<Rightarrow> (bool \<times> nat \<times> nat) option" where
  "parse_number str base =
     (let ws = takeWhile c_isspace str; s = drop (length ws) str;
          neg = (case s of c # _ \<Rightarrow> c = CHR ''-'' | [] \<Rightarrow> False);
          signed = (case s of c # _ \<Rightarrow> c = CHR ''-'' \<or> c = CHR ''+'' | [] \<Rightarrow> False);
          s = (if signed then tl s else s);
          hex = (base = 0 \<or> base = 16) \<and> has_hex_prefix s;
          base = (if hex then 16
                  else if base = 0 then (case s of c # _ \<Rightarrow> if c = CHR ''0'' then 8 else 10 | [] \<Rightarrow> 10)
                  else base);
          s = (if hex then drop 2 s else s);
          ds = takeWhile (is_digit_in base) s
      in if ds = [] then None
         else Some (neg, digits_val base ds, length str - (length s - length ds)))"

definition strtoll :: "string \<Rightarrow> nat \<Rightarrow> int \<times> nat \<times> bool" where
  "strtoll str base =
     (case parse_number str base of
        None \<Rightarrow> (0, 0, False)
      | Some (neg, v, n) \<Rightarrow>
          let i = (if neg then - int v else int v)
          in if i > 2 ^ 63 - 1 then (2 ^ 63 - 1, n, True)
             else if i < - (2 ^ 63) then (- (2 ^ 63), n, True) else (i, n, False))"

definition strtoull :: "string \<Rightarrow> nat \<Rightarrow> int \<times> nat \<times> bool" where
  "strtoull str base =
     (case parse_number str base of
        None \<Rightarrow> (0, 0, False)
      | Some (neg, v, n) \<Rightarrow>
          if v \<ge> 2 ^ 64 then (2 ^ 64 - 1, n, True)
          else ((if neg then - int v else int v) mod 2 ^ 64, n, False))"

datatype string_value_kind = k_string | k_signed | k_unsigned

text \<open>The union \<open>string_value\<close> is its 64 bits.\<close>

definition expr_parse_string :: "string \<Rightarrow> symbol_type \<Rightarrow> string_value_kind \<times> u64" where
  "expr_parse_string str type =
     (if type = S_BOOLEAN \<or> type = S_TRISTATE
      then (k_signed,
            if strcmp_sign str ''n'' = 0 then 0
            else if strcmp_sign str ''m'' = 0 then 1
            else if strcmp_sign str ''y'' = 0 then 2 else - 1)
      else
        let (val, n, err) = (if type = S_INT then strtoll str 10
                             else if type = S_HEX then strtoull str 16
                             else strtoll str 0);
            kind = (if type = S_HEX then k_unsigned else k_signed)
        in (if \<not> err \<and> n = length str \<and> n > 0 \<and> c_isxdigit (str ! (n - 1)) then kind else k_string,
            word_of_int val))"

definition sign_diff :: "bool \<Rightarrow> bool \<Rightarrow> int" where
  "sign_diff g l = of_bool g - of_bool l"

text \<open>The number \<open>res\<close> that \<open>expr_calc_value\<close> computes for a comparison.\<close>

definition comp_res :: "symtab \<Rightarrow> sym \<Rightarrow> sym \<Rightarrow> int" where
  "comp_res st l r =
     (let str1 = sym_get_string_value st l; str2 = sym_get_string_value st r;
          both = (stype st l = S_STRING \<and> stype st r = S_STRING);
          (k1, lval) = (if both then (k_string, 0) else expr_parse_string str1 (stype st l));
          (k2, rval) = (if both then (k_string, 0) else expr_parse_string str2 (stype st r))
      in if k1 = k_string \<or> k2 = k_string then strcmp_sign str1 str2
         else if k1 = k_unsigned \<or> k2 = k_unsigned then sign_diff (lval > rval) (lval < rval)
         else sign_diff (sint lval > sint rval) (sint lval < sint rval))"

fun rel_holds :: "rel \<Rightarrow> int \<Rightarrow> bool" where
  "rel_holds E_EQUAL res = (res = 0)"
| "rel_holds E_GEQ res = (res \<ge> 0)"
| "rel_holds E_GTH res = (res > 0)"
| "rel_holds E_LEQ res = (res \<le> 0)"
| "rel_holds E_LTH res = (res < 0)"
| "rel_holds E_UNEQUAL res = (res \<noteq> 0)"

fun expr_calc_value :: "symtab \<Rightarrow> expr \<Rightarrow> tristate" where
  "expr_calc_value st (E_SYMBOL s) = stri st s"
| "expr_calc_value st (E_BIN E_AND e1 e2) = EXPR_AND (expr_calc_value st e1) (expr_calc_value st e2)"
| "expr_calc_value st (E_BIN E_OR e1 e2) = EXPR_OR (expr_calc_value st e1) (expr_calc_value st e2)"
| "expr_calc_value st (E_NOT e) = EXPR_NOT (expr_calc_value st e)"
| "expr_calc_value st (E_COMP r a b) = (if rel_holds r (comp_res st a b) then Tyes else Tno)"

text \<open>A \<open>NULL\<close> expression is \<open>yes\<close>.\<close>

definition calc_value_ptr :: "symtab \<Rightarrow> expr option \<Rightarrow> tristate" where
  "calc_value_ptr st e = (case e of None \<Rightarrow> Tyes | Some e \<Rightarrow> expr_calc_value st e)"

section \<open>Building and copying\<close>

definition expr_alloc_and :: "expr option \<Rightarrow> expr option \<Rightarrow> expr option" where
  "expr_alloc_and e1 e2 =
     (case e1 of None \<Rightarrow> e2 | Some x \<Rightarrow> (case e2 of None \<Rightarrow> e1 | Some y \<Rightarrow> Some (E_BIN E_AND x y)))"

definition expr_alloc_or :: "expr option \<Rightarrow> expr option \<Rightarrow> expr option" where
  "expr_alloc_or e1 e2 =
     (case e1 of None \<Rightarrow> e2 | Some x \<Rightarrow> (case e2 of None \<Rightarrow> e1 | Some y \<Rightarrow> Some (E_BIN E_OR x y)))"

fun expr_copy :: "expr \<Rightarrow> expr" where
  "expr_copy (E_SYMBOL s) = E_SYMBOL s"
| "expr_copy (E_NOT e) = E_NOT (expr_copy e)"
| "expr_copy (E_COMP r a b) = E_COMP r a b"
| "expr_copy (E_BIN t l r) = E_BIN t (expr_copy l) (expr_copy r)"

lemma expr_copy_id [simp]: "expr_copy e = e"
  by (induction e) auto

definition expr_is_yes :: "expr option \<Rightarrow> bool" where
  "expr_is_yes e = (e = None \<or> e = Some (E_SYMBOL symbol_yes))"

section \<open>Eliminating constants and comparing\<close>

fun unit_of :: "conn \<Rightarrow> sym" where
  "unit_of E_OR = symbol_no"
| "unit_of E_AND = symbol_yes"

fun expr_eliminate_yn :: "expr \<Rightarrow> expr" where
  "expr_eliminate_yn (E_BIN E_AND l r) =
     (let l = expr_eliminate_yn l; r = expr_eliminate_yn r
      in if l = E_SYMBOL symbol_no then E_SYMBOL symbol_no
         else if l = E_SYMBOL symbol_yes then r
         else if r = E_SYMBOL symbol_no then E_SYMBOL symbol_no
         else if r = E_SYMBOL symbol_yes then l
         else E_BIN E_AND l r)"
| "expr_eliminate_yn (E_BIN E_OR l r) =
     (let l = expr_eliminate_yn l; r = expr_eliminate_yn r
      in if l = E_SYMBOL symbol_no then r
         else if l = E_SYMBOL symbol_yes then E_SYMBOL symbol_yes
         else if r = E_SYMBOL symbol_no then l
         else if r = E_SYMBOL symbol_yes then E_SYMBOL symbol_yes
         else E_BIN E_OR l r)"
| "expr_eliminate_yn e = e"

text \<open>The operands of a node of type \<open>t\<close>.\<close>

fun operands :: "conn \<Rightarrow> expr \<Rightarrow> (expr \<times> expr) option" where
  "operands t (E_BIN t' l r) = (if t' = t then Some (l, r) else None)"
| "operands t e = None"

text \<open>
  \<open>__expr_eliminate_eq\<close>, \<open>expr_eliminate_eq\<close> and \<open>expr_eq\<close> call each other. They rewrite the trees in
  place while they walk over them, so the first argument bounds the depth of the calls; the lemmas
  show that a bound computed from the sizes is always enough. The counter is \<open>trans_count\<close>, which
  \<open>expr_eq\<close> saves and restores.
\<close>

fun eliminate_eq1 :: "nat \<Rightarrow> conn \<Rightarrow> expr \<Rightarrow> expr \<Rightarrow> nat \<Rightarrow> (expr \<times> expr \<times> nat) option"
  and eliminate_eq_in :: "nat \<Rightarrow> expr \<Rightarrow> expr \<Rightarrow> nat \<Rightarrow> (expr \<times> expr \<times> nat) option"
  and expr_eq_in :: "nat \<Rightarrow> expr \<Rightarrow> expr \<Rightarrow> bool option" where
  "eliminate_eq1 0 t e1 e2 cnt = None"
| "eliminate_eq1 (Suc k) t e1 e2 cnt =
     (case operands t e1 of
        Some (l, r) \<Rightarrow>
          Option.bind (eliminate_eq1 k t l e2 cnt) (\<lambda>(l, e2, cnt).
          Option.bind (eliminate_eq1 k t r e2 cnt) (\<lambda>(r, e2, cnt). Some (E_BIN t l r, e2, cnt)))
      | None \<Rightarrow>
          (case operands t e2 of
             Some (l, r) \<Rightarrow>
               Option.bind (eliminate_eq1 k t e1 l cnt) (\<lambda>(e1, l, cnt).
               Option.bind (eliminate_eq1 k t e1 r cnt) (\<lambda>(e1, r, cnt). Some (e1, E_BIN t l r, cnt)))
           | None \<Rightarrow>
               if e1 = e2 \<and> (e1 = E_SYMBOL symbol_yes \<or> e1 = E_SYMBOL symbol_no) then Some (e1, e2, cnt)
               else Option.bind (expr_eq_in k e1 e2) (\<lambda>eq.
                 if \<not> eq then Some (e1, e2, cnt)
                 else Some (E_SYMBOL (unit_of t), E_SYMBOL (unit_of t), cnt + 1))))"
| "eliminate_eq_in 0 e1 e2 cnt = None"
| "eliminate_eq_in (Suc k) e1 e2 cnt =
     Option.bind (case e1 of E_BIN t _ _ \<Rightarrow> eliminate_eq1 k t e1 e2 cnt | _ \<Rightarrow> Some (e1, e2, cnt))
       (\<lambda>(e1, e2, cnt).
     Option.bind (case e2 of
         E_BIN t _ _ \<Rightarrow> if operands t e1 = None then eliminate_eq1 k t e1 e2 cnt else Some (e1, e2, cnt)
       | _ \<Rightarrow> Some (e1, e2, cnt))
       (\<lambda>(e1, e2, cnt). Some (expr_eliminate_yn e1, expr_eliminate_yn e2, cnt)))"
| "expr_eq_in 0 e1 e2 = None"
| "expr_eq_in (Suc k) e1 e2 =
     (case (e1, e2) of
        (E_COMP r a b, E_COMP r' a' b') \<Rightarrow> Some (r = r' \<and> a = a' \<and> b = b')
      | (E_SYMBOL s, E_SYMBOL s') \<Rightarrow> Some (s = s')
      | (E_NOT x, E_NOT y) \<Rightarrow> expr_eq_in k x y
      | (E_BIN t _ _, E_BIN t' _ _) \<Rightarrow>
          if t \<noteq> t' then Some False
          else Option.bind (eliminate_eq_in k e1 e2 0) (\<lambda>(e1, e2, cnt).
            Some (case (e1, e2) of (E_SYMBOL s, E_SYMBOL s') \<Rightarrow> s = s' | _ \<Rightarrow> False))
      | _ \<Rightarrow> Some False)"

fun esize :: "expr \<Rightarrow> nat" where
  "esize (E_SYMBOL s) = 1"
| "esize (E_NOT e) = 1 + esize e"
| "esize (E_BIN t l r) = 1 + esize l + esize r"
| "esize (E_COMP r a b) = 1"

definition expr_eq :: "expr \<Rightarrow> expr \<Rightarrow> bool" where
  "expr_eq e1 e2 = (expr_eq_in (4 * (esize e1 + esize e2)) e1 e2 = Some True)"

definition expr_eq_ptr :: "expr option \<Rightarrow> expr option \<Rightarrow> bool" where
  "expr_eq_ptr e1 e2 =
     (case (e1, e2) of
        (Some x, Some y) \<Rightarrow> expr_eq x y
      | _ \<Rightarrow> expr_is_yes e1 \<and> expr_is_yes e2)"

definition expr_eliminate_eq :: "expr option \<Rightarrow> expr option \<Rightarrow> nat \<Rightarrow> expr option \<times> expr option \<times> nat" where
  "expr_eliminate_eq e1 e2 cnt =
     (case (e1, e2) of
        (Some x, Some y) \<Rightarrow>
          (case eliminate_eq_in (4 * (esize x + esize y) + 4) x y cnt of
             Some (x, y, cnt) \<Rightarrow> (Some x, Some y, cnt)
           | None \<Rightarrow> (e1, e2, cnt))
      | _ \<Rightarrow> (e1, e2, cnt))"


section \<open>Tristate logic\<close>

fun conn_val :: "conn \<Rightarrow> tristate \<Rightarrow> tristate \<Rightarrow> tristate" where
  "conn_val E_OR = EXPR_OR"
| "conn_val E_AND = EXPR_AND"

lemma calc_value_BIN [simp]:
  "expr_calc_value st (E_BIN t l r) = conn_val t (expr_calc_value st l) (expr_calc_value st r)"
  by (cases t) auto

declare expr_calc_value.simps(2,3) [simp del]

lemma conn_val_max_min: "conn_val t a b = (case t of E_OR \<Rightarrow> max a b | E_AND \<Rightarrow> min a b)"
  by (cases t) (auto simp: EXPR_OR_def EXPR_AND_def max_def min_def)

lemma conn_val_comm: "conn_val t a b = conn_val t b a"
  by (simp add: conn_val_max_min max.commute min.commute split: conn.split)

lemma conn_val_assoc: "conn_val t (conn_val t a b) c = conn_val t a (conn_val t b c)"
  by (simp add: conn_val_max_min max.assoc min.assoc split: conn.split)

lemma conn_val_left_comm: "conn_val t a (conn_val t b c) = conn_val t b (conn_val t a c)"
  by (simp add: conn_val_max_min max.left_commute min.left_commute split: conn.split)

lemma conn_val_idem [simp]: "conn_val t a a = a"
  by (simp add: conn_val_max_min split: conn.split)

lemmas conn_val_ac = conn_val_assoc conn_val_comm conn_val_left_comm

fun unit_val :: "conn \<Rightarrow> tristate" where
  "unit_val E_OR = Tno"
| "unit_val E_AND = Tyes"

lemma conn_val_unit [simp]: "conn_val t (unit_val t) a = a" "conn_val t a (unit_val t) = a"
  by (cases t; cases a; simp add: EXPR_OR_def EXPR_AND_def less_tristate_def)+

lemma conn_val_const [simp]:
  "conn_val E_AND Tno a = Tno" "conn_val E_AND a Tno = Tno" "conn_val E_AND Tyes a = a" "conn_val E_AND a Tyes = a"
  "conn_val E_OR Tno a = a" "conn_val E_OR a Tno = a" "conn_val E_OR Tyes a = Tyes" "conn_val E_OR a Tyes = Tyes"
  by (cases a; simp add: EXPR_OR_def EXPR_AND_def less_tristate_def)+

declare conn_val.simps [simp del]

text \<open>
  Symbol tables as \<open>sym_calc_value\<close> leaves them: the constant symbols hold their values, a boolean
  symbol is never \<open>m\<close>, no symbol is \<open>m\<close> when modules are off, and no tristate symbol compares equal to
  two different constants.
\<close>

definition st_ok :: "symtab \<Rightarrow> bool" where
  "st_ok st \<longleftrightarrow>
     stri st symbol_yes = Tyes \<and> stri st symbol_mod = Tmod \<and> stri st symbol_no = Tno
     \<and> stype st symbol_yes = S_UNKNOWN \<and> stype st symbol_mod = S_UNKNOWN \<and> stype st symbol_no = S_UNKNOWN
     \<and> sval st symbol_yes = ''y'' \<and> sval st symbol_mod = ''m'' \<and> sval st symbol_no = ''n''
     \<and> (\<forall>s. stype st s = S_BOOLEAN \<longrightarrow> stri st s \<noteq> Tmod)
     \<and> (modules st = Tno \<longrightarrow> (\<forall>s. stype st s = S_TRISTATE \<longrightarrow> stri st s \<noteq> Tmod))
     \<and> (\<forall>s c d. stype st s = S_TRISTATE \<and> sconst st c \<and> sconst st d \<and> c \<noteq> d
          \<longrightarrow> comp_res st s c \<noteq> 0 \<or> comp_res st s d \<noteq> 0)"

lemma st_ok_consts [simp]:
  assumes "st_ok st"
  shows "stri st symbol_yes = Tyes" "stri st symbol_mod = Tmod" "stri st symbol_no = Tno"
    "stri st (unit_of t) = unit_val t"
  using assms by (cases t; simp add: st_ok_def)+

lemma expr_eliminate_yn_value [simp]:
  assumes "st_ok st"
  shows "expr_calc_value st (expr_eliminate_yn e) = expr_calc_value st e"
proof (induction e rule: expr_eliminate_yn.induct)
  case (1 l r)
  then show ?case using assms by (auto simp: Let_def dest: sym)
next
  case (2 l r)
  then show ?case using assms by (auto simp: Let_def dest: sym)
qed simp_all

section \<open>The equality test returns and is sound\<close>

lemma esize_pos [simp]: "0 < esize e"
  by (cases e) auto

lemma operands_Some: "operands t e = Some (l, r) \<longleftrightarrow> e = E_BIN t l r"
  by (cases e) auto

lemma esize_eliminate_yn: "esize (expr_eliminate_yn e) \<le> esize e"
  by (induction e rule: expr_eliminate_yn.induct) (auto simp: Let_def)

definition eliminated :: "conn \<Rightarrow> expr \<Rightarrow> expr \<Rightarrow> nat \<Rightarrow> (expr \<times> expr \<times> nat) option \<Rightarrow> bool" where
  "eliminated t e1 e2 cnt res \<longleftrightarrow>
     (\<exists>e1' e2' cnt'. res = Some (e1', e2', cnt') \<and> esize e1' \<le> esize e1 \<and> esize e2' \<le> esize e2
       \<and> (operands t e1' = None \<longleftrightarrow> operands t e1 = None) \<and> (operands t e2' = None \<longleftrightarrow> operands t e2 = None))"

lemma eliminated_bind1:
  assumes "eliminated t l e2 cnt (eliminate_eq1 k t l e2 cnt)"
    and "\<And>e2' cnt'. esize e2' \<le> esize e2 \<Longrightarrow> eliminated t r e2' cnt' (eliminate_eq1 k t r e2' cnt')"
  shows "eliminated t (E_BIN t l r) e2 cnt
    (Option.bind (eliminate_eq1 k t l e2 cnt) (\<lambda>(l, e2, cnt).
       Option.bind (eliminate_eq1 k t r e2 cnt) (\<lambda>(r, e2, cnt). Some (E_BIN t l r, e2, cnt))))"
proof -
  obtain l' e2' c' where 1: "eliminate_eq1 k t l e2 cnt = Some (l', e2', c')" "esize l' \<le> esize l"
    "esize e2' \<le> esize e2" "operands t e2' = None \<longleftrightarrow> operands t e2 = None"
    using assms(1) by (auto simp: eliminated_def)
  obtain r' e2'' c'' where 2: "eliminate_eq1 k t r e2' c' = Some (r', e2'', c'')" "esize r' \<le> esize r"
    "esize e2'' \<le> esize e2'" "operands t e2'' = None \<longleftrightarrow> operands t e2' = None"
    using assms(2) [OF 1(3), of c'] by (auto simp: eliminated_def)
  show ?thesis unfolding eliminated_def using 1 2 by simp
qed

lemma eliminated_bind2:
  assumes "eliminated t e1 l cnt (eliminate_eq1 k t e1 l cnt)"
    and "\<And>e1' cnt'. esize e1' \<le> esize e1 \<Longrightarrow> eliminated t e1' r cnt' (eliminate_eq1 k t e1' r cnt')"
  shows "eliminated t e1 (E_BIN t l r) cnt
    (Option.bind (eliminate_eq1 k t e1 l cnt) (\<lambda>(e1, l, cnt).
       Option.bind (eliminate_eq1 k t e1 r cnt) (\<lambda>(e1, r, cnt). Some (e1, E_BIN t l r, cnt))))"
proof -
  obtain e1' l' c' where 1: "eliminate_eq1 k t e1 l cnt = Some (e1', l', c')" "esize l' \<le> esize l"
    "esize e1' \<le> esize e1" "operands t e1' = None \<longleftrightarrow> operands t e1 = None"
    using assms(1) by (auto simp: eliminated_def)
  obtain e1'' r' c'' where 2: "eliminate_eq1 k t e1' r c' = Some (e1'', r', c'')" "esize r' \<le> esize r"
    "esize e1'' \<le> esize e1'" "operands t e1'' = None \<longleftrightarrow> operands t e1' = None"
    using assms(2) [OF 1(3), of c'] by (auto simp: eliminated_def)
  show ?thesis unfolding eliminated_def using 1 2 by simp
qed

definition enough_eq1 :: "nat \<Rightarrow> conn \<Rightarrow> expr \<Rightarrow> expr \<Rightarrow> bool" where
  "enough_eq1 k t e1 e2 \<longleftrightarrow> 4 * (esize e1 + esize e2) \<le> k + 2
     \<and> (operands t e1 = None \<and> operands t e2 = None \<longrightarrow> 4 * (esize e1 + esize e2) < k)"

lemma eq_fuel:
  "(enough_eq1 k t e1 e2 \<longrightarrow> eliminated t e1 e2 cnt (eliminate_eq1 k t e1 e2 cnt))
   \<and> (4 * (esize e1 + esize e2) \<le> k \<longrightarrow> expr_eq_in k e1 e2 \<noteq> None)"
proof (induction k arbitrary: t e1 e2 cnt rule: less_induct)
  case (less k)
  have el: "eliminated t e1 e2 cnt (eliminate_eq1 j t e1 e2 cnt)" if "j < k" "enough_eq1 j t e1 e2" for j t e1 e2 cnt
    using less that by blast
  have eq: "expr_eq_in j e1 e2 \<noteq> None" if "j < k" "4 * (esize e1 + esize e2) \<le> j" for j e1 e2
    using less that by blast
  have small: "enough_eq1 (k - 1) t x y" if "4 * (esize x + esize y) + 2 \<le> k" for x y t
    using that by (auto simp: enough_eq1_def)
  have A: "eliminated t e1 e2 cnt (eliminate_eq1 k t e1 e2 cnt)" if en: "enough_eq1 k t e1 e2"
  proof -
    have "4 * (esize e1 + esize e2) \<le> k + 2" using en by (simp add: enough_eq1_def)
    then have k: "0 < k" using Suc_leI [OF esize_pos [of e1]] by (cases k) auto
    then obtain j where j: "k = Suc j" by (cases k) auto
    show ?thesis
    proof (cases "operands t e1")
      case (Some p)
      then obtain l r where e1: "e1 = E_BIN t l r" by (cases p) (auto simp: operands_Some)
      have "enough_eq1 j t l e2" and "\<And>e2'. esize e2' \<le> esize e2 \<Longrightarrow> enough_eq1 j t r e2'"
        using small [of l e2 t] small [of r _ t] en esize_pos [of l] esize_pos [of r]
        by (auto simp: j e1 enough_eq1_def)
      then have "eliminated t (E_BIN t l r) e2 cnt
        (Option.bind (eliminate_eq1 j t l e2 cnt) (\<lambda>(l, e2, cnt).
           Option.bind (eliminate_eq1 j t r e2 cnt) (\<lambda>(r, e2, cnt). Some (E_BIN t l r, e2, cnt))))"
        by (intro eliminated_bind1 el) (auto simp: j)
      then show ?thesis by (simp add: j e1)
    next
      case n1: None
      show ?thesis
      proof (cases "operands t e2")
        case (Some p)
        then obtain l r where e2: "e2 = E_BIN t l r" by (cases p) (auto simp: operands_Some)
        have "enough_eq1 j t e1 l" and "\<And>e1'. esize e1' \<le> esize e1 \<Longrightarrow> enough_eq1 j t e1' r"
          using small [of e1 l t] small [of _ r t] en esize_pos [of l] esize_pos [of r]
          by (auto simp: j e2 enough_eq1_def)
        then have "eliminated t e1 (E_BIN t l r) cnt
          (Option.bind (eliminate_eq1 j t e1 l cnt) (\<lambda>(e1, l, cnt).
             Option.bind (eliminate_eq1 j t e1 r cnt) (\<lambda>(e1, r, cnt). Some (e1, E_BIN t l r, cnt))))"
          by (intro eliminated_bind2 el) (auto simp: j)
        then show ?thesis using n1 by (simp add: j e2)
      next
        case None
        then obtain b where "expr_eq_in j e1 e2 = Some b"
          using eq [of j e1 e2] en n1 by (auto simp: j enough_eq1_def)
        then show ?thesis
          using n1 None esize_pos [of e1] esize_pos [of e2] by (auto simp: j eliminated_def Suc_le_eq)
      qed
    qed
  qed
  have B: "expr_eq_in k e1 e2 \<noteq> None" if s: "4 * (esize e1 + esize e2) \<le> k"
  proof -
    obtain j where j: "k = Suc j" using s esize_pos [of e1] by (cases k) auto
    show ?thesis
    proof (cases "\<exists>t l r l' r'. e1 = E_BIN t l r \<and> e2 = E_BIN t l' r'")
      case True
      then obtain t l r l' r' where e: "e1 = E_BIN t l r" "e2 = E_BIN t l' r'" by blast
      obtain i where i: "j = Suc i" using s by (cases j) (auto simp: j e)
      have "enough_eq1 i t e1 e2" using s by (auto simp: enough_eq1_def j i e)
      then have "eliminated t e1 e2 0 (eliminate_eq1 i t e1 e2 0)" by (intro el) (auto simp: j i)
      then obtain a b c where "eliminate_eq1 i t e1 e2 0 = Some (a, b, c)" "operands t a \<noteq> None" "operands t b \<noteq> None"
        by (auto simp: eliminated_def e)
      moreover from this obtain al ar bl br where "a = E_BIN t al ar" "b = E_BIN t bl br"
        by (auto simp: operands_Some)
      ultimately have "eliminate_eq_in j e1 e2 0 = Some (expr_eliminate_yn a, expr_eliminate_yn b, c)"
        unfolding e by (simp add: i)
      then show ?thesis by (simp add: j e)
    next
      case False
      show ?thesis
      proof (cases "\<exists>x y. e1 = E_NOT x \<and> e2 = E_NOT y")
        case True
        then obtain x y where "e1 = E_NOT x" "e2 = E_NOT y" by blast
        then show ?thesis using eq [of j x y] s by (simp add: j)
      next
        case n: False
        then show ?thesis using False by (cases e1; cases e2) (auto simp: j)
      qed
    qed
  qed
  show ?case using A B by blast
qed

lemma expr_eq_in_returns: "\<exists>b. expr_eq_in (4 * (esize e1 + esize e2)) e1 e2 = Some b"
  using eq_fuel [of "4 * (esize e1 + esize e2)" _ e1 e2] by auto

definition removed :: "symtab \<Rightarrow> conn \<Rightarrow> expr \<Rightarrow> expr \<Rightarrow> expr \<Rightarrow> expr \<Rightarrow> bool" where
  "removed st t e1 e2 e1' e2' \<longleftrightarrow>
     (\<exists>c. expr_calc_value st e1 = conn_val t (expr_calc_value st e1') c
        \<and> expr_calc_value st e2 = conn_val t (expr_calc_value st e2') c)"

lemma removed_refl: "removed st t e1 e2 e1 e2"
  unfolding removed_def by (rule exI [of _ "unit_val t"]) simp

lemma removed_left:
  assumes "removed st t l e2 l' e2'" and "removed st t r e2' r' e2''"
  shows "removed st t (E_BIN t l r) e2 (E_BIN t l' r') e2''"
proof -
  obtain c d where "expr_calc_value st l = conn_val t (expr_calc_value st l') c"
    "expr_calc_value st e2 = conn_val t (expr_calc_value st e2') c"
    "expr_calc_value st r = conn_val t (expr_calc_value st r') d"
    "expr_calc_value st e2' = conn_val t (expr_calc_value st e2'') d"
    using assms by (auto simp: removed_def)
  then show ?thesis unfolding removed_def by (intro exI [of _ "conn_val t c d"]) (simp add: conn_val_ac)
qed

lemma removed_sym: "removed st t e1 e2 e1' e2' \<longleftrightarrow> removed st t e2 e1 e2' e1'"
  by (auto simp: removed_def)

lemma eliminate_eq1_operands:
  "eliminate_eq1 k t e1 e2 cnt = Some (a, b, c) \<Longrightarrow>
     (operands t a = None \<longleftrightarrow> operands t e1 = None) \<and> (operands t b = None \<longleftrightarrow> operands t e2 = None)"
proof (induction k arbitrary: e1 e2 cnt a b c)
  case (Suc k)
  consider (left) l r where "e1 = E_BIN t l r" | (right) l r where "operands t e1 = None" "e2 = E_BIN t l r"
    | (leaf) "operands t e1 = None" "operands t e2 = None"
    by (metis operands_Some not_Some_eq surj_pair)
  then show ?case
  proof cases
    case left
    then obtain l' x c1 r' c2 where s: "eliminate_eq1 k t l e2 cnt = Some (l', x, c1)"
      "eliminate_eq1 k t r x c1 = Some (r', b, c2)" "a = E_BIN t l' r'"
      using Suc.prems by (auto split: Option.bind_splits)
    show ?thesis using Suc.IH [OF s(1)] Suc.IH [OF s(2)] s(3) left by simp
  next
    case right
    then obtain x l' c1 r' c2 where s: "eliminate_eq1 k t e1 l cnt = Some (x, l', c1)"
      "eliminate_eq1 k t x r c1 = Some (a, r', c2)" "b = E_BIN t l' r'"
      using Suc.prems by (auto split: Option.bind_splits)
    show ?thesis using Suc.IH [OF s(1)] Suc.IH [OF s(2)] s(3) right by simp
  next
    case leaf
    then show ?thesis using Suc.prems by (auto split: Option.bind_splits if_splits)
  qed
qed simp

lemma eq_sound:
  assumes ok: "st_ok st"
  shows "(eliminate_eq1 k t e1 e2 cnt = Some (e1', e2', cnt') \<longrightarrow> removed st t e1 e2 e1' e2')
   \<and> (expr_eq_in k e1 e2 = Some True \<longrightarrow> expr_calc_value st e1 = expr_calc_value st e2)"
proof (induction k arbitrary: t e1 e2 cnt e1' e2' cnt' rule: less_induct)
  case (less k)
  have el: "removed st t e1 e2 e1' e2'" if "j < k" "eliminate_eq1 j t e1 e2 cnt = Some (e1', e2', cnt')"
    for j t e1 e2 cnt e1' e2' cnt' using less that by blast
  have eq: "expr_calc_value st e1 = expr_calc_value st e2" if "j < k" "expr_eq_in j e1 e2 = Some True" for j e1 e2
    using less that by blast
  have A: "removed st t e1 e2 e1' e2'" if res: "eliminate_eq1 k t e1 e2 cnt = Some (e1', e2', cnt')"
  proof -
    obtain j where j: "k = Suc j" using res by (cases k) auto
    consider (left) l r where "e1 = E_BIN t l r" | (right) l r where "operands t e1 = None" "e2 = E_BIN t l r"
      | (leaf) "operands t e1 = None" "operands t e2 = None"
      by (metis operands_Some not_Some_eq surj_pair)
    then show ?thesis
    proof cases
      case left
      then obtain l' x c1 r' c2 where "eliminate_eq1 j t l e2 cnt = Some (l', x, c1)"
        "eliminate_eq1 j t r x c1 = Some (r', e2', c2)" "e1' = E_BIN t l' r'"
        using res by (auto simp: j split: Option.bind_splits)
      then show ?thesis using removed_left el left by (simp add: j) blast
    next
      case right
      then obtain x l' c1 r' c2 where "eliminate_eq1 j t e1 l cnt = Some (x, l', c1)"
        "eliminate_eq1 j t x r c1 = Some (e1', r', c2)" "e2' = E_BIN t l' r'"
        using res by (auto simp: j split: Option.bind_splits)
      then have "removed st t e1 l x l'" "removed st t x r e1' r'" using el [of j] lessI [of j] unfolding j by blast+
      then show ?thesis
        using removed_left [of st t l e1 l' x r r' e1'] right \<open>e2' = _\<close> by (simp add: removed_sym)
    next
      case leaf
      show ?thesis
      proof (cases "e1' = e1 \<and> e2' = e2")
        case True
        then show ?thesis by (simp add: removed_refl)
      next
        case False
        then have "expr_eq_in j e1 e2 = Some True" "e1' = E_SYMBOL (unit_of t)" "e2' = E_SYMBOL (unit_of t)"
          using res leaf by (auto simp: j split: Option.bind_splits if_splits)
        then show ?thesis using eq [of j e1 e2] ok by (auto simp: removed_def j)
      qed
    qed
  qed
  have B: "expr_calc_value st e1 = expr_calc_value st e2" if res: "expr_eq_in k e1 e2 = Some True"
  proof -
    obtain j where j: "k = Suc j" using res by (cases k) auto
    show ?thesis
    proof (cases "\<exists>t l r. e1 = E_BIN t l r")
      case True
      then obtain t l r where e1: "e1 = E_BIN t l r" by blast
      with res obtain l' r' where e2: "e2 = E_BIN t l' r'" by (cases e2) (auto simp: j split: if_splits)
      from res obtain s c where "eliminate_eq_in j e1 e2 0 = Some (E_SYMBOL s, E_SYMBOL s, c)"
      proof -
        from res obtain a b c where r: "eliminate_eq_in j e1 e2 0 = Some (a, b, c)"
          "case (a, b) of (E_SYMBOL s, E_SYMBOL s') \<Rightarrow> s = s' | _ \<Rightarrow> False"
          by (auto simp: j e1 e2 split: Option.bind_splits)
        from r(2) have "\<exists>s. a = E_SYMBOL s \<and> b = E_SYMBOL s" by (cases a; cases b) auto
        with r(1) that show ?thesis by blast
      qed
      moreover from this obtain i where i: "j = Suc i" by (cases j) auto
      ultimately obtain a b c1 where 1: "eliminate_eq1 i t e1 e2 0 = Some (a, b, c1)"
        unfolding e1 e2 by (auto split: Option.bind_splits)
      have "operands t a \<noteq> None" "operands t b \<noteq> None" using eliminate_eq1_operands [OF 1] by (simp_all add: e1 e2)
      then obtain al ar bl br where ab: "a = E_BIN t al ar" "b = E_BIN t bl br" by (auto simp: operands_Some)
      have 3: "expr_eliminate_yn a = E_SYMBOL s" "expr_eliminate_yn b = E_SYMBOL s"
        using \<open>eliminate_eq_in j e1 e2 0 = _\<close> 1 unfolding e1 e2 i by (auto simp: ab)
      have "removed st t e1 e2 a b" using el [OF _ 1] by (simp add: j i)
      then show ?thesis using 3 expr_eliminate_yn_value [OF ok, of a] expr_eliminate_yn_value [OF ok, of b]
        by (auto simp: removed_def)
    next
      case False
      then show ?thesis using res eq [of j] by (cases e1; cases e2) (auto simp: j)
    qed
  qed
  show ?case using A B by blast
qed

lemma expr_eq_value:
  assumes "st_ok st" and "expr_eq e1 e2"
  shows "expr_calc_value st e1 = expr_calc_value st e2"
  using eq_sound [OF assms(1)] assms(2) unfolding expr_eq_def by blast

end
