(* ===== verification/Kconfig_Simplify.thy ===== *)
theory Kconfig_Simplify
  imports Kconfig_Expr
begin

text \<open>
  The simplifications of \<open>scripts/kconfig/expr.c\<close>: joining two operands, removing duplicates,
  pushing negations inwards, rewriting comparisons, and the dependency tests. The lemmas show that
  they return and keep the value of the expression.
\<close>

section \<open>Joining two operands\<close>

fun is_eq_rel :: "rel \<Rightarrow> bool" where
  "is_eq_rel r = (r = E_EQUAL \<or> r = E_UNEQUAL)"

fun join_sym1 :: "expr \<Rightarrow> sym option" where
  "join_sym1 (E_SYMBOL s) = Some s"
| "join_sym1 (E_COMP r a b) = (if is_eq_rel r then Some a else None)"
| "join_sym1 (E_NOT (E_SYMBOL s)) = Some s"
| "join_sym1 (E_NOT (E_COMP r a b)) = (if is_eq_rel r then Some a else None)"
| "join_sym1 _ = None"

fun join_sym2 :: "expr \<Rightarrow> sym option" where
  "join_sym2 (E_SYMBOL s) = Some s"
| "join_sym2 (E_COMP r a b) = (if is_eq_rel r then Some a else None)"
| "join_sym2 (E_NOT (E_SYMBOL s)) = Some s"
| "join_sym2 _ = None"

text \<open>Tests of the form \<open>e->type == E_EQUAL && e->right.sym == c\<close>.\<close>

fun comp_with :: "rel \<Rightarrow> sym \<Rightarrow> expr \<Rightarrow> bool" where
  "comp_with r c (E_COMP r' a b) = (r' = r \<and> b = c)"
| "comp_with r c _ = False"

definition both_comps :: "rel \<Rightarrow> sym \<Rightarrow> sym \<Rightarrow> expr \<Rightarrow> expr \<Rightarrow> bool" where
  "both_comps r c d e1 e2 =
     (comp_with r c e1 \<and> comp_with r d e2 \<or> comp_with r d e1 \<and> comp_with r c e2)"

fun is_symbol :: "expr \<Rightarrow> bool" where
  "is_symbol (E_SYMBOL s) = True"
| "is_symbol _ = False"

fun is_not_symbol :: "expr \<Rightarrow> bool" where
  "is_not_symbol (E_NOT (E_SYMBOL s)) = True"
| "is_not_symbol _ = False"

text \<open>The symbol both operands are about, after the tests the two functions share.\<close>

definition join_symbol :: "symtab \<Rightarrow> expr \<Rightarrow> expr \<Rightarrow> sym option" where
  "join_symbol st e1 e2 =
     (case (join_sym1 e1, join_sym2 e2) of
        (Some sym1, Some sym2) \<Rightarrow>
          if sym1 \<noteq> sym2 then None
          else if stype st sym1 \<noteq> S_BOOLEAN \<and> stype st sym1 \<noteq> S_TRISTATE then None
          else Some sym1
      | _ \<Rightarrow> None)"

definition expr_join_or :: "symtab \<Rightarrow> expr \<Rightarrow> expr \<Rightarrow> expr option" where
  "expr_join_or st e1 e2 =
     (if expr_eq e1 e2 then Some (expr_copy e1)
      else case join_symbol st e1 e2 of
        None \<Rightarrow> None
      | Some sym1 \<Rightarrow>
          if stype st sym1 = S_TRISTATE \<and> both_comps E_EQUAL symbol_yes symbol_mod e1 e2
          then Some (E_COMP E_UNEQUAL sym1 symbol_no)
          else if stype st sym1 = S_TRISTATE \<and> both_comps E_EQUAL symbol_yes symbol_no e1 e2
          then Some (E_COMP E_UNEQUAL sym1 symbol_mod)
          else if stype st sym1 = S_TRISTATE \<and> both_comps E_EQUAL symbol_mod symbol_no e1 e2
          then Some (E_COMP E_UNEQUAL sym1 symbol_yes)
          else if stype st sym1 = S_BOOLEAN
            \<and> (is_not_symbol e1 \<and> is_symbol e2 \<or> is_not_symbol e2 \<and> is_symbol e1)
          then Some (E_SYMBOL symbol_yes)
          else None)"

fun right_sym :: "expr \<Rightarrow> sym" where
  "right_sym (E_COMP r a b) = b"
| "right_sym _ = symbol_no"

fun has_rel :: "rel \<Rightarrow> expr \<Rightarrow> bool" where
  "has_rel r (E_COMP r' a b) = (r' = r)"
| "has_rel r _ = False"

definition join_eq_neq :: "symtab \<Rightarrow> sym \<Rightarrow> sym \<Rightarrow> sym \<Rightarrow> expr" where
  "join_eq_neq st sym1 eq neq =
     (if eq \<noteq> neq then E_COMP E_EQUAL sym1 eq else E_SYMBOL symbol_no)"

definition expr_join_and :: "symtab \<Rightarrow> expr \<Rightarrow> expr \<Rightarrow> expr option" where
  "expr_join_and st e1 e2 =
     (if expr_eq e1 e2 then Some (expr_copy e1)
      else case join_symbol st e1 e2 of
        None \<Rightarrow> None
      | Some sym1 \<Rightarrow>
          if is_symbol e1 \<and> comp_with E_EQUAL symbol_yes e2 \<or> is_symbol e2 \<and> comp_with E_EQUAL symbol_yes e1
          then Some (E_COMP E_EQUAL sym1 symbol_yes)
          else if is_symbol e1 \<and> comp_with E_UNEQUAL symbol_no e2 \<or> is_symbol e2 \<and> comp_with E_UNEQUAL symbol_no e1
          then Some (E_SYMBOL sym1)
          else if is_symbol e1 \<and> comp_with E_UNEQUAL symbol_mod e2 \<or> is_symbol e2 \<and> comp_with E_UNEQUAL symbol_mod e1
          then Some (E_COMP E_EQUAL sym1 symbol_yes)
          else if stype st sym1 = S_TRISTATE then
            if has_rel E_EQUAL e1 \<and> has_rel E_UNEQUAL e2 \<and> sconst st (right_sym e2) \<and> sconst st (right_sym e1)
            then Some (join_eq_neq st sym1 (right_sym e1) (right_sym e2))
            else if has_rel E_UNEQUAL e1 \<and> has_rel E_EQUAL e2 \<and> sconst st (right_sym e1) \<and> sconst st (right_sym e2)
            then Some (join_eq_neq st sym1 (right_sym e2) (right_sym e1))
            else if both_comps E_UNEQUAL symbol_yes symbol_no e1 e2
            then Some (E_COMP E_EQUAL sym1 symbol_mod)
            else if both_comps E_UNEQUAL symbol_yes symbol_mod e1 e2
            then Some (E_COMP E_EQUAL sym1 symbol_no)
            else if both_comps E_UNEQUAL symbol_mod symbol_no e1 e2
            then Some (E_COMP E_EQUAL sym1 symbol_yes)
            else None
          else None)"

fun expr_join :: "symtab \<Rightarrow> conn \<Rightarrow> expr \<Rightarrow> expr \<Rightarrow> expr option" where
  "expr_join st E_OR e1 e2 = expr_join_or st e1 e2"
| "expr_join st E_AND e1 e2 = expr_join_and st e1 e2"

section \<open>Removing duplicates\<close>

text \<open>
  \<open>expr_eliminate_dups1\<close> gets two pointers into one tree, at first the same one, and rewrites the
  tree through both. The two pointers are positions in the tree: the steps left (\<open>False\<close>) and right
  (\<open>True\<close>) from the root.
\<close>

type_synonym path = "bool list"

fun subterm :: "expr \<Rightarrow> path \<Rightarrow> expr" where
  "subterm e [] = e"
| "subterm (E_BIN t l r) (b # p) = subterm (if b then r else l) p"
| "subterm e (b # p) = e"

fun put :: "expr \<Rightarrow> path \<Rightarrow> expr \<Rightarrow> expr" where
  "put e [] x = x"
| "put (E_BIN t l r) (b # p) x = (if b then E_BIN t l (put r p x) else E_BIN t (put l p x) r)"
| "put e (b # p) x = e"

fun eliminate_dups1 ::
    "symtab \<Rightarrow> nat \<Rightarrow> conn \<Rightarrow> path \<Rightarrow> path \<Rightarrow> expr \<times> nat \<Rightarrow> (expr \<times> nat) option" where
  "eliminate_dups1 st 0 t p1 p2 ec = None"
| "eliminate_dups1 st (Suc k) t p1 p2 (e, cnt) =
     (if operands t (subterm e p1) \<noteq> None then
        Option.bind (eliminate_dups1 st k t (p1 @ [False]) p2 (e, cnt))
          (eliminate_dups1 st k t (p1 @ [True]) p2)
      else if operands t (subterm e p2) \<noteq> None then
        Option.bind (eliminate_dups1 st k t p1 (p2 @ [False]) (e, cnt))
          (eliminate_dups1 st k t p1 (p2 @ [True]))
      else if p1 = p2 then Some (e, cnt)
      else
        Option.bind (case subterm e p1 of
            E_BIN t' _ _ \<Rightarrow> eliminate_dups1 st k t' p1 p1 (e, cnt)
          | _ \<Rightarrow> Some (e, cnt))
        (\<lambda>(e, cnt).
           case expr_join st t (subterm e p1) (subterm e p2) of
             None \<Rightarrow> Some (e, cnt)
           | Some tmp \<Rightarrow> Some (put (put e p1 (E_SYMBOL (unit_of t))) p2 tmp, cnt + 1)))"

definition dups_fuel :: "nat \<Rightarrow> nat" where
  "dups_fuel n = 2 * n * (n + 1)"

fun eliminate_dups_loop :: "symtab \<Rightarrow> nat \<Rightarrow> expr \<Rightarrow> expr option" where
  "eliminate_dups_loop st 0 e = None"
| "eliminate_dups_loop st (Suc k) e =
     Option.bind (case e of
         E_BIN t _ _ \<Rightarrow> eliminate_dups1 st (dups_fuel (esize e)) t [] [] (e, 0)
       | _ \<Rightarrow> Some (e, 0))
     (\<lambda>(e, trans_count).
        if trans_count = 0 then Some e else eliminate_dups_loop st k (expr_eliminate_yn e))"

definition expr_eliminate_dups :: "symtab \<Rightarrow> expr \<Rightarrow> expr option" where
  "expr_eliminate_dups st e = eliminate_dups_loop st (esize e) e"

section \<open>Comparisons with constants\<close>

lemma strtoll_const:
  "strtoll ''y'' 0 = (0, 0, False)" "strtoll ''m'' 0 = (0, 0, False)" "strtoll ''n'' 0 = (0, 0, False)"
  by (simp_all add: strtoll_def parse_number_def c_isspace_def has_hex_prefix_def is_digit_in_def digit_val_def)

lemma parse_const:
  "fst (expr_parse_string ''y'' S_UNKNOWN) = k_string"
  "fst (expr_parse_string ''m'' S_UNKNOWN) = k_string"
  "fst (expr_parse_string ''n'' S_UNKNOWN) = k_string"
  unfolding expr_parse_string_def by (simp_all add: strtoll_const)

lemma st_ok_facts:
  assumes "st_ok st"
  shows "stype st symbol_yes = S_UNKNOWN" "stype st symbol_mod = S_UNKNOWN" "stype st symbol_no = S_UNKNOWN"
    and "sval st symbol_yes = ''y''" "sval st symbol_mod = ''m''" "sval st symbol_no = ''n''"
    and "stype st s = S_BOOLEAN \<Longrightarrow> stri st s \<noteq> Tmod"
    and "modules st = Tno \<Longrightarrow> stype st s = S_TRISTATE \<Longrightarrow> stri st s \<noteq> Tmod"
  using assms unfolding st_ok_def by blast+

lemma comp_res_const:
  assumes ok: "st_ok st" and s: "stype st s = S_BOOLEAN \<or> stype st s = S_TRISTATE"
  shows "comp_res st s symbol_yes = 0 \<longleftrightarrow> stri st s = Tyes"
    and "comp_res st s symbol_mod = 0 \<longleftrightarrow> stri st s = Tmod"
    and "comp_res st s symbol_no = 0 \<longleftrightarrow> stri st s = Tno"
proof -
  have v: "sym_get_string_value st symbol_yes = ''y''" "sym_get_string_value st symbol_mod = ''m''"
    "sym_get_string_value st symbol_no = ''n''"
    by (simp_all add: sym_get_string_value_def st_ok_facts [OF ok])
  note t = st_ok_facts(1-3) [OF ok]
  have m: "stri st s \<noteq> Tmod \<or> modules st \<noteq> Tno" using st_ok_facts(7,8) [OF ok] s by blast
  have eq: "comp_res st s c = strcmp_sign (sym_get_string_value st s) str"
    if "sym_get_string_value st c = str" "stype st c = S_UNKNOWN" "fst (expr_parse_string str S_UNKNOWN) = k_string"
    for c str
    unfolding comp_res_def Let_def case_prod_beta by (simp add: that)
  show "comp_res st s symbol_yes = 0 \<longleftrightarrow> stri st s = Tyes"
    unfolding eq [OF v(1) t(1) parse_const(1)] using s m by (auto simp: sym_get_string_value_def split: tristate.splits)
  show "comp_res st s symbol_mod = 0 \<longleftrightarrow> stri st s = Tmod"
    unfolding eq [OF v(2) t(2) parse_const(2)] using s m by (auto simp: sym_get_string_value_def split: tristate.splits)
  show "comp_res st s symbol_no = 0 \<longleftrightarrow> stri st s = Tno"
    unfolding eq [OF v(3) t(3) parse_const(3)] using s m by (auto simp: sym_get_string_value_def split: tristate.splits)
qed

lemma join_symbol_Some:
  assumes "join_symbol st e1 e2 = Some s"
  shows "join_sym1 e1 = Some s" "join_sym2 e2 = Some s" "stype st s = S_BOOLEAN \<or> stype st s = S_TRISTATE"
  using assms by (auto simp: join_symbol_def split: option.splits if_splits)

lemma comp_with_join1: "comp_with r c e \<Longrightarrow> join_sym1 e = Some s \<Longrightarrow> e = E_COMP r s c"
  by (cases "(r, c, e)" rule: comp_with.cases) (auto split: if_splits)

lemma comp_with_join2: "comp_with r c e \<Longrightarrow> join_sym2 e = Some s \<Longrightarrow> e = E_COMP r s c"
  by (cases "(r, c, e)" rule: comp_with.cases) (auto split: if_splits)

lemma has_rel_join1: "has_rel r e \<Longrightarrow> join_sym1 e = Some s \<Longrightarrow> e = E_COMP r s (right_sym e)"
  by (cases "(r, e)" rule: has_rel.cases) (auto split: if_splits)

lemma has_rel_join2: "has_rel r e \<Longrightarrow> join_sym2 e = Some s \<Longrightarrow> e = E_COMP r s (right_sym e)"
  by (cases "(r, e)" rule: has_rel.cases) (auto split: if_splits)

lemma is_symbol_join1: "is_symbol e \<Longrightarrow> join_sym1 e = Some s \<Longrightarrow> e = E_SYMBOL s"
  by (cases e rule: is_symbol.cases) auto

lemma is_symbol_join2: "is_symbol e \<Longrightarrow> join_sym2 e = Some s \<Longrightarrow> e = E_SYMBOL s"
  by (cases e rule: is_symbol.cases) auto

lemma is_not_symbol_join1: "is_not_symbol e \<Longrightarrow> join_sym1 e = Some s \<Longrightarrow> e = E_NOT (E_SYMBOL s)"
  by (cases e rule: is_not_symbol.cases) auto

lemma is_not_symbol_join2: "is_not_symbol e \<Longrightarrow> join_sym2 e = Some s \<Longrightarrow> e = E_NOT (E_SYMBOL s)"
  by (cases e rule: is_not_symbol.cases) auto

text \<open>The value of two comparisons joined, in either order.\<close>

lemma both_comps_value:
  assumes "both_comps r c d e1 e2" and "join_sym1 e1 = Some s" and "join_sym2 e2 = Some s"
  shows "conn_val t (expr_calc_value st e1) (expr_calc_value st e2)
    = conn_val t (expr_calc_value st (E_COMP r s c)) (expr_calc_value st (E_COMP r s d))"
proof -
  have "e1 = E_COMP r s c \<and> e2 = E_COMP r s d \<or> e1 = E_COMP r s d \<and> e2 = E_COMP r s c"
    using assms comp_with_join1 [OF _ assms(2)] comp_with_join2 [OF _ assms(3)] unfolding both_comps_def by blast
  then show ?thesis by (auto simp only: conn_val_comm)
qed

lemma sym_comp_value:
  assumes "is_symbol e1 \<and> comp_with r c e2 \<or> is_symbol e2 \<and> comp_with r c e1"
    and "join_sym1 e1 = Some s" and "join_sym2 e2 = Some s"
  shows "conn_val t (expr_calc_value st e1) (expr_calc_value st e2)
    = conn_val t (expr_calc_value st (E_SYMBOL s)) (expr_calc_value st (E_COMP r s c))"
proof -
  have "e1 = E_SYMBOL s \<and> e2 = E_COMP r s c \<or> e1 = E_COMP r s c \<and> e2 = E_SYMBOL s"
    using assms(1) comp_with_join1 [OF _ assms(2)] comp_with_join2 [OF _ assms(3)]
      is_symbol_join1 [OF _ assms(2)] is_symbol_join2 [OF _ assms(3)] by blast
  then show ?thesis by (auto simp only: conn_val_comm)
qed

lemma sym_not_value:
  assumes "is_not_symbol e1 \<and> is_symbol e2 \<or> is_not_symbol e2 \<and> is_symbol e1"
    and "join_sym1 e1 = Some s" and "join_sym2 e2 = Some s"
  shows "conn_val t (expr_calc_value st e1) (expr_calc_value st e2)
    = conn_val t (expr_calc_value st (E_SYMBOL s)) (expr_calc_value st (E_NOT (E_SYMBOL s)))"
proof -
  have "e1 = E_SYMBOL s \<and> e2 = E_NOT (E_SYMBOL s) \<or> e1 = E_NOT (E_SYMBOL s) \<and> e2 = E_SYMBOL s"
    using assms(1) is_not_symbol_join1 [OF _ assms(2)] is_not_symbol_join2 [OF _ assms(3)]
      is_symbol_join1 [OF _ assms(2)] is_symbol_join2 [OF _ assms(3)] by blast
  then show ?thesis by (auto simp only: conn_val_comm)
qed

lemma expr_join_or_value:
  assumes ok: "st_ok st" and x: "expr_join_or st e1 e2 = Some x"
  shows "expr_calc_value st x = conn_val E_OR (expr_calc_value st e1) (expr_calc_value st e2)"
proof (cases "expr_eq e1 e2")
  case True
  then show ?thesis using x expr_eq_value [OF ok True] by (simp add: expr_join_or_def)
next
  case False
  then obtain s where s: "join_symbol st e1 e2 = Some s" using x by (auto simp: expr_join_or_def split: option.splits)
  note j = join_symbol_Some [OF s]
  note c = comp_res_const [OF ok j(3)]
  have b: "stype st s = S_BOOLEAN \<Longrightarrow> stri st s \<noteq> Tmod" by (rule st_ok_facts(7) [OF ok])
  consider (ym) "both_comps E_EQUAL symbol_yes symbol_mod e1 e2" "x = E_COMP E_UNEQUAL s symbol_no"
    | (yn) "both_comps E_EQUAL symbol_yes symbol_no e1 e2" "x = E_COMP E_UNEQUAL s symbol_mod"
    | (mn) "both_comps E_EQUAL symbol_mod symbol_no e1 e2" "x = E_COMP E_UNEQUAL s symbol_yes"
    | (neg) "stype st s = S_BOOLEAN" "is_not_symbol e1 \<and> is_symbol e2 \<or> is_not_symbol e2 \<and> is_symbol e1"
        "x = E_SYMBOL symbol_yes"
    using x False s unfolding expr_join_or_def by (simp split: if_splits)
  then show ?thesis
  proof cases
    case ym
    show ?thesis unfolding both_comps_value [OF ym(1) j(1,2)] ym(2) by (cases "stri st s") (simp_all add: c)
  next
    case yn
    show ?thesis unfolding both_comps_value [OF yn(1) j(1,2)] yn(2) by (cases "stri st s") (simp_all add: c)
  next
    case mn
    show ?thesis unfolding both_comps_value [OF mn(1) j(1,2)] mn(2) by (cases "stri st s") (simp_all add: c)
  next
    case neg
    show ?thesis unfolding sym_not_value [OF neg(2) j(1,2)] neg(3)
      using b [OF neg(1)] ok by (cases "stri st s") simp_all
  qed
qed

lemma expr_join_and_value:
  assumes ok: "st_ok st" and x: "expr_join_and st e1 e2 = Some x"
  shows "expr_calc_value st x = conn_val E_AND (expr_calc_value st e1) (expr_calc_value st e2)"
proof (cases "expr_eq e1 e2")
  case True
  then show ?thesis using x expr_eq_value [OF ok True] by (simp add: expr_join_and_def)
next
  case False
  then obtain s where s: "join_symbol st e1 e2 = Some s" using x by (auto simp: expr_join_and_def split: option.splits)
  note j = join_symbol_Some [OF s]
  note c = comp_res_const [OF ok j(3)]
  have distinct: "comp_res st s a \<noteq> 0 \<or> comp_res st s d \<noteq> 0"
    if "stype st s = S_TRISTATE" "sconst st a" "sconst st d" "a \<noteq> d" for a d
    using ok that unfolding st_ok_def by blast
  have neq: "expr_calc_value st (join_eq_neq st s a d)
      = conn_val E_AND (expr_calc_value st (E_COMP E_EQUAL s a)) (expr_calc_value st (E_COMP E_UNEQUAL s d))"
    if "stype st s = S_TRISTATE" "sconst st a" "sconst st d" for a d
    using distinct [OF that] ok by (auto simp: join_eq_neq_def)
  consider (y) "is_symbol e1 \<and> comp_with E_EQUAL symbol_yes e2 \<or> is_symbol e2 \<and> comp_with E_EQUAL symbol_yes e1"
      "x = E_COMP E_EQUAL s symbol_yes"
    | (n) "is_symbol e1 \<and> comp_with E_UNEQUAL symbol_no e2 \<or> is_symbol e2 \<and> comp_with E_UNEQUAL symbol_no e1"
      "x = E_SYMBOL s"
    | (m) "is_symbol e1 \<and> comp_with E_UNEQUAL symbol_mod e2 \<or> is_symbol e2 \<and> comp_with E_UNEQUAL symbol_mod e1"
      "x = E_COMP E_EQUAL s symbol_yes"
    | (en) "stype st s = S_TRISTATE" "has_rel E_EQUAL e1" "has_rel E_UNEQUAL e2" "sconst st (right_sym e1)" "sconst st (right_sym e2)"
      "x = join_eq_neq st s (right_sym e1) (right_sym e2)"
    | (ne) "stype st s = S_TRISTATE" "has_rel E_UNEQUAL e1" "has_rel E_EQUAL e2" "sconst st (right_sym e1)" "sconst st (right_sym e2)"
      "x = join_eq_neq st s (right_sym e2) (right_sym e1)"
    | (yn) "both_comps E_UNEQUAL symbol_yes symbol_no e1 e2" "x = E_COMP E_EQUAL s symbol_mod"
    | (ym) "both_comps E_UNEQUAL symbol_yes symbol_mod e1 e2" "x = E_COMP E_EQUAL s symbol_no"
    | (mn) "both_comps E_UNEQUAL symbol_mod symbol_no e1 e2" "x = E_COMP E_EQUAL s symbol_yes"
    using x False s unfolding expr_join_and_def
    by (simp del: disj_not1 split: if_splits)
  then show ?thesis
  proof cases
    case y
    show ?thesis unfolding sym_comp_value [OF y(1) j(1,2)] y(2) by (cases "stri st s") (simp_all add: c)
  next
    case n
    show ?thesis unfolding sym_comp_value [OF n(1) j(1,2)] n(2) by (cases "stri st s") (simp_all add: c)
  next
    case m
    show ?thesis unfolding sym_comp_value [OF m(1) j(1,2)] m(2) by (cases "stri st s") (simp_all add: c)
  next
    case en
    show ?thesis
      using neq [OF en(1,4,5)] has_rel_join1 [OF en(2) j(1)] has_rel_join2 [OF en(3) j(2)] en(6) by metis
  next
    case ne
    show ?thesis
      using neq [OF ne(1,5,4)] has_rel_join1 [OF ne(2) j(1)] has_rel_join2 [OF ne(3) j(2)] ne(6) by (metis conn_val_comm)
  next
    case yn
    show ?thesis unfolding both_comps_value [OF yn(1) j(1,2)] yn(2) by (cases "stri st s") (simp_all add: c)
  next
    case ym
    show ?thesis unfolding both_comps_value [OF ym(1) j(1,2)] ym(2) by (cases "stri st s") (simp_all add: c)
  next
    case mn
    show ?thesis unfolding both_comps_value [OF mn(1) j(1,2)] mn(2) by (cases "stri st s") (simp_all add: c)
  qed
qed

lemma expr_join_value:
  assumes "st_ok st" and "expr_join st t e1 e2 = Some x"
  shows "expr_calc_value st x = conn_val t (expr_calc_value st e1) (expr_calc_value st e2)"
  using assms expr_join_or_value expr_join_and_value by (cases t) auto


section \<open>Positions in a tree\<close>

fun valid :: "expr \<Rightarrow> path \<Rightarrow> bool" where
  "valid e [] = True"
| "valid (E_BIN t l r) (b # p) = valid (if b then r else l) p"
| "valid e (b # p) = False"

text \<open>Positions reached through nodes of type \<open>t\<close> only, the depth of those nodes, and their tree.\<close>

fun spine :: "conn \<Rightarrow> expr \<Rightarrow> path \<Rightarrow> bool" where
  "spine t e [] = True"
| "spine t (E_BIN t' l r) (b # p) = (t' = t \<and> spine t (if b then r else l) p)"
| "spine t e (b # p) = False"

fun spine_depth :: "conn \<Rightarrow> expr \<Rightarrow> nat" where
  "spine_depth t (E_BIN t' l r) = (if t' = t then 1 + max (spine_depth t l) (spine_depth t r) else 0)"
| "spine_depth t _ = 0"

fun shape :: "conn \<Rightarrow> expr \<Rightarrow> expr" where
  "shape t (E_BIN t' l r) = (if t' = t then E_BIN t (shape t l) (shape t r) else E_SYMBOL symbol_no)"
| "shape t _ = E_SYMBOL symbol_no"

lemma spine_valid: "spine t e p \<Longrightarrow> valid e p"
  by (induction t e p rule: spine.induct) (auto split: if_splits)

lemma subterm_append: "valid e q \<Longrightarrow> subterm e (q @ p) = subterm (subterm e q) p"
  by (induction e q rule: valid.induct) auto

lemma put_append: "valid e q \<Longrightarrow> put e (q @ p) x = put e q (put (subterm e q) p x)"
  by (induction e q rule: valid.induct) auto

lemma subterm_put [simp]: "valid e p \<Longrightarrow> subterm (put e p x) p = x"
  by (induction e p rule: valid.induct) auto

lemma put_put [simp]: "valid e p \<Longrightarrow> put (put e p x) p y = put e p y"
  by (induction e p rule: valid.induct) auto

lemma put_subterm [simp]: "put e p (subterm e p) = e"
  by (induction e p rule: subterm.induct) auto

lemma valid_put [simp]: "valid e p \<Longrightarrow> valid (put e p x) p"
  by (induction e p rule: valid.induct) auto

lemma esize_put: "valid e p \<Longrightarrow> esize (put e p x) + esize (subterm e p) = esize e + esize x"
  by (induction e p rule: valid.induct) auto

lemma esize_subterm_le: "esize (subterm e p) \<le> esize e"
  by (induction e p rule: subterm.induct) (auto split: if_splits)

lemma esize_subterm_less:
  assumes "e = E_BIN t l r" and "p = b # p'"
  shows "esize (subterm e p) < esize e"
  using assms esize_subterm_le [of l p'] esize_subterm_le [of r p'] by auto

lemma shape_leaf: "operands t x = None \<longleftrightarrow> shape t x = E_SYMBOL symbol_no"
  by (cases x) auto

lemma shape_operands: "shape t e = shape t e' \<Longrightarrow> operands t e = None \<longleftrightarrow> operands t e' = None"
  by (simp add: shape_leaf)

lemma spine_depth_shape: "spine_depth t (shape t e) = spine_depth t e"
  by (induction e) auto

lemma spine_shape: "spine t (shape t e) p = spine t e p"
  by (induction t e p rule: spine.induct) auto

lemma subterm_shape: "spine t e p \<Longrightarrow> subterm (shape t e) p = shape t (subterm e p)"
  by (induction t e p rule: spine.induct) auto

lemma shape_depth: "shape t e = shape t e' \<Longrightarrow> spine_depth t e = spine_depth t e'"
  by (metis spine_depth_shape)

lemma shape_spine:
  "shape t e = shape t e' \<Longrightarrow> spine t e p \<Longrightarrow> spine t e' p \<and> shape t (subterm e p) = shape t (subterm e' p)"
  by (metis spine_shape subterm_shape)

lemma shape_put:
  "spine t e p \<Longrightarrow> shape t (subterm e p) = shape t x \<Longrightarrow> shape t (put e p x) = shape t e"
  by (induction t e p rule: spine.induct) (auto split: if_splits)

lemma spine_child:
  assumes "spine t e p" and "operands t (subterm e p) \<noteq> None"
  shows "spine t e (p @ [b])" "spine_depth t (subterm e (p @ [b])) < spine_depth t (subterm e p)"
proof -
  have "spine t e (p @ [b]) \<and> spine_depth t (subterm e (p @ [b])) < spine_depth t (subterm e p)"
    using assms
  proof (induction t e p rule: spine.induct)
    case (1 t e)
    then show ?case by (cases e) (auto split: if_splits)
  qed (auto split: if_splits)
  then show "spine t e (p @ [b])" "spine_depth t (subterm e (p @ [b])) < spine_depth t (subterm e p)" by auto
qed

text \<open>Two different leaves of the same spine.\<close>

definition two_leaves :: "conn \<Rightarrow> expr \<Rightarrow> path \<Rightarrow> path \<Rightarrow> bool" where
  "two_leaves t e p q \<longleftrightarrow> spine t e p \<and> spine t e q \<and> p \<noteq> q
     \<and> operands t (subterm e p) = None \<and> operands t (subterm e q) = None"

lemma two_leaves_BIN:
  assumes "two_leaves t e p q"
  obtains l r b p' c q' where "e = E_BIN t l r" "p = b # p'" "q = c # q'"
    "b = c \<Longrightarrow> two_leaves t (if b then r else l) p' q'"
    "spine t (if b then r else l) p'" "spine t (if c then r else l) q'"
proof -
  have pq: "spine t e p" "spine t e q" "p \<noteq> q" "operands t (subterm e p) = None" "operands t (subterm e q) = None"
    using assms by (auto simp: two_leaves_def)
  obtain l r where e: "e = E_BIN t l r"
    using pq by (cases p; cases q; cases e) auto
  have "p \<noteq> []" "q \<noteq> []" using pq(4,5) by (auto simp: e)
  then obtain b p' c q' where "p = b # p'" "q = c # q'" by (meson neq_Nil_conv)
  with pq that e show thesis by (auto simp: two_leaves_def split: if_splits)
qed

lemma subterm_put_other: "two_leaves t e p q \<Longrightarrow> subterm (put e p x) q = subterm e q"
proof (induction p arbitrary: e q)
  case Nil
  then show ?case by (rule two_leaves_BIN) auto
next
  case (Cons b p)
  from Cons.prems show ?case
    by (rule two_leaves_BIN) (auto simp: Cons.IH split: if_splits)
qed

lemma put_commute: "two_leaves t e p q \<Longrightarrow> put (put e p x) q y = put (put e q y) p x"
proof (induction p arbitrary: e q)
  case Nil
  then show ?case by (rule two_leaves_BIN) auto
next
  case (Cons b p)
  from Cons.prems show ?case
    by (rule two_leaves_BIN) (auto simp: Cons.IH split: if_splits)
qed

lemma spine_value:
  "spine t e p \<Longrightarrow> \<exists>c. \<forall>x. expr_calc_value st (put e p x) = conn_val t c (expr_calc_value st x)"
proof (induction t e p rule: spine.induct)
  case (1 t e)
  show ?case by (rule exI [of _ "unit_val t"]) simp
next
  case (2 t t' l r b p)
  show ?case
  proof (cases b)
    case True
    then obtain c where "\<forall>x. expr_calc_value st (put r p x) = conn_val t c (expr_calc_value st x)" using 2 by auto
    then show ?thesis using True 2(2)
      by (intro exI [of _ "conn_val t (expr_calc_value st l) c"]) (auto simp: conn_val_assoc)
  next
    case False
    then obtain c where "\<forall>x. expr_calc_value st (put l p x) = conn_val t c (expr_calc_value st x)" using 2 by auto
    then show ?thesis using False 2(2)
      by (intro exI [of _ "conn_val t (expr_calc_value st r) c"]) (auto simp: conn_val_ac)
  qed
qed simp_all

lemma value_put_same:
  assumes "spine t e p" and "expr_calc_value st x = expr_calc_value st (subterm e p)"
  shows "expr_calc_value st (put e p x) = expr_calc_value st e"
  using spine_value [OF assms(1), of st] assms(2) put_subterm [of e p] by metis

lemma value_put_two:
  assumes "two_leaves t e p q"
    and "conn_val t (expr_calc_value st x) (expr_calc_value st y)
      = conn_val t (expr_calc_value st (subterm e p)) (expr_calc_value st (subterm e q))"
  shows "expr_calc_value st (put (put e p x) q y) = expr_calc_value st e"
  using assms
proof (induction p arbitrary: e q)
  case Nil
  from Nil.prems(1) show ?case by (rule two_leaves_BIN) auto
next
  case (Cons b p)
  from Cons.prems(1) obtain l r p' c q' where e: "e = E_BIN t l r" "b # p = b # p'" "q = c # q'"
    "b = c \<Longrightarrow> two_leaves t (if b then r else l) p' q'"
    "spine t (if b then r else l) p'" "spine t (if c then r else l) q'"
    by (rule two_leaves_BIN) auto
  show ?case
  proof (cases "b = c")
    case True
    then show ?thesis using Cons.IH [of "if b then r else l" q'] e Cons.prems(2) by (auto split: if_splits)
  next
    case False
    obtain d f where v: "\<And>x. expr_calc_value st (put (if b then r else l) p' x) = conn_val t d (expr_calc_value st x)"
      "\<And>x. expr_calc_value st (put (if c then r else l) q' x) = conn_val t f (expr_calc_value st x)"
      using spine_value [OF e(5), of st] spine_value [OF e(6), of st] by blast
    have s: "expr_calc_value st (if b then r else l) = conn_val t d (expr_calc_value st (subterm (if b then r else l) p'))"
      "expr_calc_value st (if c then r else l) = conn_val t f (expr_calc_value st (subterm (if c then r else l) q'))"
      using v(1) [of "subterm (if b then r else l) p'"] v(2) [of "subterm (if c then r else l) q'"] by simp_all
    have cd: "conn_val t (conn_val t d a) (conn_val t f a') = conn_val t (conn_val t d f) (conn_val t a a')"
      "conn_val t (conn_val t f a') (conn_val t d a) = conn_val t (conn_val t d f) (conn_val t a a')" for a a'
      by (simp_all only: conn_val_ac)
    show ?thesis using False e(1-3) v s Cons.prems(2) by (cases b; cases c) (simp_all add: cd)
  qed
qed

section \<open>Removing duplicates returns and keeps the value\<close>

definition join_result :: "expr \<Rightarrow> expr option \<Rightarrow> bool" where
  "join_result e1 y \<longleftrightarrow> (\<forall>x. y = Some x \<longrightarrow> x = e1 \<or> esize x = 1 \<and> (\<forall>t. operands t x = None))"

lemma join_result_intros:
  "join_result e1 None" "join_result e1 (Some e1)" "join_result e1 (Some (E_COMP r a b))"
  "join_result e1 (Some (E_SYMBOL s))" "join_result e1 (Some (join_eq_neq st a b d))"
  by (simp_all add: join_result_def join_eq_neq_def)

lemma join_result_if: "join_result e1 x \<Longrightarrow> join_result e1 y \<Longrightarrow> join_result e1 (if c then x else y)"
  by simp

lemma expr_join_form:
  assumes "expr_join st t e1 e2 = Some x"
  shows "x = e1 \<or> esize x = 1 \<and> (\<forall>t. operands t x = None)"
proof -
  have "join_result e1 (expr_join_or st e1 e2)"
    unfolding expr_join_or_def expr_copy_id
    by (cases "join_symbol st e1 e2") ((simp only: option.case)?; intro join_result_if join_result_intros)+
  moreover have "join_result e1 (expr_join_and st e1 e2)"
    unfolding expr_join_and_def expr_copy_id
    by (cases "join_symbol st e1 e2") ((simp only: option.case)?; intro join_result_if join_result_intros)+
  ultimately show ?thesis using assms by (cases t) (simp_all add: join_result_def)
qed

fun reducible :: "expr \<Rightarrow> bool" where
  "reducible (E_BIN t l r) =
     (l = E_SYMBOL (unit_of t) \<or> r = E_SYMBOL (unit_of t) \<or> reducible l \<or> reducible r)"
| "reducible _ = False"

lemma reducible_yn: "reducible e \<Longrightarrow> esize (expr_eliminate_yn e) < esize e"
proof (induction e rule: expr_eliminate_yn.induct)
  case (1 l r)
  then show ?case using esize_eliminate_yn [of l] esize_eliminate_yn [of r] by (auto simp: Let_def)
next
  case (2 l r)
  then show ?case using esize_eliminate_yn [of l] esize_eliminate_yn [of r] by (auto simp: Let_def)
qed auto

lemma reducible_put: "valid e p \<Longrightarrow> reducible x \<Longrightarrow> reducible (put e p x)"
  by (induction e p rule: valid.induct) (auto split: if_splits)

lemma reducible_put_unit:
  "spine t e p \<Longrightarrow> p \<noteq> [] \<Longrightarrow> reducible (put e p (E_SYMBOL (unit_of t)))"
proof (induction t e p rule: spine.induct)
  case (2 t t' l r b p)
  then show ?case by (cases p; cases b) auto
qed auto

lemma dups1_local:
  assumes "valid e q"
  shows "eliminate_dups1 st k t (q @ p1) (q @ p2) (e, c)
    = map_option (\<lambda>(s, c). (put e q s, c)) (eliminate_dups1 st k t p1 p2 (subterm e q, c))"
  using assms
proof (induction k arbitrary: t p1 p2 e c)
  case (Suc k)
  have bind: "Option.bind (eliminate_dups1 st k t (q @ a) (q @ b) (e, c)) (eliminate_dups1 st k t' (q @ a') (q @ b'))
    = map_option (\<lambda>(s, c). (put e q s, c))
        (Option.bind (eliminate_dups1 st k t a b (subterm e q, c)) (eliminate_dups1 st k t' a' b'))"
    for t a b t' a' b' c
    unfolding Suc.IH [OF Suc.prems]
    by (cases "eliminate_dups1 st k t a b (subterm e q, c)") (auto simp: Suc.IH Suc.prems)
  have join: "Option.bind (map_option (\<lambda>(s, c). (put e q s, c)) m) (\<lambda>(e, cnt).
        case expr_join st t (subterm e (q @ p1)) (subterm e (q @ p2)) of
          None \<Rightarrow> Some (e, cnt)
        | Some tmp \<Rightarrow> Some (put (put e (q @ p1) (E_SYMBOL (unit_of t))) (q @ p2) tmp, cnt + 1))
    = map_option (\<lambda>(s, c). (put e q s, c)) (Option.bind m (\<lambda>(e, cnt).
        case expr_join st t (subterm e p1) (subterm e p2) of
          None \<Rightarrow> Some (e, cnt)
        | Some tmp \<Rightarrow> Some (put (put e p1 (E_SYMBOL (unit_of t))) p2 tmp, cnt + 1)))" for m
    using Suc.prems by (cases m) (auto simp: subterm_append put_append split: option.splits)
  have inner: "(case subterm (subterm e q) p1 of
        E_BIN t' _ _ \<Rightarrow> eliminate_dups1 st k t' (q @ p1) (q @ p1) (e, c) | _ \<Rightarrow> Some (e, c))
    = map_option (\<lambda>(s, c). (put e q s, c)) (case subterm (subterm e q) p1 of
        E_BIN t' _ _ \<Rightarrow> eliminate_dups1 st k t' p1 p1 (subterm e q, c) | _ \<Rightarrow> Some (subterm e q, c))"
    using Suc.prems by (simp add: subterm_append Suc.IH split: expr.split)
  show ?case
    unfolding eliminate_dups1.simps append_assoc bind subterm_append [OF Suc.prems] inner join by simp
qed simp

definition dups_ok :: "symtab \<Rightarrow> conn \<Rightarrow> expr \<Rightarrow> nat \<Rightarrow> (expr \<times> nat) option \<Rightarrow> bool" where
  "dups_ok st t e c res \<longleftrightarrow>
     (\<exists>e' c'. res = Some (e', c') \<and> shape t e' = shape t e \<and> esize e' \<le> esize e \<and> c \<le> c'
       \<and> (c' = c \<longrightarrow> e' = e) \<and> (c < c' \<longrightarrow> reducible e')
       \<and> (st_ok st \<longrightarrow> expr_calc_value st e' = expr_calc_value st e))"

lemma dups_ok_bind:
  assumes "dups_ok st t e c m"
    and "\<And>e' c'. shape t e' = shape t e \<Longrightarrow> esize e' \<le> esize e \<Longrightarrow> dups_ok st t e' c' (f (e', c'))"
  shows "dups_ok st t e c (Option.bind m f)"
proof -
  obtain e' c' where 1: "m = Some (e', c')" "shape t e' = shape t e" "esize e' \<le> esize e" "c \<le> c'"
    "c' = c \<longrightarrow> e' = e" "c < c' \<longrightarrow> reducible e'" "st_ok st \<longrightarrow> expr_calc_value st e' = expr_calc_value st e"
    using assms(1) by (auto simp: dups_ok_def)
  obtain e'' c'' where 2: "f (e', c') = Some (e'', c'')" "shape t e'' = shape t e'" "esize e'' \<le> esize e'" "c' \<le> c''"
    "c'' = c' \<longrightarrow> e'' = e'" "c' < c'' \<longrightarrow> reducible e''" "st_ok st \<longrightarrow> expr_calc_value st e'' = expr_calc_value st e'"
    using assms(2) [OF 1(2,3), of c'] by (auto simp: dups_ok_def)
  show ?thesis
    unfolding dups_ok_def using 1 2
    by (intro exI [of _ e''] exI [of _ c'']) (auto simp: le_less)
qed

lemma dups_ok_refl: "dups_ok st t e c (Some (e, c))"
  by (simp add: dups_ok_def)

lemma dups_join:
  assumes "two_leaves t e p1 p2"
  shows "dups_ok st t e c (case expr_join st t (subterm e p1) (subterm e p2) of
      None \<Rightarrow> Some (e, c)
    | Some tmp \<Rightarrow> Some (put (put e p1 (E_SYMBOL (unit_of t))) p2 tmp, c + 1))"
proof (cases "expr_join st t (subterm e p1) (subterm e p2)")
  case None
  then show ?thesis by (simp add: dups_ok_refl)
next
  case (Some x)
  let ?u = "E_SYMBOL (unit_of t)"
  have l: "spine t e p1" "spine t e p2" "operands t (subterm e p1) = None" "operands t (subterm e p2) = None"
    using assms by (auto simp: two_leaves_def)
  note v = spine_valid [OF l(1)] spine_valid [OF l(2)]
  have f: "operands t x = None" "esize x + 1 \<le> esize (subterm e p1) + esize (subterm e p2)"
    using expr_join_form [OF Some] l(3) Suc_leI [OF esize_pos [of "subterm e p1"]] Suc_leI [OF esize_pos [of "subterm e p2"]]
    by auto
  have s1: "shape t (put e p1 ?u) = shape t e" using l by (intro shape_put) (simp_all add: shape_leaf)
  have sp2: "spine t (put e p1 ?u) p2" using shape_spine [OF s1 [symmetric] l(2)] by blast
  have st: "subterm (put e p1 ?u) p2 = subterm e p2" by (rule subterm_put_other [OF assms])
  have s2: "shape t (put (put e p1 ?u) p2 x) = shape t e"
    using sp2 f(1) l(4) s1 st by (subst shape_put) (simp_all add: shape_leaf)
  have "esize (put (put e p1 ?u) p2 x) + esize (subterm e p2) = esize (put e p1 ?u) + esize x"
    using esize_put [OF spine_valid [OF sp2], of x] st by simp
  moreover have "esize (put e p1 ?u) + esize (subterm e p1) = esize e + 1" using esize_put [OF v(1), of ?u] by simp
  ultimately have sz: "esize (put (put e p1 ?u) p2 x) \<le> esize e" using f(2) by linarith
  have "p1 \<noteq> []" using assms by (auto elim: two_leaves_BIN)
  moreover have "spine t (put e p2 x) p1"
    using shape_spine [of t e "put e p2 x" p1] shape_put [OF l(2), of x] f(1) l by (simp add: shape_leaf)
  ultimately have "reducible (put (put e p1 ?u) p2 x)"
    unfolding put_commute [OF assms] by (intro reducible_put_unit)
  moreover have "expr_calc_value st (put (put e p1 ?u) p2 x) = expr_calc_value st e" if "st_ok st"
    using expr_join_value [OF that Some] that by (intro value_put_two [OF assms]) simp
  ultimately show ?thesis using Some s2 sz by (simp add: dups_ok_def)
qed

lemma dups1_inner:
  assumes outer: "\<And>e t c k. esize e < n \<Longrightarrow> dups_fuel (n - 1) \<le> k \<Longrightarrow> dups_ok st t e c (eliminate_dups1 st k t [] [] (e, c))"
  shows "spine t e p1 \<Longrightarrow> spine t e p2 \<Longrightarrow> esize e \<le> n
    \<Longrightarrow> m = spine_depth t (subterm e p1) + spine_depth t (subterm e p2) \<Longrightarrow> m + 1 + dups_fuel (n - 1) \<le> k
    \<Longrightarrow> dups_ok st t e c (eliminate_dups1 st k t p1 p2 (e, c))"
proof (induction m arbitrary: e p1 p2 c k rule: less_induct)
  case (less m)
  obtain j where k: "k = Suc j" using less.prems(5) by (cases k) auto
  have again: "dups_ok st t e' c' (eliminate_dups1 st j t q1 q2 (e', c'))"
    if "spine t e q1" "spine t e q2" "spine_depth t (subterm e q1) + spine_depth t (subterm e q2) < m"
      "shape t e' = shape t e" "esize e' \<le> esize e" for q1 q2 e' c'
  proof (rule less.IH [OF that(3)])
    note s = shape_spine [OF that(4) [symmetric] that(1)] shape_spine [OF that(4) [symmetric] that(2)]
    then show "spine t e' q1" "spine t e' q2" by auto
    show "spine_depth t (subterm e q1) + spine_depth t (subterm e q2)
        = spine_depth t (subterm e' q1) + spine_depth t (subterm e' q2)"
      using s shape_depth [of t "subterm e q1"] shape_depth [of t "subterm e q2"] by metis
  qed (use that less.prems(3,5) k in auto)
  show ?case
  proof (cases "operands t (subterm e p1) = None")
    case False
    have "dups_ok st t e c (Option.bind (eliminate_dups1 st j t (p1 @ [False]) p2 (e, c)) (eliminate_dups1 st j t (p1 @ [True]) p2))"
      using spine_child [OF less.prems(1) False] less.prems(2,4)
      by (intro dups_ok_bind again) auto
    then show ?thesis using False by (simp add: k)
  next
    case l1: True
    show ?thesis
    proof (cases "operands t (subterm e p2) = None")
      case False
      have "dups_ok st t e c (Option.bind (eliminate_dups1 st j t p1 (p2 @ [False]) (e, c)) (eliminate_dups1 st j t p1 (p2 @ [True])))"
        using spine_child [OF less.prems(2) False] less.prems(1,4)
        by (intro dups_ok_bind again) auto
      then show ?thesis using False l1 by (simp add: k)
    next
      case l2: True
      show ?thesis
      proof (cases "p1 = p2")
        case True
        then show ?thesis using l1 l2 by (simp add: k dups_ok_refl)
      next
        case ne: False
        then have two: "two_leaves t e p1 p2" using less.prems(1,2) l1 l2 by (simp add: two_leaves_def)
        let ?x = "subterm e p1"
        have "dups_ok st t e c (case ?x of E_BIN t' _ _ \<Rightarrow> eliminate_dups1 st j t' p1 p1 (e, c) | _ \<Rightarrow> Some (e, c))"
        proof (cases "\<exists>t' l r. ?x = E_BIN t' l r")
          case True
          then obtain t' l r where x: "?x = E_BIN t' l r" by blast
          have v: "valid e p1" by (rule spine_valid [OF less.prems(1)])
          have small: "esize ?x < n"
            using two by (rule two_leaves_BIN) (use esize_subterm_less less.prems(3) in \<open>meson less_le_trans\<close>)
          have "dups_ok st t' ?x c (eliminate_dups1 st j t' [] [] (?x, c))"
            using less.prems(5) by (intro outer [OF small]) (simp add: k)
          then obtain x' c' where r: "eliminate_dups1 st j t' [] [] (?x, c) = Some (x', c')" "shape t' x' = shape t' ?x"
            "esize x' \<le> esize ?x" "c \<le> c'" "c' = c \<longrightarrow> x' = ?x" "c < c' \<longrightarrow> reducible x'"
            "st_ok st \<longrightarrow> expr_calc_value st x' = expr_calc_value st ?x"
            by (auto simp: dups_ok_def)
          have "eliminate_dups1 st j t' p1 p1 (e, c) = Some (put e p1 x', c')"
            using dups1_local [OF v, of st j t' "[]" "[]" c] r(1) by simp
          moreover have "t' \<noteq> t" using l1 x by auto
          moreover have "operands t x' = None"
          proof -
            have "operands t' x' \<noteq> None" using shape_operands [OF r(2)] x by simp
            then show ?thesis using \<open>t' \<noteq> t\<close> by (cases x') (auto split: if_splits)
          qed
          moreover have "esize (put e p1 x') \<le> esize e" using esize_put [OF v, of x'] r(3) by linarith
          moreover have "shape t (put e p1 x') = shape t e"
            using less.prems(1) l1 \<open>operands t x' = None\<close> by (intro shape_put) (simp_all add: shape_leaf)
          moreover have "st_ok st \<longrightarrow> expr_calc_value st (put e p1 x') = expr_calc_value st e"
            using r(7) value_put_same [OF less.prems(1)] by blast
          moreover have "c' = c \<longrightarrow> put e p1 x' = e" using r(5) put_subterm [of e p1] by metis
          moreover have "c < c' \<longrightarrow> reducible (put e p1 x')" using r(6) reducible_put [OF v] by blast
          ultimately show ?thesis using r(4) by (simp add: x dups_ok_def)
        next
          case False
          then show ?thesis by (cases ?x) (auto simp: dups_ok_refl)
        qed
        then have "dups_ok st t e c (Option.bind
            (case ?x of E_BIN t' _ _ \<Rightarrow> eliminate_dups1 st j t' p1 p1 (e, c) | _ \<Rightarrow> Some (e, c))
            (\<lambda>(e, cnt). case expr_join st t (subterm e p1) (subterm e p2) of
               None \<Rightarrow> Some (e, cnt)
             | Some tmp \<Rightarrow> Some (put (put e p1 (E_SYMBOL (unit_of t))) p2 tmp, cnt + 1)))"
        proof (rule dups_ok_bind)
          fix e' c'
          assume sh: "shape t e' = shape t e"
          have "two_leaves t e' p1 p2"
            using two shape_spine [OF sh [symmetric], of p1] shape_spine [OF sh [symmetric], of p2]
            by (auto simp: two_leaves_def shape_leaf)
          then show "dups_ok st t e' c' (case (e', c') of (e, cnt) \<Rightarrow>
              case expr_join st t (subterm e p1) (subterm e p2) of
               None \<Rightarrow> Some (e, cnt)
             | Some tmp \<Rightarrow> Some (put (put e p1 (E_SYMBOL (unit_of t))) p2 tmp, cnt + 1))"
            using dups_join by simp
        qed
        then show ?thesis using l1 l2 ne by (simp add: k)
      qed
    qed
  qed
qed


lemma spine_depth_less: "spine_depth t e < esize e"
  by (induction e) auto

lemma dups1_returns: "esize e \<le> n \<Longrightarrow> dups_fuel n \<le> k \<Longrightarrow> dups_ok st t e c (eliminate_dups1 st k t [] [] (e, c))"
proof (induction n arbitrary: e t c k rule: less_induct)
  case (less n)
  have n: "0 < n" using less.prems(1) esize_pos [of e] by linarith
  have outer: "dups_ok st t e c (eliminate_dups1 st k t [] [] (e, c))" if "esize e < n" "dups_fuel (n - 1) \<le> k" for e t c k
    using less.IH [of "n - 1" e k t c] that n by simp
  have d: "2 * n + dups_fuel (n - 1) \<le> dups_fuel n"
    using n by (cases n) (simp_all add: dups_fuel_def algebra_simps)
  have "spine_depth t e + spine_depth t e + 1 + dups_fuel (n - 1) \<le> k"
    using spine_depth_less [of t e] less.prems d by linarith
  then show ?case
    using dups1_inner [OF outer, where n = n and t = t and e = e and ?p1.0 = "[]" and ?p2.0 = "[]"
        and m = "spine_depth t e + spine_depth t e" and k = k and c = c] less.prems(1)
    by simp
qed

definition dups_result :: "symtab \<Rightarrow> expr \<Rightarrow> expr option \<Rightarrow> bool" where
  "dups_result st e res \<longleftrightarrow>
     (\<exists>e'. res = Some e' \<and> esize e' \<le> esize e \<and> (st_ok st \<longrightarrow> expr_calc_value st e' = expr_calc_value st e))"

lemma dups_loop_returns: "esize e \<le> k \<Longrightarrow> dups_result st e (eliminate_dups_loop st k e)"
proof (induction k arbitrary: e)
  case 0
  then show ?case using esize_pos [of e] by simp
next
  case (Suc k)
  show ?case
  proof (cases "\<exists>t l r. e = E_BIN t l r")
    case True
    then obtain t l r where e: "e = E_BIN t l r" by blast
    have "dups_ok st t e 0 (eliminate_dups1 st (dups_fuel (esize e)) t [] [] (e, 0))"
      by (rule dups1_returns) auto
    then obtain e' c where r: "eliminate_dups1 st (dups_fuel (esize e)) t [] [] (e, 0) = Some (e', c)"
      "esize e' \<le> esize e" "c = 0 \<longrightarrow> e' = e" "0 < c \<longrightarrow> reducible e'"
      "st_ok st \<longrightarrow> expr_calc_value st e' = expr_calc_value st e"
      by (auto simp: dups_ok_def)
    have step: "eliminate_dups_loop st (Suc k) e
        = (if c = 0 then Some e' else eliminate_dups_loop st k (expr_eliminate_yn e'))"
      using r(1) by (simp add: e)
    show ?thesis
    proof (cases "c = 0")
      case True
      then show ?thesis unfolding step using r by (simp add: dups_result_def)
    next
      case False
      then have "esize (expr_eliminate_yn e') < esize e'" using r(4) by (intro reducible_yn) simp
      then have "dups_result st (expr_eliminate_yn e') (eliminate_dups_loop st k (expr_eliminate_yn e'))"
        using Suc.prems r(2) by (intro Suc.IH) linarith
      moreover have "esize (expr_eliminate_yn e') \<le> esize e" using \<open>_ < esize e'\<close> r(2) by linarith
      ultimately show ?thesis unfolding step using False r(5) by (auto simp: dups_result_def)
    qed
  next
    case False
    then show ?thesis by (cases e) (auto simp: dups_result_def)
  qed
qed

end
