(* ===== verification/Kconfig_Transform.thy ===== *)
theory Kconfig_Transform
  imports Kconfig_Simplify
begin

text \<open>
  The remaining rewriting functions of \<open>scripts/kconfig/expr.c\<close>: \<open>expr_transform\<close> pushes negations
  down to the symbols, \<open>expr_trans_bool\<close> drops tests against \<open>n\<close>, \<open>expr_trans_compare\<close> turns a comparison
  with a constant into an expression, and \<open>expr_contains_symbol\<close> and \<open>expr_depends_symbol\<close> answer
  questions about an expression. The properties of the expression component stand at the end.
\<close>

section \<open>Definitions\<close>

fun negate_rel :: "rel \<Rightarrow> rel" where
  "negate_rel E_EQUAL = E_UNEQUAL"
| "negate_rel E_UNEQUAL = E_EQUAL"
| "negate_rel E_LEQ = E_GTH"
| "negate_rel E_GEQ = E_LTH"
| "negate_rel E_LTH = E_GEQ"
| "negate_rel E_GTH = E_LEQ"

fun dual :: "conn \<Rightarrow> conn" where
  "dual E_OR = E_AND"
| "dual E_AND = E_OR"

text \<open>The cases \<open>E_EQUAL\<close> and \<open>E_UNEQUAL\<close> of \<open>expr_transform\<close>.\<close>

definition transform_comp :: "symtab \<Rightarrow> rel \<Rightarrow> sym \<Rightarrow> sym \<Rightarrow> expr" where
  "transform_comp st r a b =
     (if r = E_EQUAL \<and> stype st a = S_BOOLEAN then
        if b = symbol_no then E_NOT (E_SYMBOL a)
        else if b = symbol_mod then E_SYMBOL symbol_no
        else if b = symbol_yes then E_SYMBOL a
        else E_COMP r a b
      else if r = E_UNEQUAL \<and> stype st a = S_BOOLEAN then
        if b = symbol_no then E_SYMBOL a
        else if b = symbol_mod then E_SYMBOL symbol_yes
        else if b = symbol_yes then E_NOT (E_SYMBOL a)
        else E_COMP r a b
      else E_COMP r a b)"

definition transform_not_symbol :: "sym \<Rightarrow> expr" where
  "transform_not_symbol s =
     (if s = symbol_yes then E_SYMBOL symbol_no
      else if s = symbol_mod then E_SYMBOL symbol_mod
      else if s = symbol_no then E_SYMBOL symbol_yes
      else E_NOT (E_SYMBOL s))"

text \<open>The first argument bounds the depth of the calls.\<close>

fun transform_in :: "symtab \<Rightarrow> nat \<Rightarrow> expr \<Rightarrow> expr option" where
  "transform_in st 0 e = None"
| "transform_in st (Suc k) (E_SYMBOL s) = Some (E_SYMBOL s)"
| "transform_in st (Suc k) (E_COMP r a b) = Some (transform_comp st r a b)"
| "transform_in st (Suc k) (E_BIN t l r) =
     Option.bind (transform_in st k l) (\<lambda>l.
     Option.bind (transform_in st k r) (\<lambda>r. Some (E_BIN t l r)))"
| "transform_in st (Suc k) (E_NOT e) =
     Option.bind (transform_in st k e) (\<lambda>e.
       case e of
         E_NOT x \<Rightarrow> transform_in st k x
       | E_COMP r a b \<Rightarrow> Some (E_COMP (negate_rel r) a b)
       | E_BIN t l r \<Rightarrow> transform_in st k (E_BIN (dual t) (E_NOT l) (E_NOT r))
       | E_SYMBOL s \<Rightarrow> Some (transform_not_symbol s))"

fun eheight :: "expr \<Rightarrow> nat" where
  "eheight (E_SYMBOL s) = 1"
| "eheight (E_COMP r a b) = 2"
| "eheight (E_NOT e) = 1 + eheight e"
| "eheight (E_BIN t l r) = 1 + max (eheight l) (eheight r)"

definition expr_transform :: "symtab \<Rightarrow> expr \<Rightarrow> expr option" where
  "expr_transform st e = transform_in st (2 * eheight e) e"

fun expr_trans_bool :: "symtab \<Rightarrow> expr \<Rightarrow> expr" where
  "expr_trans_bool st (E_BIN t l r) = E_BIN t (expr_trans_bool st l) (expr_trans_bool st r)"
| "expr_trans_bool st (E_NOT e) = E_NOT (expr_trans_bool st e)"
| "expr_trans_bool st (E_COMP r a b) =
     (if r = E_UNEQUAL \<and> stype st a = S_TRISTATE \<and> b = symbol_no then E_SYMBOL a else E_COMP r a b)"
| "expr_trans_bool st (E_SYMBOL s) = E_SYMBOL s"

fun expr_contains_symbol :: "expr \<Rightarrow> sym \<Rightarrow> bool" where
  "expr_contains_symbol (E_BIN t l r) s = (expr_contains_symbol l s \<or> expr_contains_symbol r s)"
| "expr_contains_symbol (E_SYMBOL a) s = (a = s)"
| "expr_contains_symbol (E_COMP r a b) s = (a = s \<or> b = s)"
| "expr_contains_symbol (E_NOT e) s = expr_contains_symbol e s"

fun expr_depends_symbol :: "expr \<Rightarrow> sym \<Rightarrow> bool" where
  "expr_depends_symbol (E_BIN E_AND l r) s = (expr_depends_symbol l s \<or> expr_depends_symbol r s)"
| "expr_depends_symbol (E_SYMBOL a) s = (a = s)"
| "expr_depends_symbol (E_COMP E_EQUAL a b) s = (a = s \<and> (b = symbol_yes \<or> b = symbol_mod))"
| "expr_depends_symbol (E_COMP E_UNEQUAL a b) s = (a = s \<and> b = symbol_no)"
| "expr_depends_symbol _ s = False"

text \<open>\<open>type\<close> is \<open>E_EQUAL\<close> or \<open>E_UNEQUAL\<close>; \<open>None\<close> is \<open>NULL\<close>.\<close>

fun expr_trans_compare :: "expr \<Rightarrow> rel \<Rightarrow> sym \<Rightarrow> expr option" where
  "expr_trans_compare (E_BIN t l r) type s =
     (let e = (case (expr_trans_compare l E_EQUAL s, expr_trans_compare r E_EQUAL s) of
                 (Some e1, Some e2) \<Rightarrow>
                   if s = symbol_yes then E_BIN t e1 e2
                   else if s = symbol_no then E_BIN (dual t) e1 e2
                   else E_BIN t l r
               | _ \<Rightarrow> E_BIN t l r)
      in Some (if type = E_UNEQUAL then E_NOT e else e))"
| "expr_trans_compare (E_NOT e) type s =
     expr_trans_compare e (if type = E_EQUAL then E_UNEQUAL else E_EQUAL) s"
| "expr_trans_compare (E_COMP r a b) type s =
     (if type = E_EQUAL then
        if s = symbol_yes then Some (expr_copy (E_COMP r a b))
        else if s = symbol_mod then Some (E_SYMBOL symbol_no)
        else if s = symbol_no then Some (E_NOT (expr_copy (E_COMP r a b)))
        else None
      else
        if s = symbol_yes then Some (E_NOT (expr_copy (E_COMP r a b)))
        else if s = symbol_mod then Some (E_SYMBOL symbol_yes)
        else if s = symbol_no then Some (expr_copy (E_COMP r a b))
        else None)"
| "expr_trans_compare (E_SYMBOL a) type s = Some (E_COMP type a s)"

definition trans_compare_ptr :: "expr option \<Rightarrow> rel \<Rightarrow> sym \<Rightarrow> expr option" where
  "trans_compare_ptr e type s =
     (case e of
        None \<Rightarrow> Some (if type = E_UNEQUAL then E_NOT (E_SYMBOL s) else E_SYMBOL s)
      | Some e \<Rightarrow> expr_trans_compare e type s)"

section \<open>Negation normal form\<close>

lemma EXPR_NOT_NOT [simp]: "EXPR_NOT (EXPR_NOT a) = a"
  by (cases a) auto

lemma EXPR_NOT_conn: "EXPR_NOT (conn_val t a b) = conn_val (dual t) (EXPR_NOT a) (EXPR_NOT b)"
  by (cases t; cases a; cases b) (auto simp: conn_val_max_min less_eq_tristate_def max_def min_def)

lemma rel_holds_negate: "rel_holds (negate_rel r) res \<longleftrightarrow> \<not> rel_holds r res"
  by (cases r) auto

lemma transform_comp_value:
  assumes ok: "st_ok st"
  shows "expr_calc_value st (transform_comp st r a b) = expr_calc_value st (E_COMP r a b)"
proof (cases "stype st a = S_BOOLEAN")
  case True
  then have c: "comp_res st a symbol_yes = 0 \<longleftrightarrow> stri st a = Tyes"
    "comp_res st a symbol_mod = 0 \<longleftrightarrow> stri st a = Tmod" "comp_res st a symbol_no = 0 \<longleftrightarrow> stri st a = Tno"
    using comp_res_const [OF ok] by auto
  have m: "stri st a \<noteq> Tmod" by (rule st_ok_facts(7) [OF ok True])
  then show ?thesis
    using ok by (cases "stri st a"; cases r) (simp_all add: transform_comp_def c)
next
  case False
  then show ?thesis by (simp add: transform_comp_def)
qed

lemma transform_not_symbol_value:
  "st_ok st \<Longrightarrow> expr_calc_value st (transform_not_symbol s) = EXPR_NOT (stri st s)"
  by (simp add: transform_not_symbol_def)

lemma transform_in_value:
  assumes ok: "st_ok st"
  shows "transform_in st k e = Some e' \<Longrightarrow> expr_calc_value st e' = expr_calc_value st e"
proof (induction k arbitrary: e e')
  case (Suc k)
  show ?case
  proof (cases e)
    case (E_NOT x)
    then obtain y where y: "transform_in st k x = Some y" using Suc.prems by (auto split: Option.bind_splits)
    have v: "expr_calc_value st y = expr_calc_value st x" by (rule Suc.IH [OF y])
    show ?thesis
    proof (cases y)
      case (E_SYMBOL s)
      then have "e' = transform_not_symbol s" using Suc.prems E_NOT y by simp
      then show ?thesis using transform_not_symbol_value [OF ok, of s] v E_SYMBOL E_NOT by simp
    next
      case n: (E_NOT z)
      then have "expr_calc_value st e' = expr_calc_value st z" using Suc.prems E_NOT y Suc.IH by simp
      then show ?thesis using v n E_NOT by (metis EXPR_NOT_NOT expr_calc_value.simps(4))
    next
      case b: (E_BIN t l r)
      then have "expr_calc_value st e' = expr_calc_value st (E_BIN (dual t) (E_NOT l) (E_NOT r))"
        using Suc.prems E_NOT y Suc.IH by simp
      then show ?thesis using v b E_NOT by (simp flip: v add: EXPR_NOT_conn)
    next
      case c: (E_COMP r a b)
      then have "e' = E_COMP (negate_rel r) a b" using Suc.prems E_NOT y by simp
      then show ?thesis using v c E_NOT by (simp add: rel_holds_negate flip: v)
    qed
  next
    case (E_BIN t l r)
    then show ?thesis using Suc by (auto split: Option.bind_splits)
  qed (use Suc.prems transform_comp_value [OF ok] in auto)
qed simp

text \<open>The normal form: negation only in front of symbols.\<close>

fun nnf :: "expr \<Rightarrow> bool" where
  "nnf (E_SYMBOL s) = True"
| "nnf (E_COMP r a b) = True"
| "nnf (E_NOT (E_SYMBOL s)) = True"
| "nnf (E_NOT e) = False"
| "nnf (E_BIN t l r) = (nnf l \<and> nnf r)"

lemma nnf_NOT: "nnf (E_NOT e) \<longleftrightarrow> (\<exists>s. e = E_SYMBOL s)"
  by (cases e) auto

definition normal :: "nat \<Rightarrow> expr option \<Rightarrow> bool" where
  "normal h res \<longleftrightarrow> (\<exists>e. res = Some e \<and> nnf e \<and> eheight e \<le> h)"

lemma eheight_pos [simp]: "0 < eheight e"
  by (cases e) auto

lemma normal_comp: "normal 2 (Some (transform_comp st r a b))"
  by (simp add: normal_def transform_comp_def)

lemma normal_not_symbol: "normal 2 (Some (transform_not_symbol s))"
  by (simp add: normal_def transform_not_symbol_def)

lemma normal_mono: "normal h res \<Longrightarrow> h \<le> h' \<Longrightarrow> normal h' res"
  by (auto simp: normal_def)

lemma normal_BIN:
  assumes "normal h (transform_in st k l)" and "normal h (transform_in st k r)"
  shows "normal (Suc h) (transform_in st (Suc k) (E_BIN t l r))"
  using assms by (auto simp: normal_def)

lemma normal_BIN_height:
  assumes "normal (eheight l) (transform_in st k l)" and "normal (eheight r) (transform_in st k r)"
  shows "normal (eheight (E_BIN t l r)) (transform_in st (Suc k) (E_BIN t l r))"
  using assms by (auto simp: normal_def)

lemma transform_nnf: "nnf e \<Longrightarrow> eheight e \<le> k \<Longrightarrow> normal (eheight e) (transform_in st k e)"
proof (induction e arbitrary: k rule: nnf.induct)
  case (5 t l r)
  then obtain j where j: "k = Suc j" by (cases k) auto
  then show ?case unfolding j using "5.prems" by (intro normal_BIN_height "5.IH") (auto simp: j)
next
  case (3 s)
  then obtain j where "k = Suc (Suc j)" by (cases k; cases "k - 1") auto
  then show ?case using normal_not_symbol [of s] by (simp add: numeral_2_eq_2)
qed (case_tac [!] k, auto simp: normal_def transform_comp_def)

text \<open>Negating a normal form.\<close>

definition negated :: "symtab \<Rightarrow> nat \<Rightarrow> expr \<Rightarrow> expr option" where
  "negated st k e =
     (case e of
        E_NOT x \<Rightarrow> transform_in st k x
      | E_COMP r a b \<Rightarrow> Some (E_COMP (negate_rel r) a b)
      | E_BIN t l r \<Rightarrow> transform_in st k (E_BIN (dual t) (E_NOT l) (E_NOT r))
      | E_SYMBOL s \<Rightarrow> Some (transform_not_symbol s))"

lemma transform_NOT:
  "transform_in st (Suc k) (E_NOT e) = Option.bind (transform_in st k e) (negated st k)"
  unfolding transform_in.simps negated_def ..

lemma negated_normal:
  "nnf e \<Longrightarrow> eheight e \<le> h \<Longrightarrow> 2 * h \<le> k \<Longrightarrow> normal (Suc h) (negated st k e)"
proof (induction h arbitrary: e k rule: less_induct)
  case (less h)
  have k: "0 < k" using less.prems eheight_pos [of e] by linarith
  then obtain j where j: "k = Suc j" by (cases k) auto
  show ?case
  proof (cases e)
    case (E_SYMBOL s)
    then show ?thesis using normal_mono [OF normal_not_symbol, of "Suc h"] less.prems by (simp add: negated_def)
  next
    case (E_COMP r a b)
    then show ?thesis using less.prems by (simp add: negated_def normal_def)
  next
    case (E_NOT x)
    then obtain s where "x = E_SYMBOL s" using less.prems(1) by (auto simp: nnf_NOT)
    then show ?thesis using E_NOT by (simp add: negated_def normal_def j)
  next
    case (E_BIN t l r)
    have not: "normal h (transform_in st j (E_NOT x))" if nn: "nnf x" and hx: "eheight x \<le> h - 1" and h: "0 < h" for x
    proof -
      obtain i where i: "j = Suc i" using h less.prems(3) j by (cases j) auto
      have "eheight x \<le> i" using hx h less.prems(3) by (simp add: j i)
      from transform_nnf [OF nn this, of st] obtain y where
        y: "transform_in st i x = Some y" "nnf y" "eheight y \<le> eheight x" by (auto simp: normal_def)
      have "normal (Suc (h - 1)) (negated st i y)"
        using y hx h less.prems(3) by (intro less.IH) (auto simp: j i)
      then show ?thesis using y(1) h by (simp only: i transform_NOT) simp
    qed
    have "nnf l" "nnf r" "eheight l \<le> h - 1" "eheight r \<le> h - 1" "0 < h"
      using less.prems(1,2) E_BIN by auto
    then have "normal (Suc h) (transform_in st (Suc j) (E_BIN (dual t) (E_NOT l) (E_NOT r)))"
      by (intro normal_BIN not)
    then show ?thesis using E_BIN by (simp add: negated_def j)
  qed
qed

lemma transform_normal: "2 * eheight e \<le> k \<Longrightarrow> normal (eheight e) (transform_in st k e)"
proof (induction e arbitrary: k)
  case (E_NOT e)
  then obtain j where j: "k = Suc j" by (cases k) auto
  have "2 * eheight e \<le> j" using E_NOT.prems by (simp add: j)
  from E_NOT.IH [OF this] obtain y where y: "transform_in st j e = Some y" "nnf y" "eheight y \<le> eheight e"
    by (auto simp: normal_def)
  then show ?case
    using negated_normal [OF y(2,3) \<open>2 * eheight e \<le> j\<close>, of st] by (simp only: j transform_NOT) simp
next
  case (E_BIN t l r)
  then obtain j where j: "k = Suc j" by (cases k) auto
  then show ?case unfolding j using E_BIN.prems by (intro normal_BIN_height E_BIN.IH) (auto simp: j)
qed (case_tac [!] k, auto simp: normal_def transform_comp_def)


section \<open>Comparisons and dependencies\<close>

fun no_negation :: "expr \<Rightarrow> bool" where
  "no_negation (E_NOT e) = False"
| "no_negation (E_BIN t l r) = (no_negation l \<and> no_negation r)"
| "no_negation _ = True"

lemma conn_val_no: "conn_val t a b = Tno \<longleftrightarrow> (case t of E_OR \<Rightarrow> a = Tno \<and> b = Tno | E_AND \<Rightarrow> a = Tno \<or> b = Tno)"
  by (cases t; cases a; cases b) (auto simp: conn_val_max_min less_eq_tristate_def max_def min_def)

lemma trans_bool_no:
  assumes "st_ok st"
  shows "no_negation e \<Longrightarrow> expr_calc_value st (expr_trans_bool st e) = Tno \<longleftrightarrow> expr_calc_value st e = Tno"
proof (induction e)
  case (E_COMP r a b)
  then show ?case using comp_res_const(3) [OF assms, of a] by auto
next
  case (E_BIN t l r)
  then show ?case by (auto simp: conn_val_no split: conn.splits)
qed auto

lemma depends_symbol_sound:
  assumes ok: "st_ok st"
  shows "stype st s = S_BOOLEAN \<or> stype st s = S_TRISTATE \<Longrightarrow> expr_depends_symbol e s \<Longrightarrow> expr_calc_value st e \<noteq> Tno \<Longrightarrow> stri st s \<noteq> Tno"
proof (induction e s rule: expr_depends_symbol.induct)
  case (1 l r s)
  then show ?case by (auto simp: conn_val_no)
next
  case (3 a b s)
  then show ?case using comp_res_const [OF ok 3(1)] by (auto split: if_splits)
next
  case (4 a b s)
  then show ?case using comp_res_const [OF ok 4(1)] by (auto split: if_splits)
qed auto

lemma comp_res_cong:
  assumes "stype st' = stype st" and "modules st' = modules st"
    and "stri st' a = stri st a" "sval st' a = sval st a" "stri st' b = stri st b" "sval st' b = sval st b"
  shows "comp_res st' a b = comp_res st a b"
proof -
  have "sym_get_string_value st' a = sym_get_string_value st a" "sym_get_string_value st' b = sym_get_string_value st b"
    using assms by (simp_all add: sym_get_string_value_def)
  then show ?thesis unfolding comp_res_def by (simp only: assms(1))
qed

lemma contains_symbol_value:
  assumes "\<not> expr_contains_symbol e s"
    and "stype st' = stype st" and "modules st' = modules st"
    and same: "\<And>x. x \<noteq> s \<Longrightarrow> stri st' x = stri st x \<and> sval st' x = sval st x"
  shows "expr_calc_value st' e = expr_calc_value st e"
  using assms(1)
proof (induction e)
  case (E_COMP r a b)
  then have "comp_res st' a b = comp_res st a b" using assms(2,3) same by (intro comp_res_cong) auto
  then show ?case by simp
qed (use same in auto)

text \<open>Expressions over boolean and tristate symbols none of which is \<open>m\<close>.\<close>

fun two_valued :: "symtab \<Rightarrow> expr \<Rightarrow> bool" where
  "two_valued st (E_SYMBOL a) = ((stype st a = S_BOOLEAN \<or> stype st a = S_TRISTATE) \<and> stri st a \<noteq> Tmod)"
| "two_valued st (E_NOT e) = two_valued st e"
| "two_valued st (E_BIN t l r) = (two_valued st l \<and> two_valued st r)"
| "two_valued st (E_COMP r a b) = True"

lemma two_valued_not_mod: "two_valued st e \<Longrightarrow> expr_calc_value st e \<noteq> Tmod"
proof (induction e)
  case (E_NOT e)
  then show ?case by (cases "expr_calc_value st e") auto
next
  case (E_BIN t l r)
  then show ?case by (auto simp: conn_val_max_min max_def min_def split: conn.splits)
qed auto

definition tri_of_bool :: "bool \<Rightarrow> tristate" where
  "tri_of_bool b = (if b then Tyes else Tno)"

lemma tri_of_bool_simps [simp]:
  "EXPR_NOT (tri_of_bool b) = tri_of_bool (\<not> b)"
  "conn_val E_AND (tri_of_bool a) (tri_of_bool b) = tri_of_bool (a \<and> b)"
  "conn_val E_OR (tri_of_bool a) (tri_of_bool b) = tri_of_bool (a \<or> b)"
  by (auto simp: tri_of_bool_def)

lemma trans_compare_value:
  assumes ok: "st_ok st" and c: "s = symbol_yes \<or> s = symbol_no" and ty: "type = E_EQUAL \<or> type = E_UNEQUAL"
    and "two_valued st e"
  shows "\<exists>e'. expr_trans_compare e type s = Some e'
    \<and> expr_calc_value st e' = tri_of_bool ((expr_calc_value st e = stri st s) = (type = E_EQUAL))"
  using ty assms(4)
proof (induction e arbitrary: type)
  case (E_SYMBOL a)
  then show ?case
    using c comp_res_const [OF ok, of a] ok by (auto simp: tri_of_bool_def)
next
  case (E_NOT e)
  let ?type = "if type = E_EQUAL then E_UNEQUAL else E_EQUAL"
  obtain e' where e': "expr_trans_compare e ?type s = Some e'"
    "expr_calc_value st e' = tri_of_bool ((expr_calc_value st e = stri st s) = (?type = E_EQUAL))"
    using E_NOT.IH [of ?type] E_NOT.prems by auto
  have "EXPR_NOT (expr_calc_value st e) = stri st s \<longleftrightarrow> expr_calc_value st e \<noteq> stri st s"
    using two_valued_not_mod [of st e] E_NOT.prems c ok by (cases "expr_calc_value st e") auto
  then show ?case using e' by auto
next
  case (E_BIN t l r)
  obtain l' where l: "expr_trans_compare l E_EQUAL s = Some l'"
    "expr_calc_value st l' = tri_of_bool (expr_calc_value st l = stri st s)"
    using E_BIN.IH(1) [of E_EQUAL] E_BIN.prems by auto
  obtain r' where r: "expr_trans_compare r E_EQUAL s = Some r'"
    "expr_calc_value st r' = tri_of_bool (expr_calc_value st r = stri st s)"
    using E_BIN.IH(2) [of E_EQUAL] E_BIN.prems by auto
  have m: "expr_calc_value st l \<noteq> Tmod" "expr_calc_value st r \<noteq> Tmod"
    using E_BIN.prems(2) two_valued_not_mod by auto
  have y: "conn_val t (tri_of_bool (a = Tyes)) (tri_of_bool (b = Tyes)) = tri_of_bool (conn_val t a b = Tyes)" 
    if "a \<noteq> Tmod" "b \<noteq> Tmod" for a b
    using that by (cases t; cases a; cases b) (auto simp: tri_of_bool_def)
  have n: "conn_val (dual t) (tri_of_bool (a = Tno)) (tri_of_bool (b = Tno)) = tri_of_bool (conn_val t a b = Tno)"
    if "a \<noteq> Tmod" "b \<noteq> Tmod" for a b
    using that by (cases t; cases a; cases b) (auto simp: tri_of_bool_def)
  show ?case
    using c E_BIN.prems(1) l r y [OF m] n [OF m] ok by auto
next
  case (E_COMP r a b)
  then show ?case using c ok by (auto simp: tri_of_bool_def)
qed

section \<open>Properties\<close>

text \<open>
  An example table: symbol 0 is a tristate symbol set to \<open>m\<close>, all others are boolean and set to \<open>y\<close>;
  modules are on.
\<close>

definition example_st :: symtab where
  "example_st =
     \<lparr>stype = (\<lambda>s. case s of Sym n \<Rightarrow> if n = 0 then S_TRISTATE else S_BOOLEAN | _ \<Rightarrow> S_UNKNOWN),
      sconst = (\<lambda>s. case s of Sym n \<Rightarrow> False | _ \<Rightarrow> True),
      stri = (\<lambda>s. case s of Sym n \<Rightarrow> if n = 0 then Tmod else Tyes | symbol_yes \<Rightarrow> Tyes | symbol_mod \<Rightarrow> Tmod | symbol_no \<Rightarrow> Tno),
      sval = (\<lambda>s. case s of Sym n \<Rightarrow> [] | symbol_yes \<Rightarrow> ''y'' | symbol_mod \<Rightarrow> ''m'' | symbol_no \<Rightarrow> ''n''),
      modules = Tyes\<rparr>"

lemma comp_res_strings:
  assumes "fst (expr_parse_string (sym_get_string_value st b) (stype st b)) = k_string"
  shows "comp_res st a b = strcmp_sign (sym_get_string_value st a) (sym_get_string_value st b)"
  unfolding comp_res_def Let_def case_prod_beta using assms by simp

lemma example_st_ok: "st_ok example_st"
proof -
  have v: "sym_get_string_value example_st symbol_yes = ''y''" "sym_get_string_value example_st symbol_mod = ''m''"
    "sym_get_string_value example_st symbol_no = ''n''" "sym_get_string_value example_st (Sym 0) = ''m''"
    and t: "stype example_st symbol_yes = S_UNKNOWN" "stype example_st symbol_mod = S_UNKNOWN" "stype example_st symbol_no = S_UNKNOWN"
    by (simp_all add: sym_get_string_value_def example_st_def)
  have c: "comp_res example_st (Sym 0) symbol_yes \<noteq> 0" "comp_res example_st (Sym 0) symbol_no \<noteq> 0"
    by (simp_all add: comp_res_strings v t parse_const)
  have "comp_res example_st s c \<noteq> 0 \<or> comp_res example_st s d \<noteq> 0"
    if a: "stype example_st s = S_TRISTATE \<and> sconst example_st c \<and> sconst example_st d \<and> c \<noteq> d" for s c d
  proof -
    have "s = Sym 0" using a by (cases s) (auto simp: example_st_def split: if_splits)
    then show ?thesis using a c by (cases c; cases d) (auto simp: example_st_def)
  qed
  moreover have "stri example_st s \<noteq> Tmod" if "stype example_st s = S_BOOLEAN" for s
    using that by (cases s) (auto simp: example_st_def split: if_splits)
  moreover have "stri example_st symbol_yes = Tyes" "stri example_st symbol_mod = Tmod" "stri example_st symbol_no = Tno"
    "sval example_st symbol_yes = ''y''" "sval example_st symbol_mod = ''m''" "sval example_st symbol_no = ''n''"
    "modules example_st \<noteq> Tno"
    by (simp_all add: example_st_def)
  ultimately show ?thesis unfolding st_ok_def using t by blast
qed


definition example_e :: expr where
  "example_e = E_BIN E_OR (E_COMP E_EQUAL (Sym 0) symbol_yes)
     (E_BIN E_OR (E_NOT (E_SYMBOL (Sym 1))) (E_COMP E_EQUAL (Sym 0) symbol_mod))"



text \<open>
  \<^bold>\<open>C17\<close>. \<open>expr_transform\<close> returns for every expression; in the result every negation stands directly
  in front of a symbol, and its value under every well-formed symbol table is that of the original.
\<close>

theorem expr_transform_correct:
  assumes "st_ok st"
  shows "\<exists>e'. expr_transform st e = Some e' \<and> nnf e' \<and> expr_calc_value st e' = expr_calc_value st e"
proof -
  obtain e' where "transform_in st (2 * eheight e) e = Some e'" "nnf e'"
    using transform_normal [of e "2 * eheight e" st] by (auto simp: normal_def)
  then show ?thesis using transform_in_value [OF assms] by (auto simp: expr_transform_def)
qed

theorem expr_transform_correct_witness:
  "\<exists>e'. expr_transform example_st (E_NOT example_e) = Some e' \<and> nnf e'
    \<and> expr_calc_value example_st e' = expr_calc_value example_st (E_NOT example_e)"
  using expr_transform_correct [OF example_st_ok, of "E_NOT example_e"] .

text \<open>
  \<^bold>\<open>C18\<close>. The equality test of expressions is sound: its mutually recursive walk over the two trees
  returns, and expressions it calls equal (a missing expression counting as \<open>y\<close>) have the same value
  under every well-formed symbol table.
\<close>

theorem expr_eq_sound:
  assumes "st_ok st" and "expr_eq_ptr e1 e2"
  shows "calc_value_ptr st e1 = calc_value_ptr st e2
    \<and> (\<forall>x y. \<exists>b. expr_eq_in (4 * (esize x + esize y)) x y = Some b)"
  using assms expr_eq_value [OF assms(1)] expr_eq_in_returns
  by (auto simp: expr_eq_ptr_def calc_value_ptr_def expr_is_yes_def split: option.splits)

theorem expr_eq_sound_witness:
  "expr_eq_ptr (Some (E_BIN E_AND (E_SYMBOL (Sym 1)) (E_SYMBOL (Sym 2)))) (Some (E_BIN E_AND (E_SYMBOL (Sym 2)) (E_SYMBOL (Sym 1))))
   \<and> calc_value_ptr example_st (Some (E_BIN E_AND (E_SYMBOL (Sym 1)) (E_SYMBOL (Sym 2))))
     = calc_value_ptr example_st (Some (E_BIN E_AND (E_SYMBOL (Sym 2)) (E_SYMBOL (Sym 1))))"
proof -
  have "expr_eq_ptr (Some (E_BIN E_AND (E_SYMBOL (Sym 1)) (E_SYMBOL (Sym 2)))) (Some (E_BIN E_AND (E_SYMBOL (Sym 2)) (E_SYMBOL (Sym 1))))"
    by code_simp
  then show ?thesis using expr_eq_sound [OF example_st_ok] by blast
qed





end
