(* ===== verification/Kstrtox.thy ===== *)
theory Kstrtox
  imports Kbits
begin

text \<open>
  Reading numbers: \<open>lib/kstrtox.c\<close>, its copy in the boot code (\<open>arch/x86/boot/string.c\<close>) and the
  \<open>simple_strtoull\<close> functions. A C string is the list of its characters without the terminating
  \<open>NUL\<close>, which is read back past the end. The lemmas compare the 64-bit arithmetic with unbounded
  numbers.
\<close>

unbundle bit_operations_syntax

section \<open>Definitions\<close>

datatype errno = EINVAL | ERANGE

definition char_at :: "string \<Rightarrow> nat \<Rightarrow> char" where
  "char_at s i = (if i < length s then s ! i else CHR 0x00)"

text \<open>\<open>_tolower\<close> sets bit 5; \<open>isxdigit\<close> and \<open>isdigit\<close> are the classes of the character table.\<close>

definition tolower :: "char \<Rightarrow> nat" where
  "tolower c = of_char c OR 0x20"

definition isdigit :: "char \<Rightarrow> bool" where
  "isdigit c \<longleftrightarrow> 48 \<le> (of_char c :: nat) \<and> (of_char c :: nat) \<le> 57"

definition isxdigit :: "char \<Rightarrow> bool" where
  "isxdigit c \<longleftrightarrow> isdigit c \<or> (65 \<le> (of_char c :: nat) \<and> (of_char c :: nat) \<le> 70)
     \<or> (97 \<le> (of_char c :: nat) \<and> (of_char c :: nat) \<le> 102)"

definition parse_integer_fixup_radix :: "string \<Rightarrow> nat \<Rightarrow> string \<times> nat" where
  "parse_integer_fixup_radix s base =
     (let base =
        (if base = 0 then
           if char_at s 0 = CHR ''0'' then
             if tolower (char_at s 1) = of_char CHR ''x'' \<and> isxdigit (char_at s 2) then 16 else 8
           else 10
         else base)
      in if base = 16 \<and> char_at s 0 = CHR ''0'' \<and> tolower (char_at s 1) = of_char CHR ''x''
         then (drop 2 s, base) else (s, base))"

text \<open>The value of a digit; a character above 127 is negative and no digit.\<close>

definition digit_value :: "char \<Rightarrow> nat option" where
  "digit_value c =
     (let n = of_char c :: nat; lc = n OR 0x20
      in if 48 \<le> n \<and> n \<le> 57 then Some (n - 48)
         else if n < 128 \<and> 97 \<le> lc \<and> lc \<le> 102 then Some (lc - 97 + 10)
         else None)"

definition KSTRTOX_OVERFLOW :: u32 where
  "KSTRTOX_OVERFLOW = 0x80000000"

definition ULLONG_MAX :: u64 where
  "ULLONG_MAX = 0xFFFFFFFFFFFFFFFF"

definition INT_MAX :: nat where
  "INT_MAX = 2147483647"

fun parse_integer_limit :: "string \<Rightarrow> nat \<Rightarrow> nat \<Rightarrow> u64 \<Rightarrow> u32 \<Rightarrow> u64 \<times> u32" where
  "parse_integer_limit (c # s) base (Suc max_chars) res rv =
     (case digit_value c of
        None \<Rightarrow> (res, rv)
      | Some val \<Rightarrow>
          if val \<ge> base then (res, rv)
          else
            let rv = (if res AND push_bit 60 (NOT 0) \<noteq> 0
                      then if res > (ULLONG_MAX - of_nat val) div of_nat base then rv OR KSTRTOX_OVERFLOW else rv
                      else rv)
            in parse_integer_limit s base max_chars (res * of_nat base + of_nat val) (rv + 1))"
| "parse_integer_limit s base max_chars res rv = (res, rv)"

definition parse_integer :: "string \<Rightarrow> nat \<Rightarrow> u64 \<times> u32" where
  "parse_integer s base = parse_integer_limit s base INT_MAX 0 0"

definition kstrtoull_raw :: "string \<Rightarrow> nat \<Rightarrow> errno + u64" where
  "kstrtoull_raw s base =
     (let (s, base) = parse_integer_fixup_radix s base; (res, rv) = parse_integer s base
      in if rv AND KSTRTOX_OVERFLOW \<noteq> 0 then Inl ERANGE
         else if rv = 0 then Inl EINVAL
         else
           let s = drop (unat rv) s;
               s = (if char_at s 0 = CHR 0x0A then tl s else s)
           in if s \<noteq> [] then Inl EINVAL else Inr res)"

definition skip_plus :: "string \<Rightarrow> string" where
  "skip_plus s = (if char_at s 0 = CHR ''+'' then tl s else s)"

definition kstrtoull :: "string \<Rightarrow> nat \<Rightarrow> errno + u64" where
  "kstrtoull s base = kstrtoull_raw (skip_plus s) base"

definition kstrtoll :: "string \<Rightarrow> nat \<Rightarrow> errno + 64 word" where
  "kstrtoll s base =
     (if char_at s 0 = CHR ''-'' then
        (case kstrtoull_raw (tl s) base of
           Inl e \<Rightarrow> Inl e
         | Inr tmp \<Rightarrow> if sint (- tmp) > 0 then Inl ERANGE else Inr (- tmp))
      else
        (case kstrtoull s base of
           Inl e \<Rightarrow> Inl e
         | Inr tmp \<Rightarrow> if sint tmp < 0 then Inl ERANGE else Inr tmp))"

text \<open>
  The narrower functions read 64 bits and test that the conversion to the target type keeps the
  value: \<open>narrow_unsigned\<close> and \<open>narrow_signed\<close> are that test.
\<close>

definition narrow_unsigned :: "(errno + u64) \<Rightarrow> errno + 'a::len word" where
  "narrow_unsigned r =
     (case r of
        Inl e \<Rightarrow> Inl e
      | Inr tmp \<Rightarrow> if tmp \<noteq> ucast (ucast tmp :: 'a word) then Inl ERANGE else Inr (ucast tmp))"

definition narrow_signed :: "(errno + 64 word) \<Rightarrow> errno + 'a::len word" where
  "narrow_signed r =
     (case r of
        Inl e \<Rightarrow> Inl e
      | Inr tmp \<Rightarrow> if tmp \<noteq> scast (ucast tmp :: 'a word) then Inl ERANGE else Inr (ucast tmp))"

definition kstrtoul :: "string \<Rightarrow> nat \<Rightarrow> errno + u32" where
  "kstrtoul s base = narrow_unsigned (kstrtoull s base)"

definition kstrtol :: "string \<Rightarrow> nat \<Rightarrow> errno + u32" where
  "kstrtol s base = narrow_signed (kstrtoll s base)"

definition kstrtouint :: "string \<Rightarrow> nat \<Rightarrow> errno + u32" where
  "kstrtouint s base = narrow_unsigned (kstrtoull s base)"

definition kstrtoint :: "string \<Rightarrow> nat \<Rightarrow> errno + u32" where
  "kstrtoint s base = narrow_signed (kstrtoll s base)"

definition kstrtou16 :: "string \<Rightarrow> nat \<Rightarrow> errno + u16" where
  "kstrtou16 s base = narrow_unsigned (kstrtoull s base)"

definition kstrtos16 :: "string \<Rightarrow> nat \<Rightarrow> errno + u16" where
  "kstrtos16 s base = narrow_signed (kstrtoll s base)"

definition kstrtou8 :: "string \<Rightarrow> nat \<Rightarrow> errno + u8" where
  "kstrtou8 s base = narrow_unsigned (kstrtoull s base)"

definition kstrtobool :: "string option \<Rightarrow> errno + bool" where
  "kstrtobool s =
     (case s of
        None \<Rightarrow> Inl EINVAL
      | Some s \<Rightarrow>
          let c = char_at s 0; d = char_at s 1
          in if c \<in> set ''yYtT1'' then Inr True
             else if c \<in> set ''nNfF0'' then Inr False
             else if c \<in> set ''oO'' then
               if d \<in> set ''nN'' then Inr True
               else if d \<in> set ''fF'' then Inr False
               else Inl EINVAL
             else Inl EINVAL)"

text \<open>\<open>simple_strntoull\<close> of \<open>lib/vsprintf.c\<close>: the value and the number of characters read.\<close>

definition simple_strntoull :: "string \<Rightarrow> nat \<Rightarrow> nat \<Rightarrow> u64 \<times> nat" where
  "simple_strntoull startp max_chars base =
     (let (cp, base) = parse_integer_fixup_radix startp base; prefix_chars = length startp - length cp
      in if prefix_chars < max_chars
         then let (result, rv) = parse_integer_limit cp base (max_chars - prefix_chars) 0 0
              in (result, prefix_chars + unat (rv AND NOT KSTRTOX_OVERFLOW))
         else (0, max_chars))"

definition simple_strtoull :: "string \<Rightarrow> nat \<Rightarrow> u64 \<times> nat" where
  "simple_strtoull cp base = simple_strntoull cp INT_MAX base"

text \<open>The boot code: the same loop without a limit, and its own \<open>simple_strtoull\<close> and \<open>atou\<close>.\<close>

fun boot_parse_integer :: "string \<Rightarrow> nat \<Rightarrow> u64 \<Rightarrow> u32 \<Rightarrow> u64 \<times> u32" where
  "boot_parse_integer (c # s) base res rv =
     (case digit_value c of
        None \<Rightarrow> (res, rv)
      | Some val \<Rightarrow>
          if val \<ge> base then (res, rv)
          else
            let rv = (if res AND push_bit 60 (NOT 0) \<noteq> 0
                      then if res > (ULLONG_MAX - of_nat val) div of_nat base then rv OR KSTRTOX_OVERFLOW else rv
                      else rv)
            in boot_parse_integer s base (res * of_nat base + of_nat val) (rv + 1))"
| "boot_parse_integer [] base res rv = (res, rv)"

definition boot_kstrtoull_raw :: "string \<Rightarrow> nat \<Rightarrow> errno + u64" where
  "boot_kstrtoull_raw s base =
     (let (s, base) = parse_integer_fixup_radix s base; (res, rv) = boot_parse_integer s base 0 0
      in if rv AND KSTRTOX_OVERFLOW \<noteq> 0 then Inl ERANGE
         else if rv = 0 then Inl EINVAL
         else
           let s = drop (unat rv) s;
               s = (if char_at s 0 = CHR 0x0A then tl s else s)
           in if s \<noteq> [] then Inl EINVAL else Inr res)"

definition boot_kstrtoull :: "string \<Rightarrow> nat \<Rightarrow> errno + u64" where
  "boot_kstrtoull s base = boot_kstrtoull_raw (skip_plus s) base"

definition boot_kstrtoul :: "string \<Rightarrow> nat \<Rightarrow> errno + u32" where
  "boot_kstrtoul s base = narrow_unsigned (boot_kstrtoull s base)"

definition simple_guess_base :: "string \<Rightarrow> nat" where
  "simple_guess_base cp =
     (if char_at cp 0 = CHR ''0'' then
        if tolower (char_at cp 1) = of_char CHR ''x'' \<and> isxdigit (char_at cp 2) then 16 else 8
      else 10)"

fun boot_strtoull_loop :: "string \<Rightarrow> nat \<Rightarrow> u64 \<Rightarrow> u64 \<times> string" where
  "boot_strtoull_loop (c # cp) base result =
     (if isxdigit c then
        let val = (if isdigit c then of_char c - 48 else tolower c - 97 + 10)
        in if val \<ge> base then (result, c # cp)
           else boot_strtoull_loop cp base (result * of_nat base + of_nat val)
      else (result, c # cp))"
| "boot_strtoull_loop [] base result = (result, [])"

definition boot_simple_strtoull :: "string \<Rightarrow> nat \<Rightarrow> u64 \<times> string" where
  "boot_simple_strtoull cp base =
     (let base = (if base = 0 then simple_guess_base cp else base);
          cp = (if base = 16 \<and> char_at cp 0 = CHR ''0'' \<and> tolower (char_at cp 1) = of_char CHR ''x''
                then drop 2 cp else cp)
      in boot_strtoull_loop cp base 0)"

fun boot_atou :: "string \<Rightarrow> u32 \<Rightarrow> u32" where
  "boot_atou (c # s) i = (if isdigit c then boot_atou s (i * 10 + (of_nat (of_char c) - 48)) else i)"
| "boot_atou [] i = i"

section \<open>The reference: unbounded numbers\<close>

definition is_digit_of :: "nat \<Rightarrow> char \<Rightarrow> bool" where
  "is_digit_of base c = (case digit_value c of Some v \<Rightarrow> v < base | None \<Rightarrow> False)"

definition digits_of :: "nat \<Rightarrow> string \<Rightarrow> string" where
  "digits_of base s = takeWhile (is_digit_of base) s"

fun value_from :: "nat \<Rightarrow> nat \<Rightarrow> string \<Rightarrow> nat" where
  "value_from base v [] = v"
| "value_from base v (c # s) = value_from base (v * base + the (digit_value c)) s"

text \<open>
  What a text denotes: an optional radix prefix, digits, at most one newline. The result is the
  unbounded value, or nothing for a malformed text.
\<close>

definition read_number :: "string \<Rightarrow> nat \<Rightarrow> errno + nat" where
  "read_number s base =
     (let (s, base) = parse_integer_fixup_radix s base; ds = digits_of base s; rest = drop (length ds) s
      in if value_from base 0 ds \<ge> 2 ^ 64 then Inl ERANGE
         else if ds = [] \<or> rest \<noteq> [] \<and> rest \<noteq> [CHR 0x0A] then Inl EINVAL
         else Inr (value_from base 0 ds))"

definition read_integer :: "string \<Rightarrow> nat \<Rightarrow> errno + int" where
  "read_integer s base =
     (if char_at s 0 = CHR ''-'' then map_sum id (\<lambda>n. - int n) (read_number (tl s) base)
      else map_sum id int (read_number (skip_plus s) base))"

lemma digit_value_less: "digit_value c = Some v \<Longrightarrow> v < 16"
  by (auto simp: digit_value_def Let_def split: if_splits)

lemma value_from_mono: "v \<le> v' \<Longrightarrow> value_from base v s \<le> value_from base v' s"
  by (induction s arbitrary: v v') auto

lemma value_from_ge: "0 < base \<Longrightarrow> v \<le> value_from base v s"
proof (induction s arbitrary: v)
  case (Cons c s)
  have "v \<le> v * base + the (digit_value c)" using Cons.prems by (simp add: trans_le_add1)
  also have "\<dots> \<le> value_from base (v * base + the (digit_value c)) s" by (rule Cons.IH [OF Cons.prems])
  finally show ?case by simp
qed simp


section \<open>The loop computes the unbounded value\<close>

lemma high_bits_zero: "res AND push_bit 60 (NOT 0) = 0 \<longleftrightarrow> unat (res :: u64) < 2 ^ 60"
proof -
  have "res AND push_bit 60 (NOT 0) = push_bit 60 (drop_bit 60 res)"
    by (rule bit_word_eqI) (auto simp: bit_simps)
  also have "\<dots> = 0 \<longleftrightarrow> drop_bit 60 res = 0"
  proof
    assume z: "push_bit 60 (drop_bit 60 res) = 0"
    show "drop_bit 60 res = 0"
    proof (rule bit_word_eqI)
      fix n
      assume n: "n < LENGTH(64)"
      have "\<not> bit (push_bit 60 (drop_bit 60 res)) (n + 60)" using z by simp
      then show "bit (drop_bit 60 res) n = bit 0 n"
        by (cases "n + 60 < 64") (auto simp: bit_simps dest: bit_imp_le_length)
    qed
  qed simp
  also have "\<dots> \<longleftrightarrow> unat res div 2 ^ 60 = 0" by (simp add: unat_drop flip: unat_eq_zero)
  finally show ?thesis by (simp add: div_eq_0_iff)
qed

lemma step_overflow:
  fixes v val base :: nat
  assumes v: "v < 2 ^ 64" and val: "val < base" and base: "base \<le> 16"
  shows "(of_nat v AND push_bit 60 (NOT 0) \<noteq> (0 :: u64) \<and> of_nat v > (ULLONG_MAX - of_nat val) div (of_nat base :: u64))
    \<longleftrightarrow> 2 ^ 64 \<le> v * base + val"
proof -
  have uv: "unat (of_nat v :: u64) = v" using v by (intro unat_of_nat_small) simp
  have ub: "unat (of_nat base :: u64) = base" using base by (intro unat_of_nat_small) simp
  have ul: "unat (of_nat val :: u64) = val" using val base by (intro unat_of_nat_small) simp
  have "unat (ULLONG_MAX - of_nat val) = 2 ^ 64 - 1 - val"
    using val base ul by (simp add: ULLONG_MAX_def unat_sub word_le_nat_alt)
  then have d: "unat ((ULLONG_MAX - of_nat val) div (of_nat base :: u64)) = (2 ^ 64 - 1 - val) div base"
    by (simp only: unat_div ub)
  have "of_nat v > (ULLONG_MAX - of_nat val) div (of_nat base :: u64) \<longleftrightarrow> (2 ^ 64 - 1 - val) div base < v"
    by (simp only: word_less_nat_alt uv d)
  also have "\<dots> \<longleftrightarrow> 2 ^ 64 - 1 - val < v * base"
    using val by (simp add: div_less_iff_less_mult)
  also have "\<dots> \<longleftrightarrow> 2 ^ 64 \<le> v * base + val" using val base by auto
  finally have c: "of_nat v > (ULLONG_MAX - of_nat val) div (of_nat base :: u64) \<longleftrightarrow> 2 ^ 64 \<le> v * base + val" .
  have "2 ^ 60 \<le> v" if "2 ^ 64 \<le> v * base + val"
  proof (rule ccontr)
    assume "\<not> 2 ^ 60 \<le> v"
    then have "v * base \<le> (2 ^ 60 - 1) * 16" using base by (intro mult_le_mono) auto
    with that val base show False by simp
  qed
  moreover have "of_nat v AND push_bit 60 (NOT 0) \<noteq> (0 :: u64) \<longleftrightarrow> 2 ^ 60 \<le> v"
    by (simp only: high_bits_zero uv not_less)
  ultimately show ?thesis using c by blast
qed

definition count_word :: "nat \<Rightarrow> nat \<Rightarrow> u32" where
  "count_word v n = (if v < 2 ^ 64 then of_nat n else of_nat n OR KSTRTOX_OVERFLOW)"

lemma and_overflow:
  assumes n: "n < 2 ^ 31"
  shows "(of_nat n :: u32) AND KSTRTOX_OVERFLOW = 0"
proof (rule bit_word_eqI)
  fix i
  have "unat (of_nat n :: u32) = n" using n by (intro unat_of_nat_small) simp
  then have "\<not> bit (unat (of_nat n :: u32)) 31" using n by (simp add: bit_iff_odd del: unat_of_nat)
  then have "\<not> bit (of_nat n :: u32) 31" by (simp add: bit_unsigned_iff del: unat_of_nat)
  moreover have ov: "KSTRTOX_OVERFLOW = push_bit 31 1" by (simp add: KSTRTOX_OVERFLOW_def)
  ultimately have "\<not> bit (of_nat n AND KSTRTOX_OVERFLOW) i"
    unfolding ov bit_and_iff bit_push_bit_iff bit_1_iff by (cases "i = 31") auto
  then show "bit (of_nat n AND KSTRTOX_OVERFLOW) i = bit 0 i" by simp
qed

lemma or_overflow:
  assumes n: "n < 2 ^ 31"
  shows "of_nat n OR KSTRTOX_OVERFLOW = of_nat (n + 2 ^ 31)"
proof -
  have "of_nat n OR KSTRTOX_OVERFLOW = of_nat n + KSTRTOX_OVERFLOW"
    using and_overflow [OF n] by (simp only: disjunctive_add_eq_or)
  then show ?thesis by (simp add: KSTRTOX_OVERFLOW_def)
qed

lemma count_word_step:
  assumes "n + 1 < 2 ^ 31" and "v < 2 ^ 64 \<or> 2 ^ 64 \<le> v'" and "b \<longleftrightarrow> v < 2 ^ 64 \<and> 2 ^ 64 \<le> v' \<or> 2 ^ 64 \<le> v \<and> b"
  shows "(if b then count_word v n OR KSTRTOX_OVERFLOW else count_word v n) + 1 = count_word v' (n + 1)"
proof -
  have "of_nat n + 1 = (of_nat (n + 1) :: u32)" by simp
  moreover have "of_nat n OR KSTRTOX_OVERFLOW OR KSTRTOX_OVERFLOW = of_nat n OR KSTRTOX_OVERFLOW" by (simp add: or.assoc)
  moreover have "(of_nat n OR KSTRTOX_OVERFLOW) + 1 = of_nat (n + 1) OR KSTRTOX_OVERFLOW"
    using assms(1) or_overflow [of n] or_overflow [of "n + 1"] by simp
  ultimately show ?thesis using assms(2,3) by (auto simp: count_word_def)
qed

lemma parse_integer_limit_value:
  assumes "0 < base" and "base \<le> 16"
  shows "n + m < 2 ^ 31 \<Longrightarrow> parse_integer_limit s base m (of_nat v) (count_word v n)
    = (of_nat (value_from base v (digits_of base (take m s))),
       count_word (value_from base v (digits_of base (take m s))) (n + length (digits_of base (take m s))))"
proof (induction s arbitrary: m v n)
  case (Cons c s)
  show ?case
  proof (cases m)
    case (Suc k)
    show ?thesis
    proof (cases "digit_value c")
      case (Some val)
      show ?thesis
      proof (cases "val < base")
        case True
        let ?v = "v * base + val"
        let ?b = "of_nat v AND push_bit 60 (NOT 0) \<noteq> (0 :: u64) \<and> of_nat v > (ULLONG_MAX - of_nat val) div (of_nat base :: u64)"
        have "v \<le> v * base" using assms(1) by simp
        then have mono: "v < 2 ^ 64 \<or> 2 ^ 64 \<le> ?v" by linarith
        have b: "?b \<longleftrightarrow> v < 2 ^ 64 \<and> 2 ^ 64 \<le> ?v \<or> 2 ^ 64 \<le> v \<and> ?b"
        proof (cases "v < 2 ^ 64")
          case lt: True
          show ?thesis unfolding step_overflow [OF lt True assms(2)] using lt by blast
        next
          case False
          then show ?thesis by (metis not_le)
        qed
        have rv: "(if ?b then count_word v n OR KSTRTOX_OVERFLOW else count_word v n) + 1 = count_word ?v (n + 1)"
          using Cons.prems Suc by (intro count_word_step [OF _ mono b]) simp
        have "parse_integer_limit (c # s) base m (of_nat v) (count_word v n)
            = parse_integer_limit s base k (of_nat ?v) ((if ?b then count_word v n OR KSTRTOX_OVERFLOW else count_word v n) + 1)"
          using True Some Suc by (auto simp: Let_def)
        also have "\<dots> = parse_integer_limit s base k (of_nat ?v) (count_word ?v (n + 1))" by (simp only: rv)
        finally show ?thesis
          using Cons.IH [of "n + 1" k ?v] Cons.prems True Some Suc by (simp add: digits_of_def is_digit_of_def)
      next
        case False
        then show ?thesis using Some Suc by (simp add: digits_of_def is_digit_of_def)
      qed
    next
      case None
      then show ?thesis using Suc by (simp add: digits_of_def is_digit_of_def)
    qed
  qed (simp add: digits_of_def)
qed (simp add: digits_of_def)


section \<open>The functions\<close>

lemma count_word_overflow:
  assumes "n < 2 ^ 31"
  shows "count_word v n AND KSTRTOX_OVERFLOW \<noteq> 0 \<longleftrightarrow> 2 ^ 64 \<le> v"
    and "count_word v n AND NOT KSTRTOX_OVERFLOW = of_nat n"
proof -
  note d = and_overflow [OF assms]
  then have "(of_nat n OR KSTRTOX_OVERFLOW) AND KSTRTOX_OVERFLOW = KSTRTOX_OVERFLOW"
    by (simp add: bit.conj_disj_distrib2)
  then show "count_word v n AND KSTRTOX_OVERFLOW \<noteq> 0 \<longleftrightarrow> 2 ^ 64 \<le> v"
    using d by (auto simp: count_word_def) (simp add: KSTRTOX_OVERFLOW_def)
  have n: "(of_nat n :: u32) AND NOT KSTRTOX_OVERFLOW = of_nat n"
  proof -
    have "(of_nat n :: u32) AND (KSTRTOX_OVERFLOW OR NOT KSTRTOX_OVERFLOW) = of_nat n AND NOT KSTRTOX_OVERFLOW"
      using d by (simp only: bit.conj_disj_distrib or.left_neutral)
    then show ?thesis by simp
  qed
  then show "count_word v n AND NOT KSTRTOX_OVERFLOW = of_nat n"
    by (simp add: count_word_def bit.conj_disj_distrib2)
qed

lemma count_word_zero: "n < 2 ^ 31 \<Longrightarrow> v < 2 ^ 64 \<Longrightarrow> count_word v n = 0 \<longleftrightarrow> n = 0"
proof -
  assume n: "n < 2 ^ 31" "v < 2 ^ 64"
  have "unat (of_nat n :: u32) = n" using n by (intro unat_of_nat_small) simp
  then show ?thesis using n by (auto simp: count_word_def unat_eq_zero [symmetric] simp del: unat_of_nat)
qed

definition base_ok :: "nat \<Rightarrow> bool" where
  "base_ok base \<longleftrightarrow> base \<le> 16"

lemma fixup_radix_base:
  assumes "base \<le> 16" and "parse_integer_fixup_radix s base = (s', base')"
  shows "0 < base' \<and> base' \<le> 16 \<and> length s' \<le> length s"
  using assms by (auto simp: parse_integer_fixup_radix_def Let_def split: if_splits)

lemma digits_of_take: "length s \<le> m \<Longrightarrow> digits_of base (take m s) = digits_of base s"
  by simp

text \<open>What both copies of \<open>_kstrtoull\<close> make of the result of the loop.\<close>

definition finish_number :: "string \<Rightarrow> u64 \<times> u32 \<Rightarrow> errno + u64" where
  "finish_number s rr =
     (let (res, rv) = rr
      in if rv AND KSTRTOX_OVERFLOW \<noteq> 0 then Inl ERANGE
         else if rv = 0 then Inl EINVAL
         else
           let s = drop (unat rv) s;
               s = (if char_at s 0 = CHR 0x0A then tl s else s)
           in if s \<noteq> [] then Inl EINVAL else Inr res)"

lemma finish_number_value:
  assumes "length s < 2 ^ 31" and ds: "ds = digits_of base s"
  shows "finish_number s (of_nat (value_from base 0 ds), count_word (value_from base 0 ds) (length ds))
    = (if value_from base 0 ds \<ge> 2 ^ 64 then Inl ERANGE
       else if ds = [] \<or> drop (length ds) s \<noteq> [] \<and> drop (length ds) s \<noteq> [CHR 0x0A] then Inl EINVAL
       else Inr (of_nat (value_from base 0 ds)))"
proof -
  have l: "length ds < 2 ^ 31"
    using assms length_takeWhile_le [of "is_digit_of base" s] by (simp add: digits_of_def)
  have u: "unat (of_nat (length ds) :: u32) = length ds" using l by (intro unat_of_nat_small) simp
  define r where "r = drop (length ds) s"
  have "(if char_at r 0 = CHR 0x0A then tl r else r) \<noteq> [] \<longleftrightarrow> r \<noteq> [] \<and> r \<noteq> [CHR 0x0A]"
    by (cases r; cases "tl r") (auto simp: char_at_def)
  note rest = this
  note ov = count_word_overflow(1) [OF l, of "value_from base 0 ds"]
  show ?thesis
  proof (cases "2 ^ 64 \<le> value_from base 0 ds")
    case True
    then show ?thesis using ov by (simp add: finish_number_def)
  next
    case False
    then have cw: "count_word (value_from base 0 ds) (length ds) = of_nat (length ds)" by (simp add: count_word_def)
    have z: "(of_nat (length ds) :: u32) = 0 \<longleftrightarrow> ds = []"
      using count_word_zero [OF l, of "value_from base 0 ds"] False cw by simp
    show ?thesis
      using False ov rest unfolding finish_number_def cw Let_def prod.case u r_def [symmetric] z by auto
  qed
qed

lemma kstrtoull_raw_finish:
  "kstrtoull_raw s base = (case parse_integer_fixup_radix s base of (s, base) \<Rightarrow> finish_number s (parse_integer s base))"
  by (simp add: kstrtoull_raw_def finish_number_def Let_def)

lemma boot_kstrtoull_raw_finish:
  "boot_kstrtoull_raw s base
    = (case parse_integer_fixup_radix s base of (s, base) \<Rightarrow> finish_number s (boot_parse_integer s base 0 0))"
  by (simp add: boot_kstrtoull_raw_def finish_number_def Let_def)

lemma kstrtoull_raw_value:
  assumes "base \<le> 16" and "length s < 2 ^ 31"
  shows "kstrtoull_raw s base = map_sum id of_nat (read_number s base)"
proof -
  obtain s' base' where f: "parse_integer_fixup_radix s base = (s', base')" by fastforce
  note b = fixup_radix_base [OF assms(1) f]
  have l: "length s' < 2 ^ 31" using b assms(2) by linarith
  have "parse_integer s' base' = (of_nat (value_from base' 0 (digits_of base' s')),
      count_word (value_from base' 0 (digits_of base' s')) (length (digits_of base' s')))"
    using parse_integer_limit_value [of base' 0 INT_MAX s' 0] b l
    by (simp add: parse_integer_def count_word_def INT_MAX_def)
  then show ?thesis
    using finish_number_value [OF l refl, of base']
    by (simp add: kstrtoull_raw_finish f read_number_def Let_def)
qed

lemma boot_parse_integer_limit:
  "length s \<le> m \<Longrightarrow> boot_parse_integer s base res rv = parse_integer_limit s base m res rv"
proof (induction s arbitrary: m res rv)
  case (Cons c s)
  then obtain k where "m = Suc k" by (cases m) auto
  with Cons show ?case by (simp split: option.split)
qed simp

lemma boot_kstrtoull_same:
  assumes "length s < 2 ^ 31"
  shows "boot_kstrtoull s base = kstrtoull s base"
proof -
  have "boot_kstrtoull_raw t base = kstrtoull_raw t base" if t: "length t \<le> length s" for t
  proof -
    obtain s' base' where f: "parse_integer_fixup_radix t base = (s', base')" by fastforce
    then have "length s' \<le> length t" by (auto simp: parse_integer_fixup_radix_def Let_def split: if_splits)
    then have "length s' \<le> INT_MAX" using t assms by (simp add: INT_MAX_def)
    then show ?thesis
      by (simp add: kstrtoull_raw_finish boot_kstrtoull_raw_finish f parse_integer_def boot_parse_integer_limit)
  qed
  moreover have "length (skip_plus s) \<le> length s" by (simp add: skip_plus_def)
  ultimately show ?thesis by (simp add: boot_kstrtoull_def kstrtoull_def)
qed


lemma read_number_less: "read_number s base = Inr n \<Longrightarrow> n < 2 ^ 64"
  by (auto simp: read_number_def Let_def split: prod.splits if_splits)

lemma kstrtoull_value:
  assumes "base \<le> 16" and "length s < 2 ^ 31"
  shows "kstrtoull s base = map_sum id of_nat (read_number (skip_plus s) base)"
proof -
  have "length (skip_plus s) \<le> length s" by (simp add: skip_plus_def)
  then have "length (skip_plus s) < 2 ^ 31" using assms(2) by linarith
  then show ?thesis using kstrtoull_raw_value [OF assms(1)] by (simp add: kstrtoull_def)
qed

text \<open>A number within the limits of a signed type.\<close>

definition in_range :: "int \<Rightarrow> int \<Rightarrow> (errno + int) \<Rightarrow> errno + int" where
  "in_range lo hi r = (case r of Inl e \<Rightarrow> Inl e | Inr i \<Rightarrow> if lo \<le> i \<and> i \<le> hi then Inr i else Inl ERANGE)"

lemma sint_of_nat64:
  assumes "n < 2 ^ 64"
  shows "sint (of_nat n :: 64 word) = (if n < 2 ^ 63 then int n else int n - 2 ^ 64)"
proof -
  have "unat (of_nat n :: 64 word) = n" using assms by (intro unat_of_nat_small) simp
  then show ?thesis using sint_unat [of "of_nat n :: 64 word"] by (simp del: unat_of_nat of_nat_unat)
qed

lemma kstrtoll_value:
  assumes "base \<le> 16" and "length s < 2 ^ 31"
  shows "map_sum id sint (kstrtoll s base) = in_range (- (2 ^ 63)) (2 ^ 63 - 1) (read_integer s base)"
proof (cases "char_at s 0 = CHR ''-''")
  case True
  have l: "length (tl s) < 2 ^ 31" using assms(2) by simp
  show ?thesis
  proof (cases "read_number (tl s) base")
    case (Inl e)
    then show ?thesis
      using True kstrtoull_raw_value [OF assms(1) l] by (simp add: kstrtoll_def read_integer_def in_range_def)
  next
    case (Inr n)
    note n = read_number_less [OF Inr]
    have k: "kstrtoull_raw (tl s) base = Inr (of_nat n)"
      using kstrtoull_raw_value [OF assms(1) l] Inr by simp
    have "- (of_nat n :: 64 word) = of_nat (2 ^ 64 - n)"
      using n by (simp add: of_nat_diff)
    moreover have "sint (of_nat (2 ^ 64 - n) :: 64 word) = (if n = 0 then 0 else if n \<le> 2 ^ 63 then - int n else 2 ^ 64 - int n)"
    proof (cases "n = 0")
      case False
      then have "sint (of_nat (2 ^ 64 - n) :: 64 word)
          = (if 2 ^ 64 - n < 2 ^ 63 then int (2 ^ 64 - n) else int (2 ^ 64 - n) - 2 ^ 64)"
        using n by (intro sint_of_nat64) linarith
      then show ?thesis using False n by (auto simp: of_nat_diff)
    qed simp
    ultimately have "sint (- (of_nat n :: 64 word)) = (if n = 0 then 0 else if n \<le> 2 ^ 63 then - int n else 2 ^ 64 - int n)"
      by simp
    then show ?thesis
      using True Inr k n by (auto simp: kstrtoll_def read_integer_def in_range_def)
  qed
next
  case False
  show ?thesis
  proof (cases "read_number (skip_plus s) base")
    case (Inl e)
    then show ?thesis
      using False kstrtoull_value [OF assms] by (simp add: kstrtoll_def read_integer_def in_range_def)
  next
    case (Inr n)
    then have "kstrtoull s base = Inr (of_nat n)" using kstrtoull_value [OF assms] by simp
    then show ?thesis
      using False Inr sint_of_nat64 [OF read_number_less [OF Inr]] read_number_less [OF Inr]
      by (auto simp: kstrtoll_def read_integer_def in_range_def)
  qed
qed

definition in_width :: "nat \<Rightarrow> (errno + nat) \<Rightarrow> errno + nat" where
  "in_width w r = (case r of Inl e \<Rightarrow> Inl e | Inr n \<Rightarrow> if n < 2 ^ w then Inr n else Inl ERANGE)"

lemma narrow_unsigned_value:
  assumes "LENGTH('a::len) \<le> 64"
  shows "map_sum id unat (narrow_unsigned r :: errno + 'a word)
    = in_width (LENGTH('a)) (map_sum id unat r)"
proof (cases r)
  case (Inr x)
  have "unat (ucast (ucast x :: 'a word) :: u64) = unat x mod 2 ^ LENGTH('a)"
    using assms by (simp add: unsigned_ucast_eq unsigned_take_bit_eq mod_mod_cancel le_imp_power_dvd min_def
        flip: take_bit_eq_mod)
  then have "x = ucast (ucast x :: 'a word) \<longleftrightarrow> unat x < 2 ^ LENGTH('a)"
    by (metis mod_less mod_less_divisor zero_less_numeral zero_less_power word_unat_eq_iff)
  moreover have "unat (ucast x :: 'a word) = unat x mod 2 ^ LENGTH('a)"
    by (simp add: unsigned_ucast_eq take_bit_eq_mod)
  ultimately show ?thesis using Inr by (auto simp: narrow_unsigned_def in_width_def)
qed (simp add: narrow_unsigned_def in_width_def)


lemma narrow_signed_value:
  assumes "LENGTH('a::len) \<le> 64"
  shows "map_sum id sint (narrow_signed r :: errno + 'a word)
    = in_range (- (2 ^ (LENGTH('a) - 1))) (2 ^ (LENGTH('a) - 1) - 1) (map_sum id sint r)"
proof (cases r)
  case (Inr x)
  let ?k = "LENGTH('a) - 1"
  have k: "LENGTH('a) - Suc 0 \<le> 63" using assms by simp
  then have s: "sint (ucast x :: 'a word) = signed_take_bit ?k (sint x)"
    by (simp add: sint_uint unsigned_ucast_eq signed_take_bit_take_bit signed_take_bit_signed_take_bit min_def)
  have "sint (scast (ucast x :: 'a word) :: 64 word) = signed_take_bit ?k (sint x)"
  proof -
    have "LENGTH('a) - Suc 0 = 63" if "63 < LENGTH('a)" using that k by linarith
    then show ?thesis using k unfolding signed_scast_eq s by (auto simp: signed_take_bit_signed_take_bit min_def)
  qed
  then have "x = scast (ucast x :: 'a word) \<longleftrightarrow> signed_take_bit ?k (sint x) = sint x"
    by (metis signed_word_eqI)
  also have "\<dots> \<longleftrightarrow> - (2 ^ ?k) \<le> sint x \<and> sint x < 2 ^ ?k" by (rule signed_take_bit_int_eq_self_iff)
  finally have e: "x = scast (ucast x :: 'a word) \<longleftrightarrow> - (2 ^ ?k) \<le> sint x \<and> sint x \<le> 2 ^ ?k - 1" by auto
  show ?thesis
  proof (cases "x = scast (ucast x :: 'a word)")
    case True
    then have "sint (ucast x :: 'a word) = sint x" using s e by (simp add: signed_take_bit_int_eq_self_iff)
    then show ?thesis using True e Inr by (simp add: narrow_signed_def in_range_def)
  next
    case False
    then show ?thesis using e Inr by (simp add: narrow_signed_def in_range_def del: not_le)
  qed
qed (simp add: narrow_signed_def in_range_def)

text \<open>The boot code tests for a digit first and then computes its value.\<close>

lemma or_32_cases: "n OR 0x20 = n \<or> n OR 0x20 = n + (0x20 :: nat)"
proof (cases "bit n 5")
  case True
  have "n OR push_bit 5 1 = n"
  proof (rule bit_eqI)
    fix i
    show "bit (n OR push_bit 5 1) i = bit n i"
      using True unfolding bit_or_iff bit_push_bit_iff bit_1_iff by (cases "i = 5") auto
  qed
  then show ?thesis by simp
next
  case False
  have "n AND push_bit 5 1 = 0"
  proof (rule bit_eqI)
    fix i
    have "\<not> bit (n AND push_bit 5 1) i"
      using False unfolding bit_and_iff bit_push_bit_iff bit_1_iff by (cases "i = 5") auto
    then show "bit (n AND push_bit 5 1) i = bit 0 i" by simp
  qed
  then have "n + push_bit 5 1 = n OR push_bit 5 1" by (rule disjunctive_add_eq_or)
  then show ?thesis by simp
qed

lemma or_32: "97 \<le> n OR 0x20 \<and> n OR 0x20 \<le> (102::nat) \<longleftrightarrow> 65 \<le> n \<and> n \<le> 70 \<or> 97 \<le> n \<and> n \<le> 102"
proof
  assume "97 \<le> n OR 0x20 \<and> n OR 0x20 \<le> (102::nat)"
  then show "65 \<le> n \<and> n \<le> 70 \<or> 97 \<le> n \<and> n \<le> 102" using or_32_cases [of n] by auto
next
  assume "65 \<le> n \<and> n \<le> 70 \<or> 97 \<le> n \<and> n \<le> 102"
  then have "n = 65 \<or> n = 66 \<or> n = 67 \<or> n = 68 \<or> n = 69 \<or> n = 70
    \<or> n = 97 \<or> n = 98 \<or> n = 99 \<or> n = 100 \<or> n = 101 \<or> n = 102" by auto
  then show "97 \<le> n OR 0x20 \<and> n OR 0x20 \<le> (102::nat)" by (elim disjE) simp_all
qed

lemma boot_digit:
  "digit_value c = (if isxdigit c then Some (if isdigit c then of_char c - 48 else tolower c - 97 + 10) else None)"
proof -
  define n :: nat where "n = of_char c"
  have "n < 128 \<and> 97 \<le> n OR 0x20 \<and> n OR 0x20 \<le> 102 \<longleftrightarrow> 65 \<le> n \<and> n \<le> 70 \<or> 97 \<le> n \<and> n \<le> 102"
    using or_32 [of n] by auto
  then show ?thesis by (auto simp: digit_value_def isxdigit_def isdigit_def tolower_def Let_def n_def [symmetric])
qed

lemma boot_strtoull_loop_value:
  "boot_strtoull_loop s base (of_nat v)
    = (of_nat (value_from base v (digits_of base s)), drop (length (digits_of base s)) s)"
proof (induction s arbitrary: v)
  case (Cons c s)
  then show ?case
    using Cons.IH [of "v * base + the (digit_value c)"]
    by (auto simp: digits_of_def is_digit_of_def boot_digit Let_def)
qed (simp add: digits_of_def)

lemma fixup_radix_prefix: "parse_integer_fixup_radix s base = (t, b) \<Longrightarrow> length s - length t \<le> 2"
  by (auto simp: parse_integer_fixup_radix_def Let_def split: if_splits)

section \<open>Properties\<close>

text \<open>
  \<^bold>\<open>C25\<close>. \<open>kstrtoull\<close> and \<open>kstrtoll\<close> return exactly the number the text denotes in unbounded
  arithmetic: \<open>-ERANGE\<close> if and only if it does not fit 64 bits, \<open>-EINVAL\<close> for a malformed text, and the
  boot code's copy without the length limit agrees with them. The bases are those up to 16.
\<close>

theorem kstrtoull_exact:
  assumes "base \<le> 16" and "length s < 2 ^ 31"
  shows "map_sum id unat (kstrtoull s base) = read_number (skip_plus s) base
    \<and> map_sum id sint (kstrtoll s base) = in_range (- (2 ^ 63)) (2 ^ 63 - 1) (read_integer s base)
    \<and> boot_kstrtoull s base = kstrtoull s base"
proof (intro conjI)
  show "map_sum id unat (kstrtoull s base) = read_number (skip_plus s) base"
  proof (cases "read_number (skip_plus s) base")
    case (Inr n)
    have "unat (of_nat n :: u64) = n" using read_number_less [OF Inr] by (intro unat_of_nat_small) simp
    then show ?thesis using Inr kstrtoull_value [OF assms] by (simp del: unat_of_nat)
  qed (use kstrtoull_value [OF assms] in simp)
qed (use kstrtoll_value [OF assms] boot_kstrtoull_same [OF assms(2)] in auto)

theorem kstrtoull_exact_witness:
  "map_sum id unat (kstrtoull ''+0x1F'' 0) = read_number ''0x1F'' 0 \<and> read_number ''0x1F'' 0 = Inr 31"
proof
  show "map_sum id unat (kstrtoull ''+0x1F'' 0) = read_number ''0x1F'' 0"
    using kstrtoull_exact [of 0 "''+0x1F''"] by (simp add: skip_plus_def char_at_def)
  show "read_number ''0x1F'' 0 = Inr 31"
    by (simp add: read_number_def parse_integer_fixup_radix_def char_at_def tolower_def isxdigit_def isdigit_def
        digits_of_def is_digit_of_def digit_value_def)
qed

text \<open>
  \<^bold>\<open>C26\<close>. Each narrower function returns the number of the 64-bit one when it fits its type and
  \<open>-ERANGE\<close> when it does not, with the other errors passed on: no value is ever cut off.
\<close>

theorem kstrto_narrow:
  "map_sum id unat (kstrtoul s base) = in_width 32 (map_sum id unat (kstrtoull s base))
    \<and> map_sum id unat (kstrtouint s base) = in_width 32 (map_sum id unat (kstrtoull s base))
    \<and> map_sum id unat (kstrtou16 s base) = in_width 16 (map_sum id unat (kstrtoull s base))
    \<and> map_sum id unat (kstrtou8 s base) = in_width 8 (map_sum id unat (kstrtoull s base))
    \<and> map_sum id unat (boot_kstrtoul s base) = in_width 32 (map_sum id unat (boot_kstrtoull s base))
    \<and> map_sum id sint (kstrtol s base) = in_range (- (2 ^ 31)) (2 ^ 31 - 1) (map_sum id sint (kstrtoll s base))
    \<and> map_sum id sint (kstrtoint s base) = in_range (- (2 ^ 31)) (2 ^ 31 - 1) (map_sum id sint (kstrtoll s base))
    \<and> map_sum id sint (kstrtos16 s base) = in_range (- (2 ^ 15)) (2 ^ 15 - 1) (map_sum id sint (kstrtoll s base))"
  unfolding kstrtoul_def kstrtouint_def kstrtou16_def kstrtou8_def boot_kstrtoul_def kstrtol_def kstrtoint_def
    kstrtos16_def
  by (simp add: narrow_unsigned_value narrow_signed_value)

text \<open>
  \<^bold>\<open>C27\<close>. The \<open>simple_strtoull\<close> functions of the kernel and of the boot code read the longest run of
  digits after the radix prefix, return its value modulo \<open>2 ^ 64\<close> and stop right behind it.
\<close>

theorem simple_strtoull_value:
  assumes "base \<le> 16" and "length s < 2 ^ 31"
  shows "case parse_integer_fixup_radix s base of (t, b) \<Rightarrow>
    simple_strtoull s base
      = (of_nat (value_from b 0 (digits_of b t)), length s - length t + length (digits_of b t))
    \<and> boot_simple_strtoull s base
      = (of_nat (value_from b 0 (digits_of b t)), drop (length (digits_of b t)) t)"
proof -
  obtain t b where f: "parse_integer_fixup_radix s base = (t, b)" by fastforce
  note b = fixup_radix_base [OF assms(1) f]
  have p: "length s - length t < INT_MAX"
    using fixup_radix_prefix [OF f] by (simp add: INT_MAX_def)
  have l: "length (digits_of b t) < 2 ^ 31"
    using b assms(2) length_takeWhile_le [of "is_digit_of b" t] by (simp add: digits_of_def)
  let ?m = "INT_MAX - (length s - length t)"
  have m: "length t \<le> ?m" using assms(2) b by (simp add: INT_MAX_def)
  have "parse_integer_limit t b ?m 0 0
    = (of_nat (value_from b 0 (digits_of b t)), count_word (value_from b 0 (digits_of b t)) (length (digits_of b t)))"
  proof -
    have "0 + ?m < 2 ^ 31" by (simp add: INT_MAX_def)
    from parse_integer_limit_value [OF _ _ this, of b t 0] b m show ?thesis by (simp add: count_word_def)
  qed
  then have 1: "simple_strtoull s base
      = (of_nat (value_from b 0 (digits_of b t)), length s - length t + length (digits_of b t))"
    using p l count_word_overflow(2) [OF l, of "value_from b 0 (digits_of b t)"]
      unat_of_nat_small [of "length (digits_of b t)", where 'a = 32]
    by (simp add: simple_strtoull_def simple_strntoull_def f Let_def del: unat_of_nat)
  have "boot_simple_strtoull s base = boot_strtoull_loop t b 0"
    using f by (auto simp: boot_simple_strtoull_def parse_integer_fixup_radix_def simple_guess_base_def Let_def
        split: if_splits)
  then have "boot_simple_strtoull s base
      = (of_nat (value_from b 0 (digits_of b t)), drop (length (digits_of b t)) t)"
    using boot_strtoull_loop_value [of t b 0] by simp
  with 1 f show ?thesis by simp
qed

theorem simple_strtoull_value_witness:
  "fst (simple_strtoull ''12k'' 10) = 12 \<and> boot_simple_strtoull ''12k'' 10 = (12, ''k'')"
  using simple_strtoull_value [of 10 "''12k''"]
  by (simp add: parse_integer_fixup_radix_def char_at_def digits_of_def is_digit_of_def digit_value_def)

end
