(* ===== verification/Kput_dec.thy ===== *)
theory Kput_dec
  imports Kstrtox Kmath
begin

text \<open>
  The decimal conversion of \<open>lib/vsprintf.c\<close> for 32-bit machines: it divides by multiplying with
  rounded reciprocals, splits a 64-bit number into base 10000 digits with precomputed residues and
  takes two decimal digits at a time from a table. The digits come out in reverse order. The lemmas
  show that they are the decimal digits of the number.
\<close>

section \<open>Definitions\<close>

definition dec_char :: "nat \<Rightarrow> char" where
  "dec_char d = char_of (48 + d)"

text \<open>\<open>decpair[x]\<close>, as the two bytes a 16-bit little-endian store writes.\<close>

definition decpair :: "u32 \<Rightarrow> string" where
  "decpair x = [dec_char (unat x mod 10), dec_char (unat x div 10)]"

definition put_dec_out_r :: "u32 \<Rightarrow> string" where
  "put_dec_out_r r = (if r < 10 then take 1 (decpair r) else decpair r)"

text \<open>\<open>(x * (u64)m) >> s\<close>.\<close>

definition mul_shift :: "u32 \<Rightarrow> u64 \<Rightarrow> nat \<Rightarrow> u32" where
  "mul_shift x m s = ucast (drop_bit s (ucast x * m))"

definition put_dec_trunc8 :: "u32 \<Rightarrow> string" where
  "put_dec_trunc8 r =
     (if r < 100 then put_dec_out_r r
      else
        let q = mul_shift r 0x28f5c29 32 in
        decpair (r - 100 * q) @
        (if q < 100 then put_dec_out_r q
         else
           let r = mul_shift q 0x28f5c29 32 in
           decpair (q - 100 * r) @
           (if r < 100 then put_dec_out_r r
            else
              let q = drop_bit 19 (r * 0x147b) in
              decpair (r - 100 * q) @ put_dec_out_r q)))"

definition put_dec_full4 :: "u32 \<Rightarrow> string" where
  "put_dec_full4 r = (let q = drop_bit 19 (r * 0x147b) in decpair (r - 100 * q) @ decpair q)"

definition put_dec_helper4 :: "u32 \<Rightarrow> string \<times> u32" where
  "put_dec_helper4 x = (let q = mul_shift x 0x346DC5D7 43 in (put_dec_full4 (x - q * 10000), q))"

text \<open>\<open>while (buf[-1] == '0') --buf\<close>.\<close>

definition strip_zeros :: "string \<Rightarrow> string" where
  "strip_zeros s = rev (dropWhile (\<lambda>c. c = CHR ''0'') (rev s))"

definition put_dec :: "u64 \<Rightarrow> string" where
  "put_dec n =
     (if n < 100000000 then put_dec_trunc8 (ucast n)
      else
        let d1 = drop_bit 16 (ucast n :: u32);
            h = ucast (drop_bit 32 n) :: u32;
            d2 = h AND 0xffff;
            d3 = drop_bit 16 h;
            (s0, q) = put_dec_helper4 (656 * d3 + 7296 * d2 + 5536 * d1 + ((ucast n :: u32) AND 0xffff));
            (s1, q) = put_dec_helper4 (q + 7671 * d3 + 9496 * d2 + 6 * d1);
            (s2, q) = put_dec_helper4 (q + 4749 * d3 + 42 * d2);
            q = q + 281 * d3
        in if q \<noteq> 0 then s0 @ s1 @ s2 @ put_dec_trunc8 q else strip_zeros (s0 @ s1 @ s2))"

section \<open>The decimal digits of a number\<close>

fun dec_rev :: "nat \<Rightarrow> nat list" where
  "dec_rev n = (if n < 10 then [n] else n mod 10 # dec_rev (n div 10))"

declare dec_rev.simps [simp del]

definition decimal :: "nat \<Rightarrow> string" where
  "decimal n = map dec_char (dec_rev n)"

lemma decimal_small: "n < 10 \<Longrightarrow> decimal n = [dec_char n]"
  by (simp add: decimal_def dec_rev.simps)

lemma decimal_step: "10 \<le> n \<Longrightarrow> decimal n = dec_char (n mod 10) # decimal (n div 10)"
  by (subst decimal_def, subst dec_rev.simps) (simp add: decimal_def)

lemma decimal_10: "0 < b \<Longrightarrow> d < 10 \<Longrightarrow> decimal (10 * b + d) = dec_char d # decimal b"
  by (subst decimal_step) auto

definition pair :: "nat \<Rightarrow> string" where
  "pair x = [dec_char (x mod 10), dec_char (x div 10)]"

lemma decimal_100:
  assumes b: "0 < b" "x < 100"
  shows "decimal (100 * b + x) = pair x @ decimal b"
proof -
  have e: "100 * b + x = 10 * (10 * b + x div 10) + x mod 10" by simp
  have "decimal (100 * b + x) = dec_char (x mod 10) # decimal (10 * b + x div 10)"
    using b unfolding e by (intro decimal_10) auto
  also have "decimal (10 * b + x div 10) = dec_char (x div 10) # decimal b"
    using b by (intro decimal_10) auto
  finally show ?thesis by (simp add: pair_def)
qed

lemma decimal_pair: "10 \<le> x \<Longrightarrow> x < 100 \<Longrightarrow> decimal x = pair x"
  by (subst decimal_step) (auto simp: decimal_small pair_def)

lemma div_mult_shift:
  fixes x d m s k :: nat
  assumes e: "d * m = 2 ^ s + e" and x: "x < d * k" and b: "(k - 1) * e + (d - 1) * m < 2 ^ s" and d: "0 < d"
  shows "x * m div 2 ^ s = x div d"
proof -
  define q r where "q = x div d" and "r = x mod d"
  have xq: "x = d * q + r" by (simp add: q_def r_def)
  have "r < d" using d by (simp add: r_def)
  then have r: "r \<le> d - 1" by simp
  have "q < k" using x d by (simp add: q_def div_less_iff_less_mult mult.commute)
  then have q: "q \<le> k - 1" by simp
  have "x * m = q * (d * m) + r * m" by (simp add: xq algebra_simps)
  also have "\<dots> = q * 2 ^ s + (q * e + r * m)" by (simp only: e) (simp add: algebra_simps)
  finally have xm: "x * m = q * 2 ^ s + (q * e + r * m)" .
  have "q * e + r * m \<le> (k - 1) * e + (d - 1) * m" using q r by (intro add_mono mult_le_mono1)
  then have "q * e + r * m < 2 ^ s" using b by linarith
  then show ?thesis unfolding xm by (simp add: q_def)
qed

lemma unat_mul_shift:
  assumes "unat x * unat m < 2 ^ 64" and "unat x * unat m div 2 ^ s < 2 ^ 32"
  shows "unat (mul_shift x m s) = unat x * unat m div 2 ^ s"
proof -
  have "unat (ucast x * m) = unat x * unat m"
    using assms(1) by (subst unat_mult_nowrap) (simp_all add: unat_ucast_up)
  then show ?thesis using assms(2) by (simp add: mul_shift_def unat_ucast_down unat_drop)
qed

lemma mul_shift_100:
  assumes "unat r < 100000000"
  shows "unat (mul_shift r 0x28f5c29 32) = unat r div 100"
proof -
  have d: "unat r * 0x28f5c29 div 2 ^ 32 = unat r div 100"
    by (rule div_mult_shift [where e = 4 and k = 1000000]) (use assms in simp_all)
  show ?thesis
    using assms d unat_mul_shift [of r "0x28f5c29" 32] by simp
qed

lemma mul_shift_10000:
  assumes "unat x < 1128860000"
  shows "unat (mul_shift x 0x346DC5D7 43) = unat x div 10000"
proof -
  have d: "unat x * 0x346DC5D7 div 2 ^ 43 = unat x div 10000"
    by (rule div_mult_shift [where e = 7792 and k = 112886]) (use assms in simp_all)
  show ?thesis
    using assms d unat_mul_shift [of x "0x346DC5D7" 43] by simp
qed

lemma shift_19_100:
  fixes r :: u32
  assumes "unat r < 10000"
  shows "unat (drop_bit 19 (r * 0x147b)) = unat r div 100"
proof -
  have "unat (r * 0x147b) = unat r * 0x147b" using assms by (subst unat_mult_nowrap) simp_all
  moreover have "unat r * 0x147b div 2 ^ 19 = unat r div 100"
    by (rule div_mult_shift [where e = 12 and k = 100]) (use assms in simp_all)
  ultimately show ?thesis by (simp only: unat_drop)
qed

lemma unat_rest:
  fixes r q :: u32
  assumes "unat q = unat r div m" and "m * (unat r div m) \<le> unat r" and "m < 2 ^ 32"
  shows "unat (r - of_nat m * q) = unat r mod m"
proof -
  have um: "unat (of_nat m :: u32) = m" using assms(3) by (intro unat_of_nat_small) simp
  have "m * (unat r div m) < 4294967296" using assms(2) unat_u32_bound [of r] by (rule le_less_trans)
  then have "unat (of_nat m * q) = m * (unat r div m)"
    using assms(1) by (subst unat_mult_nowrap) (simp_all add: um del: unat_of_nat)
  then have "unat (r - of_nat m * q) = unat r - m * (unat r div m)"
    using assms(2) by (simp add: unat_sub word_le_nat_alt)
  then show ?thesis by (simp add: minus_mult_div_eq_mod)
qed

lemma decpair_rest:
  assumes "unat q = unat r div 100"
  shows "decpair (r - 100 * q) = pair (unat r mod 100)"
  using unat_rest [of q r 100] assms by (simp add: decpair_def pair_def)

lemma out_r_decimal: "unat r < 100 \<Longrightarrow> put_dec_out_r r = decimal (unat r)"
  by (auto simp: put_dec_out_r_def decpair_def word_less_nat_alt decimal_small decimal_pair pair_def)

lemma decimal_div_100:
  assumes "100 \<le> n"
  shows "decimal n = pair (n mod 100) @ decimal (n div 100)"
proof -
  have "0 < n div 100" using assms by (simp add: div_greater_zero_iff)
  from decimal_100 [OF this, of "n mod 100"] show ?thesis by simp
qed

lemma put_dec_trunc8_decimal:
  assumes "unat r < 100000000"
  shows "put_dec_trunc8 r = decimal (unat r)"
proof (cases "unat r < 100")
  case True
  then show ?thesis by (simp add: put_dec_trunc8_def word_less_nat_alt out_r_decimal)
next
  case False
  define q where "q = mul_shift r 0x28f5c29 32"
  have q: "unat q = unat r div 100" using mul_shift_100 [OF assms] by (simp add: q_def)
  define r2 where "r2 = mul_shift q 0x28f5c29 32"
  have r2: "unat r2 = unat q div 100" unfolding r2_def by (rule mul_shift_100) (use q assms in simp)
  define q2 where "q2 = drop_bit 19 (r2 * 0x147b)"
  have q2: "unat q2 = unat r2 div 100" unfolding q2_def by (rule shift_19_100) (use r2 q assms in simp)
  have last: "decpair (r2 - 100 * q2) @ put_dec_out_r q2 = decimal (unat r2)" if "100 \<le> unat r2"
    using decpair_rest [OF q2] out_r_decimal [of q2] q2 r2 q assms decimal_div_100 [OF that] by simp
  have mid: "decpair (q - 100 * r2) @ (if r2 < 100 then put_dec_out_r r2 else decpair (r2 - 100 * q2) @ put_dec_out_r q2)
      = decimal (unat q)" if "100 \<le> unat q"
    using decpair_rest [OF r2] decimal_div_100 [OF that] last out_r_decimal [of r2] r2
    by (simp add: word_less_nat_alt)
  have "put_dec_trunc8 r = decpair (r - 100 * q) @ (if q < 100 then put_dec_out_r q
      else decpair (q - 100 * r2) @ (if r2 < 100 then put_dec_out_r r2 else decpair (r2 - 100 * q2) @ put_dec_out_r q2))"
    using False by (simp add: put_dec_trunc8_def word_less_nat_alt Let_def flip: q_def r2_def q2_def)
  also have "\<dots> = pair (unat r mod 100) @ decimal (unat q)"
    using decpair_rest [OF q] mid out_r_decimal [of q] by (simp add: word_less_nat_alt)
  finally show ?thesis using decimal_div_100 [of "unat r"] False q by simp
qed

text \<open>Four digits at a time.\<close>

definition quad :: "nat \<Rightarrow> string" where
  "quad x = pair (x mod 100) @ pair (x div 100)"

lemma full4_quad: "unat r < 10000 \<Longrightarrow> put_dec_full4 r = quad (unat r)"
  using decpair_rest [OF shift_19_100, of r] shift_19_100 [of r]
  by (simp add: put_dec_full4_def Let_def quad_def decpair_def pair_def)

lemma helper4_quad:
  assumes "unat x < 1128860000"
  shows "\<exists>q. put_dec_helper4 x = (quad (unat x mod 10000), q) \<and> unat q = unat x div 10000"
proof -
  note q = mul_shift_10000 [OF assms]
  have "unat (x - mul_shift x 0x346DC5D7 43 * 10000) = unat x mod 10000"
    using unat_rest [of "mul_shift x 0x346DC5D7 43" x 10000] q by (simp add: mult.commute)
  then have "put_dec_full4 (x - mul_shift x 0x346DC5D7 43 * 10000) = quad (unat x mod 10000)"
    using full4_quad by simp
  then show ?thesis using q by (simp add: put_dec_helper4_def Let_def)
qed

lemma decimal_10000:
  assumes "0 < b" and "x < 10000"
  shows "decimal (10000 * b + x) = quad x @ decimal b"
proof -
  have e: "10000 * b + x = 100 * (100 * b + x div 100) + x mod 100" by simp
  have "decimal (10000 * b + x) = pair (x mod 100) @ decimal (100 * b + x div 100)"
    using assms unfolding e by (intro decimal_100) auto
  also have "decimal (100 * b + x div 100) = pair (x div 100) @ decimal b"
    using assms by (intro decimal_100) auto
  finally show ?thesis by (simp add: quad_def)
qed


section \<open>Whole numbers\<close>

lemma of_char_dec_char: "d < 10 \<Longrightarrow> of_char (dec_char d) = 48 + d"
  by (simp add: dec_char_def)

lemma dec_char_0: "dec_char 0 = CHR ''0''"
  by (simp add: dec_char_def char_of_def bit_0)

lemma dec_char_zero: "d < 10 \<Longrightarrow> dec_char d = CHR ''0'' \<longleftrightarrow> d = 0"
proof
  assume d: "d < 10" and "dec_char d = CHR ''0''"
  then have "(48 + d :: nat) = of_char CHR ''0''" using of_char_dec_char [OF d] by simp
  then show "d = 0" by simp
qed (simp add: dec_char_0)

lemma strip_zeros_zero: "strip_zeros (s @ [CHR ''0'']) = strip_zeros s"
  by (simp add: strip_zeros_def)

lemma strip_zeros_id: "c \<noteq> CHR ''0'' \<Longrightarrow> strip_zeros (s @ [c]) = s @ [c]"
  by (simp add: strip_zeros_def)

lemma strip_zeros_replicate: "strip_zeros (s @ replicate k (CHR ''0'')) = strip_zeros s"
proof (induction k)
  case (Suc k)
  have "s @ replicate (Suc k) (CHR ''0'') = (s @ replicate k (CHR ''0'')) @ [CHR ''0'']"
    by (simp add: replicate_append_same)
  then show ?case using Suc strip_zeros_zero by metis
qed simp

primrec fixed :: "nat \<Rightarrow> nat \<Rightarrow> string" where
  "fixed 0 a = []"
| "fixed (Suc k) a = dec_char (a mod 10) # fixed k (a div 10)"

lemma fixed_0: "fixed k 0 = replicate k (CHR ''0'')"
  by (induction k) (simp_all add: dec_char_0)

lemma strip_zeros_fixed:
  "0 < a \<Longrightarrow> a < 10 ^ k \<Longrightarrow> strip_zeros (s @ fixed k a) = s @ decimal a"
proof (induction k arbitrary: s a)
  case (Suc k)
  show ?case
  proof (cases "a < 10")
    case True
    then have "strip_zeros (s @ fixed (Suc k) a) = strip_zeros ((s @ [dec_char a]) @ replicate k (CHR ''0''))"
      by (simp add: fixed_0)
    then show ?thesis using Suc.prems(1) True dec_char_zero [of a] strip_zeros_id [of "dec_char a" s]
      by (simp only: strip_zeros_replicate decimal_small)
  next
    case False
    then have "0 < a div 10" by (simp add: div_greater_zero_iff)
    moreover have "a div 10 < 10 ^ k" using Suc.prems(2) by (simp add: less_mult_imp_div_less mult.commute)
    ultimately have "strip_zeros ((s @ [dec_char (a mod 10)]) @ fixed k (a div 10))
        = (s @ [dec_char (a mod 10)]) @ decimal (a div 10)" by (rule Suc.IH)
    then show ?thesis using False decimal_step [of a] by simp
  qed
qed simp

lemma quad_fixed: "quad a = fixed (Suc (Suc (Suc (Suc 0)))) a" if "a < 10000"
proof -
  have "a mod 100 mod 10 = a mod 10" "a mod 100 div 10 = a div 10 mod 10"
    by (simp_all add: mod_mod_cancel) (use mod_mult2_eq [of a 10 10] in simp)
  then show ?thesis using that
    by (simp add: quad_def pair_def flip: div_mult2_eq)
qed

lemma strip_zeros_quad:
  assumes "0 < a" and "a < 10000"
  shows "strip_zeros (s @ quad a) = s @ decimal a"
  using assms strip_zeros_fixed [of a "Suc (Suc (Suc (Suc 0)))" s] by (simp add: quad_fixed)

text \<open>The four 16-bit parts of a number and their sums.\<close>

lemma unat_and_ffff: "unat (x AND 0xffff :: u32) = unat x mod 65536"
proof -
  have "x AND 0xffff = take_bit 16 x" by (simp add: take_bit_eq_mask mask_eq_exp_minus_1)
  then have "unat (x AND 0xffff) = take_bit 16 (unat x)" by (simp only: unsigned_take_bit_eq)
  then show ?thesis by (simp add: take_bit_eq_mod)
qed

lemma split_16bit:
  fixes N :: nat
  shows "N = N mod 65536 + 65536 * (N div 65536 mod 65536) + 2 ^ 32 * (N div 2 ^ 32 mod 65536) + 2 ^ 48 * (N div 2 ^ 48)"
proof -
  define A B C where "A = N div 65536" and "B = A div 65536" and "C = B div 65536"
  have "N div 2 ^ 32 = B" "N div 2 ^ 48 = C" by (simp_all add: A_def B_def C_def flip: div_mult2_eq)
  moreover have "N = 65536 * A + N mod 65536" "A = 65536 * B + A mod 65536" "B = 65536 * C + B mod 65536"
    by (simp_all add: A_def B_def C_def)
  ultimately show ?thesis unfolding A_def [symmetric] by simp
qed

lemma residues_16bit:
  fixes d0 d1 d2 d3 :: nat
  defines "q0 \<equiv> 656 * d3 + 7296 * d2 + 5536 * d1 + d0"
  defines "q1 \<equiv> q0 div 10000 + 7671 * d3 + 9496 * d2 + 6 * d1"
  defines "q2 \<equiv> q1 div 10000 + 4749 * d3 + 42 * d2"
  shows "d0 + 65536 * d1 + 2 ^ 32 * d2 + 2 ^ 48 * d3
    = 10000 * (10000 * (10000 * (q2 div 10000 + 281 * d3) + q2 mod 10000) + q1 mod 10000) + q0 mod 10000"
proof -
  have "q0 = 10000 * (q0 div 10000) + q0 mod 10000" "q1 = 10000 * (q1 div 10000) + q1 mod 10000"
    "q2 = 10000 * (q2 div 10000) + q2 mod 10000" by simp_all
  then show ?thesis by (simp add: q0_def q1_def q2_def)
qed

lemma helper4_sum:
  assumes "unat x = q" and "q < 1128860000"
  obtains w where "put_dec_helper4 x = (quad (q mod 10000), w)" and "unat w = q div 10000"
  using helper4_quad [of x] assms that by auto

lemma put_dec_words:
  fixes d0 d1 d2 d3 :: u32
  assumes b: "unat d0 \<le> 65535" "unat d1 \<le> 65535" "unat d2 \<le> 65535" "unat d3 \<le> 65535"
    and N: "N = unat d0 + 65536 * unat d1 + 2 ^ 32 * unat d2 + 2 ^ 48 * unat d3" and ge: "100000000 \<le> N"
  shows "(let (s0, q) = put_dec_helper4 (656 * d3 + 7296 * d2 + 5536 * d1 + d0);
              (s1, q) = put_dec_helper4 (q + 7671 * d3 + 9496 * d2 + 6 * d1);
              (s2, q) = put_dec_helper4 (q + 4749 * d3 + 42 * d2);
              q = q + 281 * d3
          in if q \<noteq> 0 then s0 @ s1 @ s2 @ put_dec_trunc8 q else strip_zeros (s0 @ s1 @ s2)) = decimal N"
    (is "?code = _")
proof -
  define q0 where "q0 = 656 * unat d3 + 7296 * unat d2 + 5536 * unat d1 + unat d0"
  define q1 where "q1 = q0 div 10000 + 7671 * unat d3 + 9496 * unat d2 + 6 * unat d1"
  define q2 where "q2 = q1 div 10000 + 4749 * unat d3 + 42 * unat d2"
  define q3 where "q3 = q2 div 10000 + 281 * unat d3"
  have b0: "q0 < 1128860000" using b by (simp add: q0_def)
  have b1: "q1 < 1128860000" using b b0 by (simp add: q1_def)
  have b2: "q2 < 1128860000" using b b1 by (simp add: q2_def)
  have b3: "q3 < 100000000" using b b2 by (simp add: q3_def)
  have x0: "unat (656 * d3 + 7296 * d2 + 5536 * d1 + d0) = q0" using b0 by (simp add: unat_word_ariths q0_def mod_simps)
  obtain w0 where h0: "put_dec_helper4 (656 * d3 + 7296 * d2 + 5536 * d1 + d0) = (quad (q0 mod 10000), w0)"
    and w0: "unat w0 = q0 div 10000"
    by (rule helper4_sum [OF x0 b0])
  have x1: "unat (w0 + 7671 * d3 + 9496 * d2 + 6 * d1) = q1" using b1 w0 by (simp add: unat_word_ariths q1_def mod_simps)
  obtain w1 where h1: "put_dec_helper4 (w0 + 7671 * d3 + 9496 * d2 + 6 * d1) = (quad (q1 mod 10000), w1)"
    and w1: "unat w1 = q1 div 10000"
    by (rule helper4_sum [OF x1 b1])
  have x2: "unat (w1 + 4749 * d3 + 42 * d2) = q2" using b2 w1 by (simp add: unat_word_ariths q2_def mod_simps)
  obtain w2 where h2: "put_dec_helper4 (w1 + 4749 * d3 + 42 * d2) = (quad (q2 mod 10000), w2)"
    and w2: "unat w2 = q2 div 10000"
    by (rule helper4_sum [OF x2 b2])
  have w3: "unat (w2 + 281 * d3) = q3" using b3 w2 by (simp add: unat_word_ariths q3_def mod_simps)
  have Nq: "N = 10000 * (10000 * (10000 * q3 + q2 mod 10000) + q1 mod 10000) + q0 mod 10000"
    unfolding N q3_def q2_def q1_def q0_def by (rule residues_16bit)
  have big: "0 < 10000 * q3 + q2 mod 10000" using ge Nq by simp linarith
  have Nd: "decimal N = quad (q0 mod 10000) @ quad (q1 mod 10000) @ decimal (10000 * q3 + q2 mod 10000)"
    unfolding Nq using big by (subst decimal_10000, simp, simp, subst decimal_10000) simp_all
  have "?code = (if q3 \<noteq> 0 then quad (q0 mod 10000) @ quad (q1 mod 10000) @ quad (q2 mod 10000) @ put_dec_trunc8 (w2 + 281 * d3)
      else strip_zeros (quad (q0 mod 10000) @ quad (q1 mod 10000) @ quad (q2 mod 10000)))"
    using h0 h1 h2 w3 by (simp add: word_unat_eq_iff)
  then show ?thesis
    using Nd b3 w3 big put_dec_trunc8_decimal [of "w2 + 281 * d3"]
      strip_zeros_quad [of "q2 mod 10000" "quad (q0 mod 10000) @ quad (q1 mod 10000)"]
    by (auto simp: decimal_10000)
qed

lemma put_dec_decimal: "put_dec n = decimal (unat n)"
proof (cases "unat n < 100000000")
  case True
  have "unat (ucast n :: u32) = unat n" using True by (simp add: unat_ucast_down)
  then show ?thesis using True put_dec_trunc8_decimal [of "ucast n"] by (simp add: put_dec_def word_less_nat_alt)
next
  case False
  define N where "N = unat n"
  define d1 where "d1 = drop_bit 16 (ucast n :: u32)"
  define h where "h = (ucast (drop_bit 32 n) :: u32)"
  define d2 where "d2 = h AND 0xffff"
  define d3 where "d3 = drop_bit 16 h"
  define d0 where "d0 = (ucast n :: u32) AND 0xffff"
  have N: "N < 2 ^ 64" using unat_u64_bound [of n] by (simp add: N_def)
  have uh: "unat h = N div 2 ^ 32"
    using N by (simp add: h_def unat_ucast_down unat_drop flip: N_def)
  have un: "unat (ucast n :: u32) = N mod 4294967296" by (simp add: unat_ucast_down flip: N_def)
  have u0: "unat d0 = N mod 65536"
    unfolding d0_def unat_and_ffff un by (rule mod_mod_cancel) simp
  have u1: "unat d1 = N div 65536 mod 65536"
    unfolding d1_def unat_drop un using mod_mult2_eq [of N 65536 65536] by simp
  have u2: "unat d2 = N div 2 ^ 32 mod 65536" unfolding d2_def unat_and_ffff uh ..
  have u3: "unat d3 = N div 2 ^ 48" unfolding d3_def unat_drop uh by (simp flip: div_mult2_eq)
  have b: "unat d0 \<le> 65535" "unat d1 \<le> 65535" "unat d2 \<le> 65535" "unat d3 \<le> 65535"
    using N by (simp_all add: u0 u1 u2 u3 less_Suc_eq_le [symmetric] div_less_iff_less_mult)
  have e: "N = unat d0 + 65536 * unat d1 + 2 ^ 32 * unat d2 + 2 ^ 48 * unat d3"
    using split_16bit [of N] by (simp add: u0 u1 u2 u3)
  have "100000000 \<le> N" using False by (simp add: N_def)
  from put_dec_words [OF b e this] False show ?thesis
    unfolding put_dec_def by (simp add: word_less_nat_alt flip: d1_def h_def d2_def d3_def d0_def N_def)
qed

text \<open>
  \<^bold>\<open>C24\<close>. \<open>put_dec\<close>, which multiplies by rounded reciprocals and splits the number into residues modulo
  10000, writes exactly the decimal digits of every 64-bit number, last digit first and without
  leading zeros.
\<close>

theorem put_dec_correct: "put_dec n = map dec_char (dec_rev (unat n)) \<and> put_dec n \<noteq> []"
  by (subst (2) put_dec_decimal) (simp add: put_dec_decimal decimal_def dec_rev.simps)

end
