(* ===== verification/Kcstring.thy ===== *)
theory Kcstring
  imports Kstrtox
begin

unbundle bit_operations_syntax

text \<open>
  Characters and zero-terminated strings: the class table of \<open>lib/ctype.c\<close>, and what it means that a
  buffer holds a text.
\<close>

section \<open>Character classes\<close>

definition ctype :: "nat list" where
  "ctype =
    [8,8,8,8,8,8,8,8, 8,0x28,0x28,0x28,0x28,0x28,8,8,
     8,8,8,8,8,8,8,8, 8,8,8,8,8,8,8,8,
     0xa0,0x10,0x10,0x10,0x10,0x10,0x10,0x10, 0x10,0x10,0x10,0x10,0x10,0x10,0x10,0x10,
     4,4,4,4,4,4,4,4, 4,4,0x10,0x10,0x10,0x10,0x10,0x10,
     0x10,0x41,0x41,0x41,0x41,0x41,0x41,1, 1,1,1,1,1,1,1,1,
     1,1,1,1,1,1,1,1, 1,1,1,0x10,0x10,0x10,0x10,0x10,
     0x10,0x42,0x42,0x42,0x42,0x42,0x42,2, 2,2,2,2,2,2,2,2,
     2,2,2,2,2,2,2,2, 2,2,2,0x10,0x10,0x10,0x10,8,
     0,0,0,0,0,0,0,0,0,0,0,0,0,0,0,0, 0,0,0,0,0,0,0,0,0,0,0,0,0,0,0,0,
     0xa0,0x10,0x10,0x10,0x10,0x10,0x10,0x10,0x10,0x10,0x10,0x10,0x10,0x10,0x10,0x10,
     0x10,0x10,0x10,0x10,0x10,0x10,0x10,0x10,0x10,0x10,0x10,0x10,0x10,0x10,0x10,0x10,
     1,1,1,1,1,1,1,1,1,1,1,1,1,1,1,1, 1,1,1,1,1,1,1,0x10,1,1,1,1,1,1,1,2,
     2,2,2,2,2,2,2,2,2,2,2,2,2,2,2,2, 2,2,2,2,2,2,2,0x10,2,2,2,2,2,2,2,2]"

definition ismask :: "char \<Rightarrow> nat" where
  "ismask c = ctype ! of_char c"

definition isalnum :: "char \<Rightarrow> bool" where
  "isalnum c \<longleftrightarrow> ismask c AND (1 OR 2 OR 4) \<noteq> 0"

definition isspace :: "char \<Rightarrow> bool" where
  "isspace c \<longleftrightarrow> ismask c AND 0x20 \<noteq> 0"

section \<open>Strings in buffers\<close>

lemma char_at_Nil [simp]: "char_at [] i = CHR 0x00"
  by (simp add: char_at_def)

lemma char_at_Cons_0 [simp]: "char_at (c # s) 0 = c"
  by (simp add: char_at_def)

text \<open>The bytes of a buffer that holds a text as a C string, cut off where the buffer ends.\<close>

definition holds_text :: "string \<Rightarrow> string \<Rightarrow> bool" where
  "holds_text b t \<longleftrightarrow> (0 < length b \<longrightarrow>
     take (length t) (take (length b - 1) b) = take (length b - 1) t \<and> b ! min (length t) (length b - 1) = CHR 0x00)"

text \<open>The string in a buffer, up to the terminating zero.\<close>

definition cstr :: "string \<Rightarrow> string" where
  "cstr b = takeWhile (\<lambda>c. c \<noteq> CHR 0x00) b"

lemma cstr_holds_text:
  assumes "holds_text b t" and "length t < length b" and "CHR 0x00 \<notin> set t"
  shows "cstr b = t"
proof -
  have t: "take (length t) b = t" and z: "b ! length t = CHR 0x00"
    using assms by (auto simp: holds_text_def min_absorb1)
  have "b = t @ b ! length t # drop (Suc (length t)) b"
    using assms(2) t id_take_nth_drop by metis
  then have "cstr b = takeWhile (\<lambda>c. c \<noteq> CHR 0x00) (t @ CHR 0x00 # drop (Suc (length t)) b)"
    unfolding cstr_def z by simp
  also have "\<dots> = t" using assms(3) by (subst takeWhile_append2) auto
  finally show ?thesis .
qed

end
