(* ===== verification/Kvsprintf.thy ===== *)
theory Kvsprintf
  imports Kput_dec Kcstring
begin

unbundle bit_operations_syntax

text \<open>
  The formatted output of \<open>lib/vsprintf.c\<close>. An output state is the buffer and the position
  \<open>str - buf\<close>, which moves on past the end of the buffer while nothing is stored there any more. The
  arguments are the words of the caller's stack frame, as on a 32-bit x86, and an index into them.
  What a pointer argument points at, and the hash of a pointer, are an environment record.
\<close>

section \<open>Format specifications\<close>

definition SIGN :: u8 where "SIGN = 1"
definition LEFT :: u8 where "LEFT = 2"
definition PLUS :: u8 where "PLUS = 4"
definition SPACE :: u8 where "SPACE = 8"
definition ZEROPAD :: u8 where "ZEROPAD = 16"
definition SMALL :: u8 where "SMALL = 32"
definition SPECIAL :: u8 where "SPECIAL = 64"

datatype format_type =
    FORMAT_TYPE_NONE | FORMAT_TYPE_WIDTH | FORMAT_TYPE_PRECISION | FORMAT_TYPE_CHAR | FORMAT_TYPE_STR
  | FORMAT_TYPE_PTR | FORMAT_TYPE_PERCENT_CHAR | FORMAT_TYPE_INVALID | FORMAT_TYPE_LONG_LONG
  | FORMAT_TYPE_ULONG | FORMAT_TYPE_LONG | FORMAT_TYPE_UBYTE | FORMAT_TYPE_BYTE | FORMAT_TYPE_USHORT
  | FORMAT_TYPE_SHORT | FORMAT_TYPE_UINT | FORMAT_TYPE_INT | FORMAT_TYPE_SIZE_T | FORMAT_TYPE_PTRDIFF

record printf_spec =
  fmt_type :: format_type
  field_width :: int
  flags :: u8
  base :: nat
  precision :: int

text \<open>A store into a signed bit field of 24 or 16 bits.\<close>

definition bits24 :: "int \<Rightarrow> int" where "bits24 i = (i + 2 ^ 23) mod 2 ^ 24 - 2 ^ 23"
definition bits16 :: "int \<Rightarrow> int" where "bits16 i = (i + 2 ^ 15) mod 2 ^ 16 - 2 ^ 15"

definition set_width :: "int \<Rightarrow> printf_spec \<Rightarrow> printf_spec" where
  "set_width w spec = spec\<lparr>field_width := bits24 w\<rparr>"

definition set_prec :: "int \<Rightarrow> printf_spec \<Rightarrow> printf_spec" where
  "set_prec w spec = spec\<lparr>precision := bits16 w\<rparr>"

definition FIELD_WIDTH_MAX :: int where "FIELD_WIDTH_MAX = 2 ^ 23 - 1"
definition PRECISION_MAX :: int where "PRECISION_MAX = 2 ^ 15 - 1"

definition has :: "u8 \<Rightarrow> printf_spec \<Rightarrow> bool" where
  "has f spec \<longleftrightarrow> flags spec AND f \<noteq> 0"

definition add_flag :: "u8 \<Rightarrow> printf_spec \<Rightarrow> printf_spec" where
  "add_flag f spec = spec\<lparr>flags := flags spec OR f\<rparr>"

section \<open>Output\<close>

type_synonym out = "string \<times> nat"

text \<open>\<open>if (buf < end) *buf = c; ++buf\<close>.\<close>

fun emit :: "char \<Rightarrow> out \<Rightarrow> out" where
  "emit c (b, p) = ((if p < length b then b[p := c] else b), p + 1)"

primrec emits :: "string \<Rightarrow> out \<Rightarrow> out" where
  "emits [] st = st"
| "emits (c # cs) st = emits cs (emit c st)"

text \<open>\<open>while (--field_width >= 0)\<close> around one store, on an \<open>int\<close>.\<close>

function pad :: "char \<Rightarrow> int \<Rightarrow> out \<Rightarrow> int \<times> out" where
  "pad c fw st = (let fw = fw - 1 in if 0 \<le> fw then pad c fw (emit c st) else (fw, st))"
  by pat_completeness auto
termination by (relation "measure (\<lambda>(c, fw, st). nat fw)") auto

declare pad.simps [simp del]

text \<open>\<open>while (i <= --precision)\<close> around the store of a zero.\<close>

function pad_precision :: "int \<Rightarrow> int \<Rightarrow> out \<Rightarrow> out" where
  "pad_precision i prec st = (let prec = prec - 1 in if i \<le> prec then pad_precision i prec (emit (CHR ''0'') st) else st)"
  by pat_completeness auto
termination by (relation "measure (\<lambda>(i, prec, st). nat (prec - i))") auto

declare pad_precision.simps [simp del]

section \<open>Numbers\<close>

definition hex_asc_upper :: string where
  "hex_asc_upper = ''0123456789ABCDEF''"

definition or_locase :: "char \<Rightarrow> u8 \<Rightarrow> char" where
  "or_locase c locase = char_of (of_char c OR unat locase)"

text \<open>The do-while loop that takes octal or hexadecimal digits.\<close>

function digits_pow2 :: "u64 \<Rightarrow> nat \<Rightarrow> u8 \<Rightarrow> string" where
  "digits_pow2 num b locase =
     (let d = or_locase (hex_asc_upper ! unat (num AND 0xff AND (of_nat b - 1))) locase;
          num' = drop_bit (if b = 16 then 4 else 3) num
      in if num' \<noteq> 0 then d # digits_pow2 num' b locase else [d])"
  by pat_completeness auto
termination
proof (relation "measure (\<lambda>(num, b, locase). unat num)", goal_cases)
  case (2 num b locase d num')
  define s :: nat where "s = (if b = 16 then 4 else 3)"
  have num': "num' = drop_bit s num" "num' \<noteq> 0" using 2 by (simp_all only: s_def) simp_all
  have "unat num' = unat num div 2 ^ s" using num'(1) unat_drop by simp
  moreover have "unat num' \<noteq> 0" using num'(2) by (simp add: unat_eq_0)
  moreover have "1 < (2 :: nat) ^ s" by (simp add: s_def)
  ultimately have "unat num' < unat num" by (metis div_less_dividend div_0 gr0I)
  then show ?case by simp
qed simp

declare digits_pow2.simps [simp del]

text \<open>\<open>tmp[0..i)\<close>, in reverse order.\<close>

definition number_digits :: "u64 \<Rightarrow> nat \<Rightarrow> u8 \<Rightarrow> string" where
  "number_digits num b locase =
     (if num < of_nat b then [or_locase (hex_asc_upper ! unat num) locase]
      else if b \<noteq> 10 then digits_pow2 num b locase
      else put_dec num)"

definition number :: "u64 \<Rightarrow> printf_spec \<Rightarrow> out \<Rightarrow> out" where
  "number num spec st =
     (let need_pfx = (has SPECIAL spec \<and> base spec \<noteq> 10);
          is_zero = (num = 0);
          fw = field_width spec;
          prec = precision spec;
          locase = flags spec AND SMALL;
          spec = (if has LEFT spec then spec\<lparr>flags := flags spec AND NOT ZEROPAD\<rparr> else spec);
          (sign, num, fw) =
            (if has SIGN spec then
               if num <s 0 then (Some (CHR ''-''), - num, fw - 1)
               else if has PLUS spec then (Some (CHR ''+''), num, fw - 1)
               else if has SPACE spec then (Some (CHR '' ''), num, fw - 1)
               else (None, num, fw)
             else (None, num, fw));
          fw = (if need_pfx then if base spec = 16 then fw - 2 else if \<not> is_zero then fw - 1 else fw else fw);
          tmp = number_digits num (base spec) locase;
          i = int (length tmp);
          prec = (if prec < i then i else prec);
          fw = fw - prec;
          (fw, st) = (if \<not> has (ZEROPAD OR LEFT) spec then pad (CHR '' '') fw st else (fw, st));
          st = (case sign of Some c \<Rightarrow> emit c st | None \<Rightarrow> st);
          st = (if need_pfx then
                  let st = (if base spec = 16 \<or> \<not> is_zero then emit (CHR ''0'') st else st)
                  in if base spec = 16 then emit (or_locase (CHR ''X'') locase) st else st
                else st);
          (fw, st) = (if \<not> has LEFT spec
                      then pad (char_of (32 + unat (flags spec AND ZEROPAD))) fw st else (fw, st));
          st = pad_precision i prec st;
          st = emits (rev tmp) st
      in snd (pad (CHR '' '') fw st))"

definition special_hex_number :: "u64 \<Rightarrow> int \<Rightarrow> out \<Rightarrow> out" where
  "special_hex_number num sz =
     number num \<lparr>fmt_type = FORMAT_TYPE_PTR, field_width = bits24 (2 + 2 * sz),
       flags = SPECIAL OR SMALL OR ZEROPAD, base = 16, precision = -1\<rparr>"

section \<open>Strings\<close>

definition memset :: "nat \<Rightarrow> char \<Rightarrow> nat \<Rightarrow> string \<Rightarrow> string" where
  "memset i c k b = take i b @ replicate k c @ drop (i + k) b"

definition memmove :: "nat \<Rightarrow> nat \<Rightarrow> nat \<Rightarrow> string \<Rightarrow> string" where
  "memmove d s k b = take d b @ take k (drop s b) @ drop (d + k) b"

definition move_right :: "nat \<Rightarrow> nat \<Rightarrow> nat \<Rightarrow> string \<Rightarrow> string" where
  "move_right buf len spaces b =
     (if length b \<le> buf then b
      else
        let sz = length b - buf in
        if sz \<le> spaces then memset buf (CHR '' '') sz b
        else
          let b = (if len \<noteq> 0 then memmove (buf + spaces) buf (if sz - spaces < len then sz - spaces else len) b
                   else b)
          in memset buf (CHR '' '') spaces b)"

definition widen_string :: "nat \<Rightarrow> printf_spec \<Rightarrow> out \<Rightarrow> out" where
  "widen_string n spec st =
     (if field_width spec \<le> int n then st
      else
        let spaces = nat (field_width spec - int n) in
        if \<not> has LEFT spec then (move_right (snd st - n) n spaces (fst st), snd st + spaces)
        else emits (replicate spaces (CHR '' '')) st)"

text \<open>The loop stops at the terminating zero or when \<open>lim\<close> characters were stored; a negative
  \<open>lim\<close> is no limit.\<close>

fun string_loop :: "int \<Rightarrow> string \<Rightarrow> nat \<Rightarrow> out \<Rightarrow> nat \<times> out" where
  "string_loop lim [] len st = (len, st)"
| "string_loop lim (c # s) len st =
     (if lim = 0 then (len, st) else string_loop (lim - 1) s (len + 1) (emit c st))"

definition string_nocheck :: "string \<Rightarrow> printf_spec \<Rightarrow> out \<Rightarrow> out" where
  "string_nocheck s spec st =
     (let (len, st) = string_loop (precision spec) s 0 st in widen_string len spec st)"

definition error_string :: "string \<Rightarrow> printf_spec \<Rightarrow> out \<Rightarrow> out" where
  "error_string s spec = string_nocheck s (if precision spec = -1 then set_prec 8 spec else spec)"

definition IS_ERR :: "u32 \<Rightarrow> bool" where
  "IS_ERR ptr \<longleftrightarrow> - 4095 \<le> ptr"

definition err_ptr :: "u32 \<Rightarrow> printf_spec \<Rightarrow> out \<Rightarrow> out" where
  "err_ptr ptr spec = number (scast ptr) ((add_flag SIGN spec)\<lparr>base := 10\<rparr>)"

definition check_pointer_msg :: "u32 \<Rightarrow> string option" where
  "check_pointer_msg ptr =
     (if ptr = 0 then Some ''(null)''
      else if ptr < 4096 \<or> IS_ERR ptr then Some ''(efault)'' else None)"

definition check_pointer :: "u32 \<Rightarrow> printf_spec \<Rightarrow> out \<Rightarrow> out option" where
  "check_pointer ptr spec st =
     (case check_pointer_msg ptr of Some m \<Rightarrow> Some (error_string m spec st) | None \<Rightarrow> None)"

section \<open>Pointers\<close>

text \<open>The stack words of a call, and what pointers lead to: the characters up to the terminating zero
  at an address, the format and arguments of a \<open>struct va_format\<close>, and the hash of a pointer, which is
  missing before the key is available.\<close>

type_synonym va_list = "nat \<Rightarrow> u32"

type_synonym printer = "u32 \<Rightarrow> nat \<Rightarrow> string \<Rightarrow> va_list \<times> nat \<Rightarrow> string \<Rightarrow> (string \<times> nat) option"

record penv =
  str_at :: "u32 \<Rightarrow> string"
  va_format_at :: "u32 \<Rightarrow> string \<times> va_list \<times> nat"
  ptr_to_hashval :: "u32 \<Rightarrow> u32 option"
  debug_boot_weak_hash :: bool
  no_hash_pointers :: bool

definition string :: "penv \<Rightarrow> u32 \<Rightarrow> printf_spec \<Rightarrow> out \<Rightarrow> out" where
  "string E ptr spec st =
     (case check_pointer ptr spec st of Some st \<Rightarrow> st
      | None \<Rightarrow> string_nocheck (str_at E ptr) spec st)"

definition pointer_string :: "u32 \<Rightarrow> printf_spec \<Rightarrow> out \<Rightarrow> out" where
  "pointer_string ptr spec =
     (let spec = add_flag SMALL (spec\<lparr>base := 16\<rparr>);
          spec = (if field_width spec = -1 then add_flag ZEROPAD (set_width 8 spec) else spec)
      in number (ucast ptr) spec)"

definition hash_long :: "u32 \<Rightarrow> nat \<Rightarrow> u32" where
  "hash_long val bits = drop_bit (32 - bits) (val * 0x61C88647)"

definition ptr_to_id :: "penv \<Rightarrow> u32 \<Rightarrow> printf_spec \<Rightarrow> out \<Rightarrow> out" where
  "ptr_to_id E ptr spec =
     (if ptr = 0 \<or> IS_ERR ptr then pointer_string ptr spec
      else if debug_boot_weak_hash E then pointer_string (hash_long ptr 32) spec
      else case ptr_to_hashval E ptr of
             None \<Rightarrow> error_string ''(ptrval)'' (set_width 8 spec)
           | Some hashval \<Rightarrow> pointer_string hashval spec)"

definition default_pointer :: "penv \<Rightarrow> u32 \<Rightarrow> printf_spec \<Rightarrow> out \<Rightarrow> out" where
  "default_pointer E ptr spec =
     (if no_hash_pointers E then pointer_string ptr spec else ptr_to_id E ptr spec)"

definition restricted_pointer :: "u32 \<Rightarrow> printf_spec \<Rightarrow> out \<Rightarrow> out" where
  "restricted_pointer ptr spec = pointer_string ptr spec"

definition dentry_name :: "printf_spec \<Rightarrow> out \<Rightarrow> out" where "dentry_name = error_string ''(dentry)''"
definition file_dentry_name :: "printf_spec \<Rightarrow> out \<Rightarrow> out" where "file_dentry_name = error_string ''(file)''"
definition resource_string :: "printf_spec \<Rightarrow> out \<Rightarrow> out" where "resource_string = error_string ''(rsrc)''"
definition hex_string :: "printf_spec \<Rightarrow> out \<Rightarrow> out" where "hex_string = error_string ''(hex)''"
definition bitmap_string :: "printf_spec \<Rightarrow> out \<Rightarrow> out" where "bitmap_string = error_string ''(bitmap)''"
definition bitmap_list_string :: "printf_spec \<Rightarrow> out \<Rightarrow> out" where "bitmap_list_string = error_string ''(blist)''"
definition mac_address_string :: "printf_spec \<Rightarrow> out \<Rightarrow> out" where "mac_address_string = error_string ''(mac)''"
definition ip_addr_string :: "printf_spec \<Rightarrow> out \<Rightarrow> out" where "ip_addr_string = error_string ''(ip)''"
definition escaped_string :: "printf_spec \<Rightarrow> out \<Rightarrow> out" where "escaped_string = error_string ''(esc)''"
definition uuid_string :: "printf_spec \<Rightarrow> out \<Rightarrow> out" where "uuid_string = error_string ''(uuid)''"
definition netdev_bits :: "printf_spec \<Rightarrow> out \<Rightarrow> out" where "netdev_bits = error_string ''(netdev)''"
definition fourcc_string :: "printf_spec \<Rightarrow> out \<Rightarrow> out" where "fourcc_string = error_string ''(fourcc)''"
definition address_val :: "printf_spec \<Rightarrow> out \<Rightarrow> out" where "address_val = error_string ''(addr)''"
definition time_and_date :: "printf_spec \<Rightarrow> out \<Rightarrow> out" where "time_and_date = error_string ''(time)''"
definition clock :: "printf_spec \<Rightarrow> out \<Rightarrow> out" where "clock = error_string ''(clock)''"
definition flags_string :: "printf_spec \<Rightarrow> out \<Rightarrow> out" where "flags_string = error_string ''(flags)''"
definition device_node_string :: "printf_spec \<Rightarrow> out \<Rightarrow> out" where "device_node_string = error_string ''(devnode)''"
definition fwnode_string :: "printf_spec \<Rightarrow> out \<Rightarrow> out" where "fwnode_string = error_string ''(fwnode)''"

definition symbol_string :: "u32 \<Rightarrow> out \<Rightarrow> out" where
  "symbol_string ptr = special_hex_number (ucast ptr) 4"

text \<open>\<open>va_format\<close> runs \<open>vsnprintf\<close>, given as \<open>vsn\<close>, on the rest of the buffer; \<open>addr\<close> is the
  address of the buffer.\<close>

definition va_format ::
  "penv \<Rightarrow> printer \<Rightarrow> u32 \<Rightarrow> u32 \<Rightarrow> printf_spec \<Rightarrow> out \<Rightarrow> out option" where
  "va_format E vsn addr ptr spec st =
     (case check_pointer ptr spec st of Some st \<Rightarrow> Some st
      | None \<Rightarrow>
          (case (st, va_format_at E ptr) of ((b, p), (fmt, va)) \<Rightarrow>
             (case vsn (addr + of_nat p) (if p < length b then length b - p else 0) fmt va (drop p b) of
                None \<Rightarrow> None
              | Some (b', n) \<Rightarrow> Some (take p b @ b', p + n))))"

text \<open>The cases of \<open>pointer\<close> other than \<open>%pV\<close>.\<close>

definition pointer_case :: "penv \<Rightarrow> string \<Rightarrow> u32 \<Rightarrow> printf_spec \<Rightarrow> out \<Rightarrow> out" where
  "pointer_case E fmt ptr spec =
     (let c = char_at fmt 0; c1 = char_at fmt 1 in
      if c = CHR ''S'' \<or> c = CHR ''s'' \<or> c = CHR ''B'' then symbol_string ptr
      else if c = CHR ''R'' \<or> c = CHR ''r'' then resource_string spec
      else if c = CHR ''h'' then hex_string spec
      else if c = CHR ''b'' then
        (if c1 = CHR ''l'' then bitmap_list_string spec else bitmap_string spec)
      else if c = CHR ''M'' \<or> c = CHR ''m'' then mac_address_string spec
      else if c = CHR ''I'' \<or> c = CHR ''i'' then ip_addr_string spec
      else if c = CHR ''E'' then escaped_string spec
      else if c = CHR ''U'' then uuid_string spec
      else if c = CHR ''K'' then restricted_pointer ptr spec
      else if c = CHR ''N'' then netdev_bits spec
      else if c = CHR ''4'' then fourcc_string spec
      else if c = CHR ''a'' then address_val spec
      else if c = CHR ''d'' then dentry_name spec
      else if c = CHR ''t'' then time_and_date spec
      else if c = CHR ''C'' then clock spec
      else if c = CHR ''D'' then file_dentry_name spec
      else if c = CHR ''G'' then flags_string spec
      else if c = CHR ''O'' then device_node_string spec
      else if c = CHR ''f'' then fwnode_string spec
      else if c = CHR ''x'' then pointer_string ptr spec
      else if c = CHR ''e'' then
        (if \<not> IS_ERR ptr then default_pointer E ptr spec else err_ptr ptr spec)
      else if c = CHR ''u'' \<or> c = CHR ''k'' then
        (if c1 = CHR ''s'' then string E ptr spec else error_string ''(einval)'' spec)
      else default_pointer E ptr spec)"

definition pointer ::
  "penv \<Rightarrow> printer \<Rightarrow> u32 \<Rightarrow> string \<Rightarrow> u32 \<Rightarrow> printf_spec \<Rightarrow> out \<Rightarrow> out option" where
  "pointer E vsn addr fmt ptr spec st =
     (if char_at fmt 0 = CHR ''V'' then va_format E vsn addr ptr spec st
      else Some (pointer_case E fmt ptr spec st))"

section \<open>Decoding a format\<close>

text \<open>\<open>skip_atoi\<close>, on a text that starts with a digit; the sum wraps like the \<open>int\<close>.\<close>

fun skip_atoi_loop :: "string \<Rightarrow> u32 \<Rightarrow> u32 \<times> string" where
  "skip_atoi_loop [] i = (i, [])"
| "skip_atoi_loop (c # s) i =
     (if isdigit c then skip_atoi_loop s (i * 10 + of_char c - 48) else (i, c # s))"

definition skip_atoi :: "string \<Rightarrow> int \<times> string" where
  "skip_atoi s = (case skip_atoi_loop (tl s) (of_char (hd s) - 48) of (i, s) \<Rightarrow> (sint i, s))"

fun decode_flags :: "string \<Rightarrow> printf_spec \<Rightarrow> string \<times> printf_spec" where
  "decode_flags [] spec = ([], spec)"
| "decode_flags (c # fmt) spec =
     (if c = CHR ''-'' then decode_flags fmt (add_flag LEFT spec)
      else if c = CHR ''+'' then decode_flags fmt (add_flag PLUS spec)
      else if c = CHR '' '' then decode_flags fmt (add_flag SPACE spec)
      else if c = CHR ''#'' then decode_flags fmt (add_flag SPECIAL spec)
      else if c = CHR ''0'' then decode_flags fmt (add_flag ZEROPAD spec)
      else (c # fmt, spec))"

definition signed_type :: "format_type \<Rightarrow> format_type \<Rightarrow> printf_spec \<Rightarrow> printf_spec" where
  "signed_type u s spec = spec\<lparr>fmt_type := if has SIGN spec then s else u\<rparr>"

definition decode_integer :: "char \<Rightarrow> printf_spec \<Rightarrow> printf_spec" where
  "decode_integer q spec =
     (if q = CHR ''L'' then spec\<lparr>fmt_type := FORMAT_TYPE_LONG_LONG\<rparr>
      else if q = CHR ''l'' then signed_type FORMAT_TYPE_ULONG FORMAT_TYPE_LONG spec
      else if q = CHR ''z'' then spec\<lparr>fmt_type := FORMAT_TYPE_SIZE_T\<rparr>
      else if q = CHR ''t'' then spec\<lparr>fmt_type := FORMAT_TYPE_PTRDIFF\<rparr>
      else if q = CHR ''H'' then signed_type FORMAT_TYPE_UBYTE FORMAT_TYPE_BYTE spec
      else if q = CHR ''h'' then signed_type FORMAT_TYPE_USHORT FORMAT_TYPE_SHORT spec
      else signed_type FORMAT_TYPE_UINT FORMAT_TYPE_INT spec)"

definition decode_conversion :: "char \<Rightarrow> string \<Rightarrow> printf_spec \<Rightarrow> string \<times> printf_spec" where
  "decode_conversion q fmt spec =
     (let spec = spec\<lparr>base := 10\<rparr>; c = char_at fmt 0
      in if c = CHR ''c'' then (tl fmt, spec\<lparr>fmt_type := FORMAT_TYPE_CHAR\<rparr>)
         else if c = CHR ''s'' then (tl fmt, spec\<lparr>fmt_type := FORMAT_TYPE_STR\<rparr>)
         else if c = CHR ''p'' then (tl fmt, spec\<lparr>fmt_type := FORMAT_TYPE_PTR\<rparr>)
         else if c = CHR ''%'' then (tl fmt, spec\<lparr>fmt_type := FORMAT_TYPE_PERCENT_CHAR\<rparr>)
         else if c = CHR ''o'' then (tl fmt, decode_integer q (spec\<lparr>base := 8\<rparr>))
         else if c = CHR ''x'' then (tl fmt, decode_integer q ((add_flag SMALL spec)\<lparr>base := 16\<rparr>))
         else if c = CHR ''X'' then (tl fmt, decode_integer q (spec\<lparr>base := 16\<rparr>))
         else if c = CHR ''d'' \<or> c = CHR ''i'' then (tl fmt, decode_integer q (add_flag SIGN spec))
         else if c = CHR ''u'' then (tl fmt, decode_integer q spec)
         else (fmt, spec\<lparr>fmt_type := FORMAT_TYPE_INVALID\<rparr>))"

text \<open>The label \<open>qualifier\<close> of \<open>format_decode\<close>.\<close>

definition length_modifier :: "string \<Rightarrow> char \<times> string" where
  "length_modifier fmt =
     (let c = char_at fmt 0 in
      if c = CHR ''h'' \<or> tolower c = of_char CHR ''l'' \<or> c = CHR ''z'' \<or> c = CHR ''t'' then
        let fmt = tl fmt in
        if char_at fmt 0 = c \<and> c = CHR ''l'' then (CHR ''L'', tl fmt)
        else if char_at fmt 0 = c \<and> c = CHR ''h'' then (CHR ''H'', tl fmt)
        else (c, fmt)
      else (CHR 0x00, fmt))"

definition decode_qualifier :: "string \<Rightarrow> printf_spec \<Rightarrow> string \<times> printf_spec" where
  "decode_qualifier fmt spec =
     (case length_modifier fmt of (q, fmt) \<Rightarrow> decode_conversion q fmt spec)"

text \<open>The label \<open>precision\<close>.\<close>

definition decode_precision :: "string \<Rightarrow> printf_spec \<Rightarrow> string \<times> printf_spec" where
  "decode_precision fmt spec =
     (let spec = spec\<lparr>precision := -1\<rparr> in
      if char_at fmt 0 = CHR ''.'' then
        let fmt = tl fmt in
        if isdigit (char_at fmt 0) then
          case skip_atoi fmt of (i, fmt) \<Rightarrow>
            let spec = set_prec i spec
            in decode_qualifier fmt (if precision spec < 0 then spec\<lparr>precision := 0\<rparr> else spec)
        else if char_at fmt 0 = CHR ''*'' then (tl fmt, spec\<lparr>fmt_type := FORMAT_TYPE_PRECISION\<rparr>)
        else decode_qualifier fmt spec
      else decode_qualifier fmt spec)"

definition decode_rest :: "string \<Rightarrow> printf_spec \<Rightarrow> string \<times> printf_spec" where
  "decode_rest fmt spec =
     (if fmt_type spec = FORMAT_TYPE_WIDTH then
        let spec = (if field_width spec < 0
                    then add_flag LEFT (set_width (- field_width spec) spec) else spec)
        in decode_precision fmt (spec\<lparr>fmt_type := FORMAT_TYPE_NONE\<rparr>)
      else if fmt_type spec = FORMAT_TYPE_PRECISION then
        let spec = (if precision spec < 0 then spec\<lparr>precision := 0\<rparr> else spec)
        in decode_qualifier fmt (spec\<lparr>fmt_type := FORMAT_TYPE_NONE\<rparr>)
      else
        let start = fmt;
            spec = spec\<lparr>fmt_type := FORMAT_TYPE_NONE\<rparr>;
            fmt = dropWhile (\<lambda>c. c \<noteq> CHR ''%'') fmt
        in if length fmt \<noteq> length start \<or> fmt = [] then (fmt, spec)
           else
             let (fmt, spec) = decode_flags (tl fmt) (spec\<lparr>flags := 0\<rparr>);
                 spec = spec\<lparr>field_width := -1\<rparr>
             in if isdigit (char_at fmt 0) then
                  case skip_atoi fmt of (i, fmt) \<Rightarrow> decode_precision fmt (set_width i spec)
                else if char_at fmt 0 = CHR ''*'' then (tl fmt, spec\<lparr>fmt_type := FORMAT_TYPE_WIDTH\<rparr>)
                else decode_precision fmt spec)"

text \<open>\<open>format_decode\<close> returns the number of characters it read.\<close>

definition format_decode :: "string \<Rightarrow> printf_spec \<Rightarrow> nat \<times> printf_spec" where
  "format_decode fmt spec = (case decode_rest fmt spec of (rest, spec) \<Rightarrow> (length fmt - length rest, spec))"

definition set_field_width :: "int \<Rightarrow> printf_spec \<Rightarrow> printf_spec" where
  "set_field_width width spec =
     (let spec = set_width width spec in
      if field_width spec \<noteq> width
      then set_width (max (- FIELD_WIDTH_MAX) (min width FIELD_WIDTH_MAX)) spec else spec)"

definition set_precision :: "int \<Rightarrow> printf_spec \<Rightarrow> printf_spec" where
  "set_precision prec spec =
     (let spec = set_prec prec spec in
      if precision spec \<noteq> prec then set_prec (max 0 (min prec PRECISION_MAX)) spec else spec)"

section \<open>vsnprintf\<close>

text \<open>\<open>while (--spec.field_width > 0)\<close> around the store of a blank, on the bit field.\<close>

function char_pad :: "int \<Rightarrow> out \<Rightarrow> int \<times> out" where
  "char_pad fw st = (let fw = bits24 (fw - 1) in if 0 < fw then char_pad fw (emit (CHR '' '') st) else (fw, st))"
  by pat_completeness auto
termination
proof (relation "measure (\<lambda>(fw, st). if fw \<le> 0 then 2 ^ 24 else nat fw)", goal_cases)
  case (2 fw st fw')
  have le: "fw' < 2 ^ 23" using 2 by (simp add: bits24_def)
  have "fw' < fw" if "0 < fw"
  proof (cases "fw \<le> 2 ^ 23")
    case True
    then have "(fw - 1 + 2 ^ 23) mod 2 ^ 24 = fw - 1 + 2 ^ 23" using that by (intro mod_pos_pos_trivial) simp_all
    then show ?thesis using 2 by (simp add: bits24_def)
  qed (use le in simp)
  then show ?case using 2 le by auto
qed simp

declare char_pad.simps [simp del]

text \<open>The integer arguments by type, with the index behind the words they use.\<close>

definition va_number :: "printf_spec \<Rightarrow> va_list \<Rightarrow> nat \<Rightarrow> u64 \<times> nat" where
  "va_number spec va ap =
     (case fmt_type spec of
        FORMAT_TYPE_LONG_LONG \<Rightarrow> (join64 (va (ap + 1)) (va ap), ap + 2)
      | FORMAT_TYPE_ULONG \<Rightarrow> (ucast (va ap), ap + 1)
      | FORMAT_TYPE_LONG \<Rightarrow> (scast (va ap), ap + 1)
      | FORMAT_TYPE_SIZE_T \<Rightarrow> ((if has SIGN spec then scast (va ap) else ucast (va ap)), ap + 1)
      | FORMAT_TYPE_PTRDIFF \<Rightarrow> (scast (va ap), ap + 1)
      | FORMAT_TYPE_UBYTE \<Rightarrow> (ucast (ucast (va ap) :: 8 word), ap + 1)
      | FORMAT_TYPE_BYTE \<Rightarrow> (scast (ucast (va ap) :: 8 word), ap + 1)
      | FORMAT_TYPE_USHORT \<Rightarrow> (ucast (ucast (va ap) :: 16 word), ap + 1)
      | FORMAT_TYPE_SHORT \<Rightarrow> (scast (ucast (va ap) :: 16 word), ap + 1)
      | FORMAT_TYPE_INT \<Rightarrow> (scast (va ap), ap + 1)
      | _ \<Rightarrow> (ucast (va ap), ap + 1))"

text \<open>The copy of plain text.\<close>

fun copy_text :: "string \<Rightarrow> out \<Rightarrow> out" where
  "copy_text s (b, p) =
     ((if p < length b then take p b @ take (length b - p) s @ drop (p + length s) b else b), p + length s)"

text \<open>One turn of the loop: the characters read, the rest of the format, the index of the next
  argument, the specification and the output.\<close>

type_synonym turn = "string \<times> nat \<times> printf_spec \<times> out"

definition format_item ::
  "penv \<Rightarrow> printer \<Rightarrow> u32 \<Rightarrow> va_list \<Rightarrow> string \<Rightarrow> turn \<Rightarrow> turn option" where
  "format_item E vsn addr va text s =
     (case s of (fmt, ap, spec, st) \<Rightarrow>
        (case fmt_type spec of
           FORMAT_TYPE_NONE \<Rightarrow> Some (fmt, ap, spec, copy_text text st)
         | FORMAT_TYPE_WIDTH \<Rightarrow> Some (fmt, ap + 1, set_field_width (sint (va ap)) spec, st)
         | FORMAT_TYPE_PRECISION \<Rightarrow> Some (fmt, ap + 1, set_precision (sint (va ap)) spec, st)
         | FORMAT_TYPE_CHAR \<Rightarrow>
             (let (fw, st) = (if \<not> has LEFT spec then char_pad (field_width spec) st else (field_width spec, st));
                  st = emit (char_of (unat (va ap))) st;
                  (fw, st) = char_pad fw st
              in Some (fmt, ap + 1, spec\<lparr>field_width := fw\<rparr>, st))
         | FORMAT_TYPE_STR \<Rightarrow> Some (fmt, ap + 1, spec, string E (va ap) spec st)
         | FORMAT_TYPE_PTR \<Rightarrow>
             (case pointer E vsn addr fmt (va ap) spec st of None \<Rightarrow> None
              | Some st \<Rightarrow> Some (dropWhile isalnum fmt, ap + 1, spec, st))
         | FORMAT_TYPE_PERCENT_CHAR \<Rightarrow> Some (fmt, ap, spec, emit (CHR ''%'') st)
         | _ \<Rightarrow> (case va_number spec va ap of (num, ap) \<Rightarrow> Some (fmt, ap, spec, number num spec st))))"

text \<open>Every turn but the last reads at least one character, so the loop ends.\<close>

lemma conversion_progress:
  assumes "decode_conversion q fmt spec = (rest, spec')"
  shows "length rest < length fmt \<or> length rest \<le> length fmt \<and> fmt_type spec' = FORMAT_TYPE_INVALID"
  using assms by (cases fmt) (auto simp: decode_conversion_def Let_def split: if_splits)

lemma modifier_length: "length_modifier fmt = (q, f) \<Longrightarrow> length f \<le> length fmt"
  by (auto simp: length_modifier_def Let_def split: if_splits)

lemma qualifier_progress:
  assumes "decode_qualifier fmt spec = (rest, spec')"
  shows "length rest < length fmt \<or> length rest \<le> length fmt \<and> fmt_type spec' = FORMAT_TYPE_INVALID"
proof -
  obtain q f where f: "length_modifier fmt = (q, f)" by fastforce
  show ?thesis using assms conversion_progress [of q f spec rest spec'] modifier_length [OF f]
    by (simp add: decode_qualifier_def f) linarith
qed

lemma skip_atoi_loop_length: "skip_atoi_loop s i = (j, s') \<Longrightarrow> length s' \<le> length s"
  by (induction s i rule: skip_atoi_loop.induct) (auto split: if_splits)

lemma skip_atoi_length: "skip_atoi s = (i, s') \<Longrightarrow> length s' \<le> length s"
  using skip_atoi_loop_length [of "tl s"] by (fastforce simp: skip_atoi_def split: prod.splits)

lemma precision_progress:
  assumes "decode_precision fmt spec = (rest, spec')"
  shows "length rest < length fmt \<or> length rest \<le> length fmt \<and> fmt_type spec' = FORMAT_TYPE_INVALID"
proof (cases fmt)
  case Nil
  then show ?thesis using assms by (auto simp: decode_precision_def Let_def dest: qualifier_progress)
next
  case (Cons c s)
  show ?thesis
  proof (cases "c = CHR ''.''")
    case False
    then show ?thesis using assms Cons by (auto simp: decode_precision_def Let_def dest!: qualifier_progress)
  next
    case True
    show ?thesis
    proof (cases "isdigit (char_at s 0)")
      case d: True
      obtain i f where f: "skip_atoi s = (i, f)" by fastforce
      then show ?thesis using True d Cons assms skip_atoi_length [OF f]
        by (auto simp: decode_precision_def Let_def dest!: qualifier_progress)
    next
      case d: False
      then show ?thesis using True Cons assms
        by (auto simp: decode_precision_def Let_def dest!: qualifier_progress split: if_splits)
    qed
  qed
qed

lemma flags_length: "length (fst (decode_flags fmt spec)) \<le> length fmt"
  by (induction fmt spec rule: decode_flags.induct) auto

lemma decode_rest_progress:
  assumes "decode_rest fmt spec = (rest, spec')" and "fmt \<noteq> []"
  shows "length rest < length fmt \<or> fmt_type spec' = FORMAT_TYPE_INVALID"
proof -
  consider "fmt_type spec = FORMAT_TYPE_WIDTH" | "fmt_type spec = FORMAT_TYPE_PRECISION"
    | "fmt_type spec \<noteq> FORMAT_TYPE_WIDTH" "fmt_type spec \<noteq> FORMAT_TYPE_PRECISION" by blast
  then show ?thesis
  proof cases
    case 1
    then show ?thesis using assms by (auto simp: decode_rest_def Let_def dest!: precision_progress)
  next
    case 2
    then show ?thesis using assms by (auto simp: decode_rest_def Let_def dest!: qualifier_progress)
  next
    case 3
    define s0 where "s0 = spec\<lparr>fmt_type := FORMAT_TYPE_NONE\<rparr>"
    define f where "f = dropWhile (\<lambda>c. c \<noteq> CHR ''%'') fmt"
    obtain g s where g: "decode_flags (tl f) (s0\<lparr>flags := 0\<rparr>) = (g, s)" by fastforce
    obtain i h where h: "skip_atoi g = (i, h)" by fastforce
    have "length g \<le> length (tl f)" using flags_length [of "tl f" "s0\<lparr>flags := 0\<rparr>"] by (simp add: g)
    then have gl: "length g < length fmt" if "length f = length fmt"
      using that assms(2) by (cases f) auto
    have hl: "length h \<le> length g" using skip_atoi_length [OF h] .
    have e: "decode_rest fmt spec =
      (if length f \<noteq> length fmt \<or> f = [] then (f, s0)
       else if isdigit (char_at g 0) then decode_precision h (set_width i (s\<lparr>field_width := -1\<rparr>))
       else if char_at g 0 = CHR ''*'' then (tl g, s\<lparr>field_width := -1, fmt_type := FORMAT_TYPE_WIDTH\<rparr>)
       else decode_precision g (s\<lparr>field_width := -1\<rparr>))"
      using 3 unfolding decode_rest_def by (simp add: Let_def g h flip: s0_def f_def)
    have fl: "length f \<le> length fmt" by (simp add: f_def length_dropWhile_le)
    show ?thesis
      using assms e gl hl fl by (auto split: if_splits dest!: precision_progress)
  qed
qed

lemma format_item_length:
  assumes "format_item E vsn addr va text (fmt, ap, spec, st) = Some (fmt', s)"
  shows "length fmt' \<le> length fmt"
  using assms unfolding format_item_def
  by (cases "fmt_type spec") (auto simp: length_dropWhile_le Let_def split: prod.splits option.splits)

lemma vsn_turn_shorter:
  assumes "fmt \<noteq> []" and "format_decode fmt spec = (rd, spec1)" and "fmt_type spec1 \<noteq> FORMAT_TYPE_INVALID"
    and "format_item E vsn addr va (take rd fmt) (drop rd fmt, ap, spec1, st) = Some (fmt', s)"
  shows "length fmt' < length fmt"
proof -
  obtain rest where r: "decode_rest fmt spec = (rest, spec1)" and rd: "rd = length fmt - length rest"
    using assms(2) by (auto simp: format_decode_def split: prod.splits)
  have "length rest < length fmt" using decode_rest_progress [OF r assms(1)] assms(3) by simp
  moreover have "length fmt' \<le> length fmt - rd" using format_item_length [OF assms(4)] by simp
  ultimately show ?thesis using rd by simp
qed

function vsn_loop :: "penv \<Rightarrow> printer \<Rightarrow> u32 \<Rightarrow> va_list \<Rightarrow> string \<Rightarrow> nat \<Rightarrow> printf_spec \<Rightarrow> out \<Rightarrow> out option" where
  "vsn_loop E vsn addr va fmt ap spec st =
     (if fmt = [] then Some st
      else
        case format_decode fmt spec of (rd, spec) \<Rightarrow>
          if fmt_type spec = FORMAT_TYPE_INVALID then Some st
          else
            case format_item E vsn addr va (take rd fmt) (drop rd fmt, ap, spec, st) of
              None \<Rightarrow> None
            | Some (fmt, ap, spec, st) \<Rightarrow> vsn_loop E vsn addr va fmt ap spec st)"
  by pat_completeness auto
termination
  by (relation "measure (\<lambda>(E, vsn, addr, va, fmt, ap, spec, st). length fmt)") (auto dest: vsn_turn_shorter [OF _ sym])

declare vsn_loop.simps [simp del]

text \<open>\<open>vsnprintf\<close> on a buffer of \<open>sz\<close> bytes at \<open>addr\<close>; the result is the buffer afterwards and the
  returned length.\<close>

definition vsnprintf_with :: "penv \<Rightarrow> printer \<Rightarrow> printer" where
  "vsnprintf_with E vsn addr sz fmt va b =
     (if INT_MAX < sz then Some (b, 0)
      else
        let e = (if 2 ^ 32 \<le> unat addr + sz then 2 ^ 32 - 1 - unat addr else sz);
            spec = \<lparr>fmt_type = FORMAT_TYPE_NONE, field_width = 0, flags = 0, base = 0, precision = 0\<rparr>
        in case vsn_loop E vsn addr (fst va) fmt (snd va) spec (take e b, 0) of
             None \<Rightarrow> None
           | Some (b', p) \<Rightarrow>
               let b' = (if 0 < e then if p < e then b'[p := CHR 0x00] else b'[e - 1 := CHR 0x00] else b')
               in Some (b' @ drop e b, p))"

text \<open>The bound \<open>depth\<close> on the nesting of \<open>%pV\<close>; \<open>None\<close> is a nesting beyond it.\<close>

primrec vsnprintf :: "nat \<Rightarrow> penv \<Rightarrow> printer" where
  "vsnprintf 0 E = (\<lambda>addr sz fmt va b. None)"
| "vsnprintf (Suc depth) E = vsnprintf_with E (vsnprintf depth E)"

definition vscnprintf :: "nat \<Rightarrow> penv \<Rightarrow> printer" where
  "vscnprintf depth E addr sz fmt va b =
     (if sz = 0 then Some (b, 0)
      else case vsnprintf depth E addr sz fmt va b of
             None \<Rightarrow> None
           | Some (b, i) \<Rightarrow> Some (b, if i < sz then i else sz - 1))"

definition snprintf :: "nat \<Rightarrow> penv \<Rightarrow> u32 \<Rightarrow> nat \<Rightarrow> string \<Rightarrow> va_list \<Rightarrow> string \<Rightarrow> (string \<times> nat) option" where
  "snprintf depth E addr sz fmt args b = vsnprintf depth E addr sz fmt (args, 0) b"

definition scnprintf :: "nat \<Rightarrow> penv \<Rightarrow> u32 \<Rightarrow> nat \<Rightarrow> string \<Rightarrow> va_list \<Rightarrow> string \<Rightarrow> (string \<times> nat) option" where
  "scnprintf depth E addr sz fmt args b = vscnprintf depth E addr sz fmt (args, 0) b"

definition vsprintf :: "nat \<Rightarrow> penv \<Rightarrow> u32 \<Rightarrow> string \<Rightarrow> va_list \<times> nat \<Rightarrow> string \<Rightarrow> (string \<times> nat) option" where
  "vsprintf depth E addr fmt va b = vsnprintf depth E addr INT_MAX fmt va b"

definition sprintf :: "nat \<Rightarrow> penv \<Rightarrow> u32 \<Rightarrow> string \<Rightarrow> va_list \<Rightarrow> string \<Rightarrow> (string \<times> nat) option" where
  "sprintf depth E addr fmt args b = vsnprintf depth E addr INT_MAX fmt (args, 0) b"

end
