(* ===== verification/Kvsprintf_Text.thy ===== *)
theory Kvsprintf_Text
  imports Kvsprintf
begin

unbundle bit_operations_syntax

text \<open>
  What the formatted output means: every routine appends a text that does not depend on the buffer,
  the buffer holds the part of it that fits, and the returned length is that of the whole text. The
  text of a number is laid out by width, precision and flags, and reading it back gives the number.
\<close>

section \<open>Buffers that show a text\<close>

text \<open>The last byte of the buffer is left out: \<open>vsnprintf\<close> overwrites it with the terminating zero when
  the text does not fit, also in a nested call.\<close>

definition displays :: "nat \<Rightarrow> string \<Rightarrow> out \<Rightarrow> bool" where
  "displays n u st \<longleftrightarrow> length (fst st) = n \<and> snd st = length u
     \<and> (\<forall>i. i < length u \<longrightarrow> Suc i < n \<longrightarrow> fst st ! i = u ! i)"

lemma displaysI:
  assumes "length b = n" and "p = length u" and "\<And>i. i < length u \<Longrightarrow> Suc i < n \<Longrightarrow> b ! i = u ! i"
  shows "displays n u (b, p)"
  using assms by (simp add: displays_def)

lemma displaysD:
  assumes "displays n u st"
  shows "length (fst st) = n" and "snd st = length u" and "\<And>i. i < length u \<Longrightarrow> Suc i < n \<Longrightarrow> fst st ! i = u ! i"
  using assms by (simp_all add: displays_def)

definition writer :: "(out \<Rightarrow> out) \<Rightarrow> string \<Rightarrow> bool" where
  "writer f t \<longleftrightarrow> (\<forall>n u st. displays n u st \<longrightarrow> displays n (u @ t) (f st))"

lemma writerI: "(\<And>n u st. displays n u st \<Longrightarrow> displays n (u @ t) (f st)) \<Longrightarrow> writer f t"
  by (simp add: writer_def)

lemma writerD: "writer f t \<Longrightarrow> displays n u st \<Longrightarrow> displays n (u @ t) (f st)"
  unfolding writer_def by blast

lemma writer_id: "writer (\<lambda>st. st) []"
  unfolding writer_def by simp

lemma writer_comp: "writer f s \<Longrightarrow> writer g t \<Longrightarrow> writer (\<lambda>st. g (f st)) (s @ t)"
  using writerD [of g t] writerD [of f s] by (intro writerI) (metis append_assoc)

lemma writer_emit: "writer (emit c) [c]"
proof (rule writerI)
  fix n u st assume s: "displays n u st"
  obtain b p where st: "st = (b, p)" by fastforce
  show "displays n (u @ [c]) (emit c st)"
    using s by (auto simp: st displays_def nth_append nth_list_update less_Suc_eq)
qed

lemma writer_emits: "writer (emits t) t"
proof (induction t)
  case Nil
  then show ?case using writer_id by simp
next
  case (Cons c t)
  then show ?case using writer_comp [OF writer_emit Cons, of c] by simp
qed

lemma pad_eq: "pad c fw st = ((if 0 \<le> fw then -1 else fw - 1), emits (replicate (nat fw) c) st)"
proof (induction c fw st rule: pad.induct)
  case (1 c fw st)
  show ?case
  proof (cases "0 \<le> fw - 1")
    case True
    then have "nat fw = Suc (nat (fw - 1))" by simp
    then show ?thesis using 1 True by (subst pad.simps) (simp add: Let_def)
  next
    case False
    then show ?thesis by (subst pad.simps) (auto simp: Let_def)
  qed
qed

lemma pad_precision_eq: "pad_precision i prec st = emits (replicate (nat (prec - i)) (CHR ''0'')) st"
proof (induction i prec st rule: pad_precision.induct)
  case (1 i prec st)
  show ?case
  proof (cases "i \<le> prec - 1")
    case True
    then have "nat (prec - i) = Suc (nat (prec - 1 - i))" by simp
    then show ?thesis using 1 True by (subst pad_precision.simps) (simp add: Let_def)
  next
    case False
    then show ?thesis by (subst pad_precision.simps) (auto simp: Let_def)
  qed
qed

lemma emits_append: "emits (s @ t) st = emits t (emits s st)"
  by (induction s arbitrary: st) auto

lemma char_pad_eq:
  "char_pad fw st =
     (let v = bits24 (fw - 1) in if 0 < v then (0, emits (replicate (nat v) (CHR '' '')) st) else (v, st))"
proof (induction fw st rule: char_pad.induct)
  case (1 fw st)
  define v where "v = bits24 (fw - 1)"
  show ?case
  proof (cases "0 < v")
    case True
    have "v < 2 ^ 23" by (simp add: v_def bits24_def)
    then have "(v - 1 + 2 ^ 23) mod 2 ^ 24 = v - 1 + 2 ^ 23" using True by (intro mod_pos_pos_trivial) simp_all
    then have v1: "bits24 (v - 1) = v - 1" by (simp add: bits24_def)
    have n: "nat v = Suc (nat (v - 1))" using True by simp
    have "char_pad fw st = char_pad v (emit (CHR '' '') st)"
      using True by (subst char_pad.simps) (simp add: Let_def flip: v_def)
    then show ?thesis using 1 [OF v_def True] True by (auto simp: Let_def v1 n simp flip: v_def)
  next
    case False
    then show ?thesis by (subst char_pad.simps) (simp add: Let_def flip: v_def)
  qed
qed

lemma copy_text_eq: "copy_text t st = emits t st"
proof (induction t arbitrary: st)
  case Nil
  then show ?case by (cases st) auto
next
  case (Cons c t)
  obtain b p where st: "st = (b, p)" by fastforce
  have "copy_text (c # t) (b, p) = copy_text t (emit c (b, p))"
  proof (cases "p + 1 < length b")
    case True
    then have "length b - p = Suc (length b - (p + 1))" by simp
    then show ?thesis using True by (simp add: take_Suc_conv_app_nth)
  next
    case False
    show ?thesis
    proof (cases "p < length b")
      case True
      then have "length b = Suc p" using False by simp
      then show ?thesis using list_update_append1 by (simp add: upd_conv_take_nth_drop)
    qed (use False in simp)
  qed
  then show ?case unfolding st emits.simps using Cons by (simp only:)
qed

section \<open>The text of a number\<close>

definition sign_text :: "u64 \<Rightarrow> printf_spec \<Rightarrow> string" where
  "sign_text num spec =
     (if \<not> has SIGN spec then []
      else if num <s 0 then ''-'' else if has PLUS spec then ''+'' else if has SPACE spec then '' '' else [])"

definition prefix_text :: "u64 \<Rightarrow> printf_spec \<Rightarrow> string" where
  "prefix_text num spec =
     (if \<not> has SPECIAL spec \<or> base spec = 10 then []
      else if base spec = 16 then (if has SMALL spec then ''0x'' else ''0X'')
      else if num = 0 then [] else ''0'')"

definition magnitude :: "u64 \<Rightarrow> printf_spec \<Rightarrow> u64" where
  "magnitude num spec = (if has SIGN spec \<and> num <s 0 then - num else num)"

definition digits_text :: "u64 \<Rightarrow> printf_spec \<Rightarrow> string" where
  "digits_text num spec = rev (number_digits (magnitude num spec) (base spec) (flags spec AND SMALL))"

definition number_text :: "u64 \<Rightarrow> printf_spec \<Rightarrow> string" where
  "number_text num spec =
     (let lead = sign_text num spec @ prefix_text num spec;
          ds = digits_text num spec;
          ds = replicate (nat (precision spec) - length ds) (CHR ''0'') @ ds;
          fill = nat (field_width spec) - length (lead @ ds)
      in if has LEFT spec then lead @ ds @ replicate fill (CHR '' '')
         else if has ZEROPAD spec then lead @ replicate fill (CHR ''0'') @ ds
         else replicate fill (CHR '' '') @ lead @ ds)"

lemma flag_bits: "has (ZEROPAD OR LEFT) spec \<longleftrightarrow> has ZEROPAD spec \<or> has LEFT spec"
  by (simp add: has_def bit.conj_disj_distrib or_eq_0_iff)

lemma and_16: "(x :: u8) AND 16 = (if bit x 4 then 16 else 0)"
  by (rule bit_word_eqI) (auto simp: bit_simps numeral_eq_Suc less_Suc_eq)

lemma and_32: "(x :: u8) AND 32 = (if bit x 5 then 32 else 0)"
  by (rule bit_word_eqI) (auto simp: bit_simps numeral_eq_Suc less_Suc_eq)

lemma has_strip:
  "has SIGN (spec\<lparr>flags := flags spec AND NOT ZEROPAD\<rparr>) = has SIGN spec"
  "has LEFT (spec\<lparr>flags := flags spec AND NOT ZEROPAD\<rparr>) = has LEFT spec"
  "has PLUS (spec\<lparr>flags := flags spec AND NOT ZEROPAD\<rparr>) = has PLUS spec"
  "has SPACE (spec\<lparr>flags := flags spec AND NOT ZEROPAD\<rparr>) = has SPACE spec"
  by (simp_all add: has_def SIGN_def LEFT_def PLUS_def SPACE_def ZEROPAD_def and.assoc)

lemma has_strip_zero: "has ZEROPAD (spec\<lparr>flags := flags spec AND NOT ZEROPAD\<rparr>) = False"
  by (simp add: has_def and.assoc)

lemma zeropad_char:
  "char_of (32 + unat (flags spec AND ZEROPAD)) = (if has ZEROPAD spec then CHR ''0'' else CHR '' '')"
  by (simp add: has_def ZEROPAD_def and_16) (simp add: char_of_def bit_0)

lemma x_char: "or_locase (CHR ''X'') (flags spec AND SMALL) = (if has SMALL spec then CHR ''x'' else CHR ''X'')"
  by (simp add: has_def SMALL_def and_32 or_locase_def) (simp add: char_of_def bit_0)

lemma sign_split:
  "(if has SIGN spec then
      if num <s 0 then (Some (CHR ''-''), - num, fw - 1)
      else if has PLUS spec then (Some (CHR ''+''), num, fw - 1)
      else if has SPACE spec then (Some (CHR '' ''), num, fw - 1)
      else (None, num, fw)
    else (None, num, fw))
   = ((case sign_text num spec of [] \<Rightarrow> None | c # _ \<Rightarrow> Some c), magnitude num spec, fw - int (length (sign_text num spec)))"
  by (simp add: sign_text_def magnitude_def)

lemma emit_sign:
  "(case (case sign_text num spec of [] \<Rightarrow> None | c # _ \<Rightarrow> Some c) of Some c \<Rightarrow> emit c st | None \<Rightarrow> st)
   = emits (sign_text num spec) st"
  by (simp add: sign_text_def)

lemma prefix_width:
  "(if has SPECIAL spec \<and> base spec \<noteq> 10
    then if base spec = 16 then fw - 2 else if num \<noteq> 0 then fw - 1 else fw else fw)
   = fw - int (length (prefix_text num spec))"
  by (simp add: prefix_text_def)

lemma emit_prefix:
  "(if has SPECIAL spec \<and> base spec \<noteq> 10 then
      let st = (if base spec = 16 \<or> num \<noteq> 0 then emit (CHR ''0'') st else st)
      in if base spec = 16 then emit (or_locase (CHR ''X'') (flags spec AND SMALL)) st else st
    else st) = emits (prefix_text num spec) st"
  by (simp add: prefix_text_def x_char Let_def)

lemma number_emits: "number num spec st = emits (number_text num spec) st"
proof -
  define s where "s = (if has LEFT spec then spec\<lparr>flags := flags spec AND NOT ZEROPAD\<rparr> else spec)"
  have hs: "has SIGN s = has SIGN spec" "has LEFT s = has LEFT spec" "has PLUS s = has PLUS spec"
    "has SPACE s = has SPACE spec" "has ZEROPAD s = (has ZEROPAD spec \<and> \<not> has LEFT spec)" "base s = base spec"
    by (simp_all add: s_def has_strip has_strip_zero)
  define sg pf ds where "sg = sign_text num spec" and "pf = prefix_text num spec" and "ds = digits_text num spec"
  define tmp where "tmp = number_digits (magnitude num spec) (base spec) (flags spec AND SMALL)"
  have ds: "rev tmp = ds" "length tmp = length ds" by (simp_all add: ds_def tmp_def digits_text_def)
  define prec where "prec = (if precision spec < int (length ds) then int (length ds) else precision spec)"
  define fw where "fw = field_width spec - int (length sg) - int (length pf) - prec"
  define P where "P = replicate (nat (precision spec) - length ds) (CHR ''0'')"
  have P: "replicate (nat (prec - int (length ds))) (CHR ''0'') = P"
    by (simp add: prec_def P_def nat_diff_distrib)
  define fill where "fill = nat (field_width spec) - length (sg @ pf @ P @ ds)"
  have fill: "nat fw = fill" by (simp add: fill_def fw_def prec_def P_def) linarith
  note split = sign_split [of spec num, folded sg_def] and sign = emit_sign [where num = num and spec = spec, folded sg_def]
    and pfx = prefix_width [of spec _ num, folded pf_def] emit_prefix [where num = num and spec = spec, unfolded Let_def, folded pf_def]
  have "number num spec st =
    (let (fw, st) = (if \<not> (has ZEROPAD s \<or> has LEFT spec) then pad (CHR '' '') fw st else (fw, st));
         st = emits pf (emits sg st);
         (fw, st) = (if \<not> has LEFT spec then pad (if has ZEROPAD s then CHR ''0'' else CHR '' '') fw st else (fw, st));
         st = emits ds (emits P st)
     in snd (pad (CHR '' '') fw st))"
    unfolding number_def Let_def
    by (simp only: hs flag_bits zeropad_char prod.case pad_precision_eq split sign pfx P ds
        tmp_def [symmetric] s_def [symmetric] prec_def [symmetric] fw_def [symmetric]
        not_False_eq_True simp_thms)
  moreover have "number_text num spec =
     (if has LEFT spec then sg @ pf @ P @ ds @ replicate fill (CHR '' '')
         else if has ZEROPAD spec then sg @ pf @ replicate fill (CHR ''0'') @ P @ ds
         else replicate fill (CHR '' '') @ sg @ pf @ P @ ds)"
    by (simp add: number_text_def Let_def fill_def flip: sg_def pf_def ds_def P_def)
  ultimately show ?thesis
    by (simp add: Let_def pad_eq fill hs emits_append)
qed

section \<open>The text of a string\<close>

definition string_text :: "string \<Rightarrow> printf_spec \<Rightarrow> string" where
  "string_text s spec =
     (let t = (if precision spec < 0 then s else take (nat (precision spec)) s);
          fill = replicate (nat (field_width spec) - length t) (CHR '' '')
      in if has LEFT spec then t @ fill else fill @ t)"

lemma string_loop_eq:
  "string_loop lim s len st =
     (let t = (if lim < 0 then s else take (nat lim) s) in (len + length t, emits t st))"
proof (induction lim s len st rule: string_loop.induct)
  case (2 lim c s len st)
  show ?case
  proof (cases "lim \<le> 0")
    case True
    then show ?thesis using 2 by (auto simp: Let_def)
  next
    case False
    then have "nat lim = Suc (nat (lim - 1))" by simp
    then show ?thesis using 2 False by (simp add: Let_def)
  qed
qed simp

lemma length_memset: "i + k \<le> length b \<Longrightarrow> length (memset i c k b) = length b"
  by (simp add: memset_def)

lemma nth_memset:
  "i + k \<le> length b \<Longrightarrow> j < length b \<Longrightarrow> memset i c k b ! j = (if i \<le> j \<and> j < i + k then c else b ! j)"
  by (auto simp: memset_def nth_append)

lemma length_memmove: "d + k \<le> length b \<Longrightarrow> s + k \<le> length b \<Longrightarrow> length (memmove d s k b) = length b"
  by (simp add: memmove_def)

lemma nth_memmove:
  "d + k \<le> length b \<Longrightarrow> s + k \<le> length b \<Longrightarrow> j < length b \<Longrightarrow>
   memmove d s k b ! j = (if d \<le> j \<and> j < d + k then b ! (s + (j - d)) else b ! j)"
  by (auto simp: memmove_def nth_append)

lemma move_right_eq:
  assumes "buf < length b" and "m < length b - buf"
  shows "move_right buf len m b =
    memset buf (CHR '' '') m (memmove (buf + m) buf (min len (length b - buf - m)) b)"
proof -
  have "memmove (buf + m) buf 0 b = b" by (simp add: memmove_def)
  then show ?thesis using assms by (auto simp: move_right_def Let_def min_def)
qed

lemma length_move_right: "length (move_right buf len m b) = length b"
proof (cases "buf < length b \<and> m < length b - buf")
  case True
  then have "length (memmove (buf + m) buf (min len (length b - buf - m)) b) = length b"
    by (intro length_memmove) auto
  moreover have "buf + m \<le> length b" using True by linarith
  ultimately show ?thesis using True by (simp add: move_right_eq length_memset)
qed (auto simp: move_right_def Let_def length_memset)

lemma displays_move_right:
  assumes "displays n (u @ t) (b, p)"
  shows "displays n (u @ replicate m (CHR '' '') @ t) (move_right (length u) (length t) m b, p + m)"
proof (rule displaysI)
  note d = displaysD [OF assms, simplified]
  show "length (move_right (length u) (length t) m b) = n" using d(1) by (simp add: length_move_right)
  show "p + m = length (u @ replicate m (CHR '' '') @ t)" using d(2) by simp
  fix i
  assume i: "i < length (u @ replicate m (CHR '' '') @ t)" and n: "Suc i < n"
  show "move_right (length u) (length t) m b ! i = (u @ replicate m (CHR '' '') @ t) ! i"
  proof (cases "m < n - length u")
    case True
    let ?k = "min (length t) (n - length u - m)"
    have "memmove (length u + m) (length u) ?k b ! i
        = (if length u + m \<le> i \<and> i < length u + m + ?k then b ! (length u + (i - (length u + m))) else b ! i)"
      using True d(1) n by (intro nth_memmove) auto
    then show ?thesis
      using True d i n by (auto simp: move_right_eq nth_memset length_memmove nth_append add.commute)
  next
    case False
    then have "move_right (length u) (length t) m b = (if n \<le> length u then b else memset (length u) (CHR '' '') (n - length u) b)"
      using d(1) by (auto simp: move_right_def Let_def)
    then show ?thesis using False d i n by (auto simp: nth_memset nth_append)
  qed
qed

lemma displays_widen_string:
  assumes "displays n (u @ t) st"
  shows "displays n (u @ (let fill = replicate (nat (field_width spec) - length t) (CHR '' '')
      in if has LEFT spec then t @ fill else fill @ t)) (widen_string (length t) spec st)"
proof -
  obtain b p where st: "st = (b, p)" by fastforce
  let ?m = "nat (field_width spec) - length t"
  have p: "p - length t = length u" using displaysD(2) [OF assms] by (simp add: st)
  show ?thesis
  proof (cases "field_width spec \<le> int (length t)")
    case True
    then have "?m = 0" by simp
    then show ?thesis using True assms by (simp add: widen_string_def)
  next
    case False
    then have "nat (field_width spec - int (length t)) = ?m" by simp
    then have "widen_string (length t) spec st =
        (if has LEFT spec then emits (replicate ?m (CHR '' '')) st
         else (move_right (length u) (length t) ?m b, p + ?m))"
      using False by (simp add: widen_string_def Let_def st p)
    then show ?thesis
      using displays_move_right [of n u t b p ?m] writerD [OF writer_emits assms, of "replicate ?m (CHR '' '')"] assms
      by (simp add: st Let_def)
  qed
qed

lemma writer_string_nocheck: "writer (string_nocheck s spec) (string_text s spec)"
proof (rule writerI)
  fix n u st
  assume d: "displays n u st"
  define t where "t = (if precision spec < 0 then s else take (nat (precision spec)) s)"
  have "displays n (u @ t) (emits t st)" by (rule writerD [OF writer_emits d])
  from displays_widen_string [OF this, of spec]
  show "displays n (u @ string_text s spec) (string_nocheck s spec st)"
    by (simp add: string_nocheck_def string_loop_eq string_text_def Let_def flip: t_def)
qed

lemma writer_number: "writer (number num spec) (number_text num spec)"
proof -
  have "number num spec = emits (number_text num spec)" using number_emits by blast
  then show ?thesis using writer_emits by simp
qed

section \<open>Every routine appends a text\<close>

definition prints :: "(out \<Rightarrow> out) \<Rightarrow> bool" where
  "prints f \<longleftrightarrow> (\<exists>t. writer f t)"

named_theorems prints_intro

lemma prints_emits [prints_intro]: "prints (emits t)"
  using writer_emits by (auto simp: prints_def)

lemma prints_emit [prints_intro]: "prints (emit c)"
  using writer_emit by (auto simp: prints_def)

lemma prints_number [prints_intro]: "prints (number num spec)"
  using writer_number by (auto simp: prints_def)

lemma prints_string_nocheck [prints_intro]: "prints (string_nocheck s spec)"
  using writer_string_nocheck by (auto simp: prints_def)

lemma prints_error_string [prints_intro]: "prints (error_string s spec)"
  by (simp add: error_string_def prints_intro)

lemma prints_pointer_string [prints_intro]: "prints (pointer_string ptr spec)"
  by (simp add: pointer_string_def Let_def prints_intro)

lemma prints_default_pointer [prints_intro]: "prints (default_pointer E ptr spec)"
  by (simp add: default_pointer_def ptr_to_id_def prints_intro split: option.split)

lemma prints_string [prints_intro]: "prints (string E ptr spec)"
proof (cases "check_pointer_msg ptr")
  case None
  then have "string E ptr spec = string_nocheck (str_at E ptr) spec"
    by (auto simp: string_def check_pointer_def)
  then show ?thesis by (simp add: prints_intro)
next
  case (Some m)
  then have "string E ptr spec = error_string m spec"
    by (auto simp: string_def check_pointer_def)
  then show ?thesis by (simp add: prints_intro)
qed

text \<open>A buffer of \<open>n\<close> bytes at an address that \<open>vsnprintf\<close> neither refuses nor clips.\<close>

definition fits :: "u32 \<Rightarrow> nat \<Rightarrow> bool" where
  "fits addr n \<longleftrightarrow> n \<le> INT_MAX \<and> unat addr + n < 2 ^ 32"

definition writes :: "(u32 \<Rightarrow> out \<Rightarrow> out option) \<Rightarrow> string option \<Rightarrow> bool" where
  "writes f r \<longleftrightarrow> (\<forall>addr n u st. fits addr n \<longrightarrow> displays n u st \<longrightarrow>
     (case r of None \<Rightarrow> f addr st = None | Some t \<Rightarrow> \<exists>st'. f addr st = Some st' \<and> displays n (u @ t) st'))"

lemma writes_None: "writes f None \<Longrightarrow> fits addr n \<Longrightarrow> displays n u st \<Longrightarrow> f addr st = None"
  unfolding writes_def option.case by blast

lemma writes_Some:
  "writes f (Some t) \<Longrightarrow> fits addr n \<Longrightarrow> displays n u st \<Longrightarrow> \<exists>st'. f addr st = Some st' \<and> displays n (u @ t) st'"
  unfolding writes_def option.case by blast

lemma writes_prints: "prints f \<Longrightarrow> \<exists>r. writes (\<lambda>addr st. Some (f st)) r"
proof -
  assume "prints f"
  then obtain t where "writer f t" by (auto simp: prints_def)
  then have "writes (\<lambda>addr st. Some (f st)) (Some t)" unfolding writes_def using writerD by auto
  then show ?thesis by blast
qed

text \<open>A printer writes a text that depends on the format and the arguments only.\<close>

definition prints_text :: "printer \<Rightarrow> string \<Rightarrow> va_list \<times> nat \<Rightarrow> string option \<Rightarrow> bool" where
  "prints_text vsn fmt va r \<longleftrightarrow> (\<forall>addr b. fits addr (length b) \<longrightarrow>
     (case r of None \<Rightarrow> vsn addr (length b) fmt va b = None
      | Some t \<Rightarrow> \<exists>b'. vsn addr (length b) fmt va b = Some (b', length t) \<and> displays (length b) t (b', length t)))"

definition good_printer :: "printer \<Rightarrow> bool" where
  "good_printer vsn \<longleftrightarrow> (\<forall>fmt va. \<exists>r. prints_text vsn fmt va r)"

lemma writes_va_format:
  assumes "good_printer vsn"
  shows "\<exists>r. writes (\<lambda>addr. va_format E vsn addr ptr spec) r"
proof (cases "check_pointer_msg ptr")
  case (Some m)
  then have "(\<lambda>addr. va_format E vsn addr ptr spec) = (\<lambda>addr st. Some (error_string m spec st))"
    by (simp add: va_format_def check_pointer_def fun_eq_iff)
  then show ?thesis using writes_prints [OF prints_error_string] by simp
next
  case None
  obtain fmt va where fv: "va_format_at E ptr = (fmt, va)" by (cases "va_format_at E ptr")
  obtain r where "prints_text vsn fmt va r" using assms unfolding good_printer_def by blast
  then have r: "fits addr (length b) \<Longrightarrow>
     (case r of None \<Rightarrow> vsn addr (length b) fmt va b = None
      | Some t \<Rightarrow> \<exists>b'. vsn addr (length b) fmt va b = Some (b', length t) \<and> displays (length b) t (b', length t))"
    for addr b unfolding prints_text_def by simp
  have "writes (\<lambda>addr. va_format E vsn addr ptr spec) r"
    unfolding writes_def
  proof (intro allI impI)
    fix addr n u st
    assume f: "fits addr n" and d: "displays n u st"
    obtain b p where st: "st = (b, p)" by fastforce
    note D = displaysD [OF d, simplified st, simplified]
    have fit: "fits (addr + of_nat p) (length (drop p b))"
    proof (cases "p < n")
      case True
      then have "unat (of_nat p :: u32) = p" using f by (intro unat_of_nat_small) (simp add: fits_def INT_MAX_def)
      then have "unat (addr + of_nat p) = unat addr + p"
        using f True by (subst unat_add_nowrap) (simp_all add: fits_def)
      then show ?thesis using f D(1) True by (auto simp: fits_def)
    next
      case False
      then show ?thesis using D(1) unat_u32_bound [of "addr + of_nat p"] by (simp add: fits_def)
    qed
    have e: "va_format E vsn addr ptr spec st =
        (case vsn (addr + of_nat p) (length (drop p b)) fmt va (drop p b) of None \<Rightarrow> None
         | Some (b', k) \<Rightarrow> Some (take p b @ b', p + k))"
      using None by (simp add: va_format_def check_pointer_def st fv)
    show "case r of None \<Rightarrow> va_format E vsn addr ptr spec st = None
      | Some t \<Rightarrow> \<exists>st'. va_format E vsn addr ptr spec st = Some st' \<and> displays n (u @ t) st'"
    proof (cases r)
      case None
      then show ?thesis using r [OF fit] e by simp
    next
      case (Some t)
      then obtain b' where b': "vsn (addr + of_nat p) (length (drop p b)) fmt va (drop p b) = Some (b', length t)"
        and d': "displays (length (drop p b)) t (b', length t)" using r [OF fit] by auto
      note D' = displaysD [OF d', simplified]
      have "displays n (u @ t) (take p b @ b', p + length t)"
      proof (rule displaysI)
        show "length (take p b @ b') = n" using D D' by simp
        show "p + length t = length (u @ t)" using D by simp
        show "(take p b @ b') ! i = (u @ t) ! i" if "i < length (u @ t)" and "Suc i < n" for i
          using that D D' by (auto simp: nth_append)
      qed
      then show ?thesis using Some e b' by simp
    qed
  qed
  then show ?thesis by blast
qed

lemma prints_if: "prints f \<Longrightarrow> prints g \<Longrightarrow> prints (if b then f else g)"
  by simp

lemma prints_pointer_case: "prints (pointer_case E fmt ptr spec)"
  unfolding pointer_case_def Let_def
  by (intro prints_if)
    (simp_all add: prints_intro symbol_string_def special_hex_number_def restricted_pointer_def err_ptr_def
      dentry_name_def file_dentry_name_def resource_string_def hex_string_def bitmap_string_def bitmap_list_string_def
      mac_address_string_def ip_addr_string_def escaped_string_def uuid_string_def netdev_bits_def fourcc_string_def
      address_val_def time_and_date_def clock_def flags_string_def device_node_string_def fwnode_string_def)

lemma writes_pointer:
  assumes "good_printer vsn"
  shows "\<exists>r. writes (\<lambda>addr. pointer E vsn addr fmt ptr spec) r"
proof (cases "char_at fmt 0 = CHR ''V''")
  case True
  then have "(\<lambda>addr. pointer E vsn addr fmt ptr spec) = (\<lambda>addr. va_format E vsn addr ptr spec)"
    by (simp add: pointer_def fun_eq_iff)
  then show ?thesis using writes_va_format [OF assms] by simp
next
  case False
  then have "(\<lambda>addr. pointer E vsn addr fmt ptr spec) = (\<lambda>addr st. Some (pointer_case E fmt ptr spec st))"
    by (simp add: pointer_def fun_eq_iff)
  then show ?thesis using writes_prints [OF prints_pointer_case] by simp
qed

section \<open>The loop\<close>

definition char_fill :: "int \<Rightarrow> string" where
  "char_fill fw = replicate (nat (bits24 (fw - 1))) (CHR '' '')"

definition char_width :: "int \<Rightarrow> int" where
  "char_width fw = min 0 (bits24 (fw - 1))"

lemma char_pad_split: "char_pad fw st = (char_width fw, emits (char_fill fw) st)"
  by (simp add: char_pad_eq Let_def char_fill_def char_width_def)

lemma prints_comp: "prints f \<Longrightarrow> prints g \<Longrightarrow> prints (\<lambda>st. g (f st))"
  unfolding prints_def using writer_comp by blast

definition yields :: "(u32 \<Rightarrow> out \<Rightarrow> turn option) \<Rightarrow> (string \<times> nat \<times> printf_spec \<times> string) option \<Rightarrow> bool" where
  "yields f r \<longleftrightarrow> (\<forall>addr n u st. fits addr n \<longrightarrow> displays n u st \<longrightarrow>
     (case r of None \<Rightarrow> f addr st = None
      | Some (fmt, ap, spec, t) \<Rightarrow> \<exists>st'. f addr st = Some (fmt, ap, spec, st') \<and> displays n (u @ t) st'))"

lemma yields_None: "yields f None \<Longrightarrow> fits addr n \<Longrightarrow> displays n u st \<Longrightarrow> f addr st = None"
  unfolding yields_def option.case by blast

lemma yields_Some:
  "yields f (Some (fmt, ap, spec, t)) \<Longrightarrow> fits addr n \<Longrightarrow> displays n u st \<Longrightarrow>
   \<exists>st'. f addr st = Some (fmt, ap, spec, st') \<and> displays n (u @ t) st'"
  unfolding yields_def option.case prod.case by blast

lemma yields_writes:
  assumes "writes g r" and "\<And>addr st. f addr st = map_option (\<lambda>st. (fmt, ap, spec, st)) (g addr st)"
  shows "\<exists>r. yields f r"
proof -
  have "yields f (map_option (\<lambda>t. (fmt, ap, spec, t)) r)"
    using assms unfolding yields_def writes_def by (cases r) force+
  then show ?thesis by blast
qed

lemma yields_prints:
  assumes "prints g" and "\<And>addr st. f addr st = Some (fmt, ap, spec, g st)"
  shows "\<exists>r. yields f r"
  using writes_prints [OF assms(1)] yields_writes assms(2) by fastforce

lemma yields_format_item:
  assumes "good_printer vsn"
  shows "\<exists>r. yields (\<lambda>addr st. format_item E vsn addr va text (fmt, ap, spec, st)) r"
proof -
  have num: "\<exists>r. yields (\<lambda>addr st. case va_number spec va ap of (num, ap) \<Rightarrow> Some (fmt, ap, spec, number num spec st)) r"
    by (cases "va_number spec va ap") (auto intro!: yields_prints prints_number)
  have copy: "prints (copy_text text)"
  proof -
    have "copy_text text = emits text" using copy_text_eq by blast
    then show ?thesis by (simp add: prints_intro)
  qed
  show ?thesis
  proof (cases "fmt_type spec")
    case FORMAT_TYPE_CHAR
    define fw where "fw = (if has LEFT spec then field_width spec else char_width (field_width spec))"
    define t where "t = (if has LEFT spec then [] else char_fill (field_width spec)) @ [char_of (unat (va ap))] @ char_fill fw"
    have "format_item E vsn addr va text (fmt, ap, spec, st) =
       Some (fmt, ap + 1, spec\<lparr>field_width := char_width fw\<rparr>, emits t st)" for addr st
      unfolding format_item_def using FORMAT_TYPE_CHAR
      by (simp add: char_pad_split fw_def t_def emits_append)
    with prints_emits show ?thesis by (rule yields_prints)
  next
    case FORMAT_TYPE_PTR
    obtain r where "writes (\<lambda>addr. pointer E vsn addr fmt (va ap) spec) r" using writes_pointer [OF assms] by blast
    then show ?thesis
      by (rule yields_writes) (auto simp: format_item_def FORMAT_TYPE_PTR split: option.split)
  next
    case FORMAT_TYPE_NONE
    show ?thesis by (rule yields_prints [OF copy]) (simp add: format_item_def FORMAT_TYPE_NONE)
  next
    case FORMAT_TYPE_WIDTH
    show ?thesis by (rule yields_prints [OF prints_emits [of "[]"]]) (simp add: format_item_def FORMAT_TYPE_WIDTH)
  next
    case FORMAT_TYPE_PRECISION
    show ?thesis by (rule yields_prints [OF prints_emits [of "[]"]]) (simp add: format_item_def FORMAT_TYPE_PRECISION)
  next
    case FORMAT_TYPE_STR
    show ?thesis by (rule yields_prints [OF prints_string]) (simp add: format_item_def FORMAT_TYPE_STR)
  next
    case FORMAT_TYPE_PERCENT_CHAR
    show ?thesis by (rule yields_prints [OF prints_emit]) (simp add: format_item_def FORMAT_TYPE_PERCENT_CHAR)
  qed (use num in \<open>simp_all add: format_item_def\<close>)
qed

lemma displays_empty: "displays 0 [] ([], 0)"
  by (simp add: displays_def)

lemma writes_vsn_loop:
  assumes "good_printer vsn"
  shows "\<exists>r. writes (\<lambda>addr. vsn_loop E vsn addr va fmt ap spec) r"
proof (induction "length fmt" arbitrary: fmt ap spec rule: less_induct)
  case less
  obtain rd spec1 where d: "format_decode fmt spec = (rd, spec1)" by fastforce
  show ?case
  proof (cases "fmt = [] \<or> fmt_type spec1 = FORMAT_TYPE_INVALID")
    case True
    then have "vsn_loop E vsn addr va fmt ap spec st = Some (emits [] st)" for addr st
      by (subst vsn_loop.simps) (auto simp: d)
    then have "(\<lambda>addr. vsn_loop E vsn addr va fmt ap spec) = (\<lambda>addr st. Some (emits [] st))" by blast
    then show ?thesis using writes_prints [OF prints_emits, of "[]"] by (simp only:)
  next
    case False
    obtain r where r: "yields (\<lambda>addr st. format_item E vsn addr va (take rd fmt) (drop rd fmt, ap, spec1, st)) r"
      using yields_format_item [OF assms] by blast
    have e: "vsn_loop E vsn addr va fmt ap spec st =
        (case format_item E vsn addr va (take rd fmt) (drop rd fmt, ap, spec1, st) of None \<Rightarrow> None
         | Some (fmt, ap, spec, st) \<Rightarrow> vsn_loop E vsn addr va fmt ap spec st)" for addr st
      using False by (subst vsn_loop.simps) (simp add: d)
    show ?thesis
    proof (cases r)
      case None
      then have "writes (\<lambda>addr. vsn_loop E vsn addr va fmt ap spec) None"
        using yields_None [OF r [unfolded None]] unfolding writes_def e option.case by fastforce
      then show ?thesis by blast
    next
      case (Some q)
      obtain f' a' s' t where q: "q = (f', a', s', t)" by (cases q) auto
      have item: "\<exists>st'. format_item E vsn addr va (take rd fmt) (drop rd fmt, ap, spec1, st) = Some (f', a', s', st')
          \<and> displays n (u @ t) st'" if "fits addr n" "displays n u st" for addr n u st
        by (rule yields_Some [OF r [unfolded Some q] that])
      obtain st' where "format_item E vsn 0 va (take rd fmt) (drop rd fmt, ap, spec1, ([], 0)) = Some (f', a', s', st')"
        using item [OF _ displays_empty, of 0] by (auto simp: fits_def)
      then have "length f' < length fmt" using vsn_turn_shorter [OF _ d] False by blast
      from less [OF this, of a' s'] obtain r' where r': "writes (\<lambda>addr. vsn_loop E vsn addr va f' a' s') r'" by blast
      have "writes (\<lambda>addr. vsn_loop E vsn addr va fmt ap spec) (map_option (\<lambda>t'. t @ t') r')"
        unfolding writes_def
      proof (intro allI impI)
        fix addr n u st
        assume f: "fits addr n" and d: "displays n u st"
        obtain st' where st': "format_item E vsn addr va (take rd fmt) (drop rd fmt, ap, spec1, st) = Some (f', a', s', st')"
          and d': "displays n (u @ t) st'" using item [OF f d] by blast
        show "case map_option (\<lambda>t'. t @ t') r' of None \<Rightarrow> vsn_loop E vsn addr va fmt ap spec st = None
          | Some t' \<Rightarrow> \<exists>st'. vsn_loop E vsn addr va fmt ap spec st = Some st' \<and> displays n (u @ t') st'"
        proof (cases r')
          case None
          then show ?thesis using writes_None [OF _ f d'] r' by (simp add: e st')
        next
          case (Some t')
          then show ?thesis using writes_Some [OF _ f d'] r' by (simp add: e st')
        qed
      qed
      then show ?thesis by blast
    qed
  qed
qed

section \<open>vsnprintf\<close>

definition prints_terminated :: "printer \<Rightarrow> string \<Rightarrow> va_list \<times> nat \<Rightarrow> string option \<Rightarrow> bool" where
  "prints_terminated vsn fmt va r \<longleftrightarrow> (\<forall>addr b. fits addr (length b) \<longrightarrow>
     (case r of None \<Rightarrow> vsn addr (length b) fmt va b = None
      | Some t \<Rightarrow> \<exists>b'. vsn addr (length b) fmt va b = Some (b', length t) \<and> length b' = length b \<and> holds_text b' t))"

lemma displays_terminate:
  assumes "displays n t (b, p)"
  shows "displays n t (b[(if p < n then p else n - 1) := c], p)"
  using displaysD [OF assms] by (intro displaysI) (auto simp: nth_list_update)

lemma holds_text_displays:
  assumes "displays n t (b, p)" and "0 < n \<Longrightarrow> b ! min p (n - 1) = CHR 0x00"
  shows "holds_text b t"
proof -
  note D = displaysD [OF assms(1), simplified]
  have "take (length t) (take (n - 1) b) = take (n - 1) t"
    using D by (intro nth_equalityI) auto
  then show ?thesis using D assms(2) by (simp add: holds_text_def)
qed

definition spec0 :: printf_spec where
  "spec0 = \<lparr>fmt_type = FORMAT_TYPE_NONE, field_width = 0, flags = 0, base = 0, precision = 0\<rparr>"

lemma vsnprintf_with_writes:
  assumes r: "writes (\<lambda>addr. vsn_loop E vsn addr (fst va) fmt (snd va) spec0) r" and f: "fits addr (length b)"
  shows "case r of None \<Rightarrow> vsnprintf_with E vsn addr (length b) fmt va b = None
      | Some t \<Rightarrow> \<exists>b'. vsnprintf_with E vsn addr (length b) fmt va b = Some (b', length t)
          \<and> displays (length b) t (b', length t) \<and> length b' = length b \<and> holds_text b' t"
proof -
  let ?n = "length b"
  have e: "vsnprintf_with E vsn addr ?n fmt va b =
      (case vsn_loop E vsn addr (fst va) fmt (snd va) spec0 (b, 0) of None \<Rightarrow> None
       | Some (b', p) \<Rightarrow> Some (if 0 < ?n then b'[(if p < ?n then p else ?n - 1) := CHR 0x00] else b', p))"
    using f by (auto simp: vsnprintf_with_def fits_def spec0_def Let_def split: option.split)
  have d0: "displays ?n [] (b, 0)" by (simp add: displays_def)
  show ?thesis
  proof (cases r)
    case None
    then show ?thesis using writes_None [OF r [unfolded None] f d0] e by simp
  next
    case (Some t)
    then obtain b' p where l: "vsn_loop E vsn addr (fst va) fmt (snd va) spec0 (b, 0) = Some (b', p)"
      and d: "displays ?n t (b', p)"
      using writes_Some [OF r [unfolded Some] f d0] by fastforce
    have p: "p = length t" and len: "length b' = ?n" using displaysD [OF d] by simp_all
    define b2 where "b2 = (if 0 < ?n then b'[(if p < ?n then p else ?n - 1) := CHR 0x00] else b')"
    have d2: "displays ?n t (b2, p)" unfolding b2_def using d displays_terminate [OF d] by (cases "0 < length b") (simp_all only: if_True if_False)
    have "b2 ! min p (?n - 1) = CHR 0x00" if "0 < ?n"
    proof -
      have "min p (?n - 1) = (if p < ?n then p else ?n - 1)" using that by (simp add: min_def) linarith
      then show ?thesis using that len by (simp add: b2_def)
    qed
    then have "holds_text b2 t" by (rule holds_text_displays [OF d2])
    moreover have "vsnprintf_with E vsn addr ?n fmt va b = Some (b2, length t)"
      unfolding e l b2_def p by simp
    moreover have "length b2 = ?n" using len by (simp add: b2_def)
    ultimately show ?thesis using Some d2 p by simp
  qed
qed

lemma vsnprintf_with_text:
  assumes r: "writes (\<lambda>addr. vsn_loop E vsn addr (fst va) fmt (snd va) spec0) r"
  shows "prints_text (vsnprintf_with E vsn) fmt va r" and "prints_terminated (vsnprintf_with E vsn) fmt va r"
  using vsnprintf_with_writes [OF r] unfolding prints_text_def prints_terminated_def by (cases r; force)+

lemma good_printer_text:
  assumes "good_printer vsn"
  shows "\<exists>r. prints_text (vsnprintf_with E vsn) fmt va r \<and> prints_terminated (vsnprintf_with E vsn) fmt va r"
proof -
  obtain r where "writes (\<lambda>addr. vsn_loop E vsn addr (fst va) fmt (snd va) spec0) r"
    using writes_vsn_loop [OF assms] by blast
  from vsnprintf_with_text [OF this] show ?thesis by blast
qed

lemma vsnprintf_good: "good_printer (vsnprintf depth E)"
proof (induction depth)
  case 0
  show ?case unfolding good_printer_def prints_text_def by (auto intro: exI [of _ None])
next
  case (Suc depth)
  have "\<exists>r. prints_text (vsnprintf_with E (vsnprintf depth E)) fmt va r" for fmt va
    using good_printer_text [OF Suc] by blast
  then show ?case unfolding good_printer_def vsnprintf.simps by blast
qed

text \<open>Only \<open>%pV\<close> can exceed the nesting bound.\<close>

lemma format_item_some:
  assumes "CHR ''V'' \<notin> set fmt \<or> (\<forall>addr sz f va b. f \<in> nested \<longrightarrow> vsn addr sz f va b \<noteq> None)"
    and "\<And>a. fst (va_format_at E a) \<in> nested"
  shows "format_item E vsn addr va text (fmt, ap, spec, st) \<noteq> None"
proof -
  have "pointer E vsn addr fmt (va ap) spec st \<noteq> None"
  proof (cases "char_at fmt 0 = CHR ''V''")
    case True
    then have "CHR ''V'' \<in> set fmt" by (cases fmt) auto
    then have v: "vsn x sz (fst (va_format_at E (va ap))) v b \<noteq> None" for x sz v b using assms by blast
    obtain b p where st: "st = (b, p)" by fastforce
    obtain f v where f: "va_format_at E (va ap) = (f, v)" by (cases "va_format_at E (va ap)")
    obtain b' n where "vsn (addr + of_nat p) (if p < length b then length b - p else 0) f v (drop p b) = Some (b', n)"
      using v [of "addr + of_nat p" "if p < length b then length b - p else 0" v "drop p b"] f by auto
    then show ?thesis using True f st by (simp add: pointer_def va_format_def split: option.split)
  qed (simp add: pointer_def)
  then show ?thesis
    unfolding format_item_def by (cases "fmt_type spec") (auto simp: split_beta Let_def split: option.split)
qed

lemma format_item_set:
  assumes "format_item E vsn addr va text (fmt, ap, spec, st) = Some (fmt', s)"
  shows "set fmt' \<subseteq> set fmt"
  using assms unfolding format_item_def
  by (cases "fmt_type spec") (auto simp: split_beta Let_def split: option.splits dest: set_dropWhileD)

lemma vsn_loop_some:
  assumes "CHR ''V'' \<notin> set fmt \<or> (\<forall>addr sz f va b. f \<in> nested \<longrightarrow> vsn addr sz f va b \<noteq> None)"
    and "\<And>a. fst (va_format_at E a) \<in> nested"
  shows "vsn_loop E vsn addr va fmt ap spec st \<noteq> None"
  using assms
proof (induction "length fmt" arbitrary: fmt ap spec st rule: less_induct)
  case less
  obtain rd spec1 where d: "format_decode fmt spec = (rd, spec1)" by fastforce
  show ?case
  proof (cases "fmt = [] \<or> fmt_type spec1 = FORMAT_TYPE_INVALID")
    case True
    then show ?thesis by (subst vsn_loop.simps) (auto simp: d)
  next
    case False
    have "CHR ''V'' \<notin> set (drop rd fmt) \<or> (\<forall>addr sz f va b. f \<in> nested \<longrightarrow> vsn addr sz f va b \<noteq> None)"
      using less.prems(1) in_set_dropD by metis
    then obtain f' a' s' st' where it: "format_item E vsn addr va (take rd fmt) (drop rd fmt, ap, spec1, st) = Some (f', a', s', st')"
      using format_item_some [OF _ less.prems(2)] by (metis option.exhaust prod_cases4)
    have "length f' < length fmt" using vsn_turn_shorter [OF _ d _ it] False by blast
    moreover have "set f' \<subseteq> set fmt" using format_item_set [OF it] set_drop_subset by fast
    ultimately have "vsn_loop E vsn addr va f' a' s' st' \<noteq> None"
      using less.hyps [of f' a' s' st'] less.prems by blast
    then show ?thesis using False it by (subst vsn_loop.simps) (simp add: d)
  qed
qed

lemma vsnprintf_some:
  assumes "CHR ''V'' \<notin> set fmt \<or> 0 < depth \<and> (\<forall>a. CHR ''V'' \<notin> set (fst (va_format_at E a)))"
  shows "vsnprintf (Suc depth) E addr sz fmt va b \<noteq> None"
proof -
  have step: "vsnprintf_with E vsn addr sz f va b \<noteq> None"
    if nst: "CHR ''V'' \<notin> set f \<or> (\<forall>addr sz f va b. f \<in> nested \<longrightarrow> vsn addr sz f va b \<noteq> None)"
      "\<And>a. fst (va_format_at E a) \<in> nested" for vsn addr sz f va b nested
  proof -
    define e where "e = (if 2 ^ 32 \<le> unat addr + sz then 2 ^ 32 - 1 - unat addr else sz)"
    obtain b' p where "vsn_loop E vsn addr (fst va) f (snd va) spec0 (take e b, 0) = Some (b', p)"
      using vsn_loop_some [OF nst, of addr "fst va" "snd va" spec0 "(take e b, 0)"] by auto
    then show ?thesis unfolding vsnprintf_with_def Let_def e_def [symmetric] spec0_def [symmetric] by simp
  qed
  have flat: "vsnprintf (Suc d) E addr sz f va b \<noteq> None" if "CHR ''V'' \<notin> set f" for d addr sz f va b
    using step [of f UNIV "vsnprintf d E" addr sz va b] that by simp
  show ?thesis
  proof (cases depth)
    case 0
    then show ?thesis using assms flat by blast
  next
    case (Suc d)
    show ?thesis
    proof (cases "CHR ''V'' \<notin> set fmt")
      case False
      have "vsnprintf_with E (vsnprintf (Suc d) E) addr sz fmt va b \<noteq> None"
        by (rule step [of fmt "{f. CHR ''V'' \<notin> set f}"]) (use False assms flat in blast)+
      then show ?thesis by (simp add: Suc)
    qed (rule flat)
  qed
qed



end
