(* ===== verification/Kvsprintf_Number.thy ===== *)
theory Kvsprintf_Number
  imports Kvsprintf_Text
begin

unbundle bit_operations_syntax

text \<open>
  The digits \<open>number\<close> of \<open>lib/vsprintf.c\<close> produces are those of the number in base 8, 10 or 16, and
  what \<open>snprintf\<close> prints, the functions of \<open>lib/kstrtox.c\<close> read back.
\<close>

section \<open>The digits of a number\<close>

fun radix_rev :: "nat \<Rightarrow> nat \<Rightarrow> nat list" where
  "radix_rev b n = (if b \<le> 1 \<or> n < b then [n] else n mod b # radix_rev b (n div b))"

declare radix_rev.simps [simp del]

definition digit_char :: "u8 \<Rightarrow> nat \<Rightarrow> char" where
  "digit_char l d = or_locase (hex_asc_upper ! d) l"

lemma less_16_cases:
  assumes "d < (16 :: nat)"
  shows "d = 0 \<or> d = 1 \<or> d = 2 \<or> d = 3 \<or> d = 4 \<or> d = 5 \<or> d = 6 \<or> d = 7 \<or> d = 8 \<or> d = 9
    \<or> d = 10 \<or> d = 11 \<or> d = 12 \<or> d = 13 \<or> d = 14 \<or> d = 15"
  using assms by presburger

lemmas digit_char_eval = digit_char_def or_locase_def hex_asc_upper_def char_of_def bit_0

lemma digit_value_digit_char: "d < 16 \<Longrightarrow> l \<in> {0, 32} \<Longrightarrow> digit_value (digit_char l d) = Some d"
  by (drule less_16_cases, elim disjE) (auto simp: digit_char_eval digit_value_def)

lemma dec_char_digit_char:
  assumes "d < 10" and "l \<in> {0, 32}"
  shows "dec_char d = digit_char l d"
proof -
  have "d < 16" using assms(1) by simp
  from less_16_cases [OF this] show ?thesis
    using assms by (elim disjE) (auto simp: digit_char_eval dec_char_def)
qed

lemma digits_pow2_radix:
  assumes "b \<in> {8, 16}"
  shows "digits_pow2 num b l = map (digit_char l) (radix_rev b (unat num))"
  using assms
proof (induction num b l rule: digits_pow2.induct)
  case (1 num b l)
  define s :: nat where "s = (if b = 16 then 4 else 3)"
  have b: "b = 2 ^ s" "1 < b" using 1(2) by (auto simp: s_def)
  have m: "(of_nat b - 1 :: u64) = mask s" using 1(2) by (auto simp: s_def mask_eq_exp_minus_1)
  have "num AND 0xff AND (of_nat b - 1) = take_bit s num"
    unfolding m take_bit_eq_mask using 1(2) by (auto simp: s_def mask_eq_exp_minus_1 and.assoc)
  then have d: "unat (num AND 0xff AND (of_nat b - 1)) = unat num mod b"
    using b(1) by (simp only: unsigned_take_bit_eq) (simp add: take_bit_eq_mod)
  have q: "unat (drop_bit s num) = unat num div b" by (simp add: unat_drop b)
  then have z: "drop_bit s num = 0 \<longleftrightarrow> unat num < b" using b by (simp add: div_eq_0_iff flip: unat_eq_0)
  have e: "digits_pow2 num b l = (if drop_bit s num \<noteq> 0
      then digit_char l (unat num mod b) # digits_pow2 (drop_bit s num) b l else [digit_char l (unat num mod b)])"
    by (subst digits_pow2.simps) (simp only: Let_def d digit_char_def s_def)
  show ?case
  proof (cases "unat num < b")
    case True
    then show ?thesis using e z b by (simp add: radix_rev.simps)
  next
    case False
    then have nz: "drop_bit (if b = 16 then 4 else 3) num \<noteq> 0" using z by (simp add: s_def)
    have "digits_pow2 (drop_bit s num) b l = map (digit_char l) (radix_rev b (unat num div b))"
      using 1(1) [OF refl refl nz 1(2)] q by (simp only: s_def)
    then show ?thesis using e z b(2) False by (simp add: radix_rev.simps [of b "unat num"])
  qed
qed

lemma decimal_radix: "l \<in> {0, 32} \<Longrightarrow> decimal n = map (digit_char l) (radix_rev 10 n)"
proof (induction n rule: less_induct)
  case (less n)
  show ?case
  proof (cases "n < 10")
    case True
    then show ?thesis using less.prems by (simp add: decimal_small radix_rev.simps dec_char_digit_char)
  next
    case False
    then show ?thesis using less.IH [of "n div 10"] less.prems dec_char_digit_char [of "n mod 10" l]
      by (simp add: decimal_step radix_rev.simps [of 10 n])
  qed
qed

lemma number_digits_radix:
  assumes "b \<in> {8, 10, 16}" and "l \<in> {0, 32}"
  shows "number_digits num b l = map (digit_char l) (radix_rev b (unat num))"
proof (cases "unat num < b")
  case True
  have "unat (of_nat b :: u64) = b" using assms(1) by auto
  then show ?thesis using True by (simp add: number_digits_def word_less_nat_alt digit_char_def radix_rev.simps del: unat_of_nat)
next
  case False
  have "unat (of_nat b :: u64) = b" using assms(1) by auto
  then show ?thesis using False assms digits_pow2_radix [of b num l] put_dec_decimal [of num] decimal_radix [OF assms(2)]
    by (auto simp: number_digits_def word_less_nat_alt)
qed

lemma radix_rev_less: "2 \<le> b \<Longrightarrow> d \<in> set (radix_rev b n) \<Longrightarrow> d < b"
proof (induction b n rule: radix_rev.induct)
  case (1 b n)
  then show ?case by (subst (asm) (2) radix_rev.simps) (auto split: if_splits)
qed

lemma radix_rev_nonempty: "radix_rev b n \<noteq> []"
  by (subst radix_rev.simps) simp

lemma length_radix_rev: "n < b ^ k \<Longrightarrow> 0 < k \<Longrightarrow> length (radix_rev b n) \<le> k"
proof (induction k arbitrary: n)
  case (Suc k)
  show ?case
  proof (cases "b \<le> 1 \<or> n < b")
    case True
    then show ?thesis by (subst radix_rev.simps) simp
  next
    case False
    then have k: "0 < k" using Suc.prems by (cases k) auto
    have "n div b < b ^ k" using Suc.prems False by (simp add: less_mult_imp_div_less mult.commute)
    from Suc.IH [OF this k] show ?thesis using False by (subst radix_rev.simps) simp
  qed
qed simp

lemma value_from_snoc: "value_from b v (s @ [c]) = value_from b v s * b + the (digit_value c)"
  by (induction s arbitrary: v) auto

lemma value_radix_rev:
  assumes "l \<in> {0, 32}" and "2 \<le> b" "b \<le> 16"
  shows "value_from b 0 (rev (map (digit_char l) (radix_rev b n))) = n"
  using assms(2,3)
proof (induction b n rule: radix_rev.induct)
  case (1 b n)
  show ?case
  proof (cases "n < b")
    case True
    then show ?thesis using 1 assms(1) by (simp add: radix_rev.simps digit_value_digit_char)
  next
    case False
    then have "\<not> (b \<le> 1 \<or> n < b)" using 1 by simp
    note IH = 1(1) [OF this 1(2,3)]
    have "n mod b < b" using 1 by simp
    then have "n mod b < 16" using 1 by linarith
    then show ?thesis
      using IH False 1 assms(1) by (simp add: radix_rev.simps [of b n] value_from_snoc digit_value_digit_char)
  qed
qed

section \<open>Reading back what was printed\<close>

lemma small_flag: "flags spec AND SMALL \<in> {0, 32}"
  by (simp add: SMALL_def and_32)

lemma digits_text_radix:
  assumes "base spec \<in> {8, 10, 16}"
  shows "digits_text num spec = rev (map (digit_char (flags spec AND SMALL)) (radix_rev (base spec) (unat (magnitude num spec))))"
  unfolding digits_text_def number_digits_radix [OF assms small_flag] ..

lemma digits_text_digits:
  assumes "base spec \<in> {8, 10, 16}" and "c \<in> set (digits_text num spec)"
  shows "is_digit_of (base spec) c"
proof -
  obtain d where d: "d \<in> set (radix_rev (base spec) (unat (magnitude num spec)))"
    and c: "c = digit_char (flags spec AND SMALL) d"
    using assms by (auto simp: digits_text_radix)
  have "d < base spec" using assms(1) by (intro radix_rev_less [OF _ d]) auto
  moreover have "base spec \<le> 16" using assms(1) by auto
  ultimately show ?thesis using digit_value_digit_char [OF _ small_flag, of d spec] by (simp add: is_digit_of_def c)
qed

lemma digits_text_value:
  assumes "base spec \<in> {8, 10, 16}"
  shows "value_from (base spec) 0 (digits_text num spec) = unat (magnitude num spec)"
  using assms value_radix_rev [OF small_flag [of spec]] by (auto simp: digits_text_radix)

lemma digits_text_length:
  assumes "base spec \<in> {8, 10, 16}"
  shows "length (digits_text num spec) \<le> 22" and "digits_text num spec \<noteq> []"
proof -
  let ?n = "unat (magnitude num spec)"
  have n: "?n < 18446744073709551616" using unat_u64_bound [of "magnitude num spec"] by simp
  have "?n < 8 ^ 22" "?n < 10 ^ 22" "?n < 16 ^ 22" using n by simp_all
  then have "length (radix_rev (base spec) ?n) \<le> 22" using assms length_radix_rev [of ?n _ 22] by auto
  then show "length (digits_text num spec) \<le> 22" by (simp add: digits_text_radix [OF assms])
  show "digits_text num spec \<noteq> []" by (simp add: digits_text_radix [OF assms] radix_rev_nonempty)
qed

text \<open>
  \<^bold>\<open>C23\<close>. \<open>number\<close> appends the sign, the radix prefix and the digits of the number in its base, filled
  up to the precision with zeros and to the field width with blanks on the left or right or with
  zeros behind the prefix; the digits fit the array \<open>tmp\<close> of 24 characters.
\<close>

theorem number_layout:
  assumes "base spec \<in> {8, 10, 16}"
  shows "number num spec st = emits (number_text num spec) st
    \<and> digits_text num spec = rev (map (digit_char (flags spec AND SMALL)) (radix_rev (base spec) (unat (magnitude num spec))))
    \<and> length (number_digits (magnitude num spec) (base spec) (flags spec AND SMALL)) \<le> 22"
  using number_emits digits_text_radix [OF assms] digits_text_length(1) [OF assms]
  by (simp add: digits_text_def)

theorem number_layout_witness:
  "number 255 \<lparr>fmt_type = FORMAT_TYPE_UINT, field_width = 6, flags = SPECIAL OR ZEROPAD, base = 16, precision = -1\<rparr> (replicate 8 (CHR ''.''), 0)
    = (''0X00FF..'', 6)"
proof -
  let ?s = "\<lparr>fmt_type = FORMAT_TYPE_UINT, field_width = 6, flags = SPECIAL OR ZEROPAD, base = 16, precision = -1\<rparr>"
  have b: "base ?s \<in> {8, 10, 16}" by simp
  have "digits_text 255 ?s = ''FF''"
    using number_layout [OF b, of 255 "([], 0)"]
    by (simp add: magnitude_def has_def SIGN_def SPECIAL_def ZEROPAD_def SMALL_def radix_rev.simps digit_char_eval)
  then have "number_text 255 ?s = ''0X00FF''"
    by (simp add: number_text_def sign_text_def prefix_text_def has_def SIGN_def SPECIAL_def ZEROPAD_def SMALL_def LEFT_def) (simp add: numeral_2_eq_2)
  then show ?thesis
    using number_layout [OF b, of 255 "(replicate 8 (CHR ''.''), 0)"] by (simp add: numeral_eq_Suc)
qed

lemma snprintf_emits:
  assumes loop: "\<And>addr st. vsn_loop E (vsnprintf depth E) addr args fmt 0 spec0 st = Some (emits t st)"
    and fit: "fits addr (length b)" and len: "length t < length b" and z: "CHR 0x00 \<notin> set t"
  shows "\<exists>b'. snprintf (Suc depth) E addr (length b) fmt args b = Some (b', length t) \<and> cstr b' = t"
proof -
  have "writes (\<lambda>addr. vsn_loop E (vsnprintf depth E) addr args fmt 0 spec0) (Some t)"
    unfolding writes_def option.case loop using writerD [OF writer_emits] by blast
  from vsnprintf_with_text(2) [of E "vsnprintf depth E" "(args, 0)", simplified, OF this]
  obtain b' where "vsnprintf_with E (vsnprintf depth E) addr (length b) fmt (args, 0) b = Some (b', length t)"
    and "length b' = length b" and "holds_text b' t"
    unfolding prints_terminated_def using fit by auto
  then show ?thesis using cstr_holds_text [of b' t] len z by (simp add: snprintf_def)
qed

lemma loop_long_long:
  assumes "format_decode fmt spec0 = (length fmt, spec)" and "fmt_type spec = FORMAT_TYPE_LONG_LONG" and "fmt \<noteq> []"
  shows "vsn_loop E vsn addr args fmt 0 spec0 st = Some (emits (number_text (join64 (args 1) (args 0)) spec) st)"
proof -
  have "format_item E vsn addr args fmt ([], 0, spec, st)
      = Some ([], 2, spec, emits (number_text (join64 (args 1) (args 0)) spec) st)"
    using assms(2) by (simp add: format_item_def va_number_def number_emits numeral_2_eq_2)
  then show ?thesis using assms by (subst vsn_loop.simps) (simp add: vsn_loop.simps)
qed

definition plain_spec :: "u8 \<Rightarrow> nat \<Rightarrow> printf_spec" where
  "plain_spec fl b = \<lparr>fmt_type = FORMAT_TYPE_LONG_LONG, field_width = -1, flags = fl, base = b, precision = -1\<rparr>"

lemmas decode_eval = format_decode_def decode_rest_def decode_precision_def decode_qualifier_def length_modifier_def
  decode_conversion_def decode_integer_def add_flag_def has_def isdigit_def tolower_def spec0_def plain_spec_def Let_def

lemma decode_long_long:
  "format_decode ''%llu'' spec0 = (4, plain_spec 0 10)"
  "format_decode ''%llx'' spec0 = (4, plain_spec SMALL 16)"
  "format_decode ''%#llx'' spec0 = (5, plain_spec (SPECIAL OR SMALL) 16)"
  "format_decode ''%llo'' spec0 = (4, plain_spec 0 8)"
  "format_decode ''%lld'' spec0 = (4, plain_spec SIGN 10)"
  by (simp_all add: decode_eval)

lemma number_text_plain:
  "number_text num (plain_spec fl b)
     = sign_text num (plain_spec fl b) @ prefix_text num (plain_spec fl b) @ digits_text num (plain_spec fl b)"
  by (simp add: number_text_def plain_spec_def Let_def)

lemma digits_of_digits_text:
  "base spec \<in> {8, 10, 16} \<Longrightarrow> digits_of (base spec) (digits_text num spec) = digits_text num spec"
  using digits_text_digits by (simp add: digits_of_def)

lemma digit_not_special:
  assumes "is_digit_of b c"
  shows "c \<noteq> CHR 0x00" "c \<noteq> CHR ''+''" "c \<noteq> CHR ''-''" "tolower c \<noteq> of_char CHR ''x''"
proof -
  have "digit_value c \<noteq> None" using assms by (auto simp: is_digit_of_def split: option.splits)
  then show "c \<noteq> CHR 0x00" "c \<noteq> CHR ''+''" "c \<noteq> CHR ''-''" "tolower c \<noteq> of_char CHR ''x''"
    using or_32_cases [of "of_char c"] by (auto simp: digit_value_def tolower_def Let_def split: if_splits)
qed

lemma digits_text_chars:
  assumes "base spec \<in> {8, 10, 16}"
  shows "CHR 0x00 \<notin> set (digits_text num spec)"
    and "char_at (digits_text num spec) 0 \<noteq> CHR ''+''" "char_at (digits_text num spec) 0 \<noteq> CHR ''-''"
    and "tolower (char_at (digits_text num spec) 1) \<noteq> of_char CHR ''x''"
proof -
  have c: "is_digit_of (base spec) (char_at (digits_text num spec) i)" if "i < length (digits_text num spec)" for i
    using that digits_text_digits [OF assms, of _ num] by (simp add: char_at_def)
  show "CHR 0x00 \<notin> set (digits_text num spec)" using digits_text_digits [OF assms] digit_not_special by blast
  show "char_at (digits_text num spec) 0 \<noteq> CHR ''+''" "char_at (digits_text num spec) 0 \<noteq> CHR ''-''"
    using c [of 0] digit_not_special digits_text_length(2) [OF assms] by blast+
  show "tolower (char_at (digits_text num spec) 1) \<noteq> of_char CHR ''x''"
  proof (cases "1 < length (digits_text num spec)")
    case True
    then show ?thesis using digit_not_special(4) [OF c] by blast
  qed (simp add: char_at_def tolower_def)
qed

lemma read_digits_text:
  assumes "base spec \<in> {8, 10, 16}"
  shows "read_number (digits_text num spec) (base spec) = Inr (unat (magnitude num spec))"
proof -
  have "parse_integer_fixup_radix (digits_text num spec) (base spec) = (digits_text num spec, base spec)"
    using digits_text_chars(4) [OF assms] assms by (auto simp: parse_integer_fixup_radix_def)
  then show ?thesis
    using assms digits_text_value [OF assms] digits_of_digits_text [OF assms] digits_text_length(2) [OF assms]
      unat_u64_bound [of "magnitude num spec"]
    by (simp add: read_number_def Let_def)
qed

lemma read_hex_prefix:
  assumes "base spec = 16"
  shows "read_number (''0x'' @ digits_text num spec) 0 = Inr (unat (magnitude num spec))"
proof -
  have b: "base spec \<in> {8, 10, 16}" using assms by simp
  obtain c s where cs: "digits_text num spec = c # s" using digits_text_length(2) [OF b] by (cases "digits_text num spec") auto
  have "is_digit_of 16 c" using digits_text_digits [OF b, of c num] cs assms by simp
  then have "isxdigit c" using boot_digit [of c] by (auto simp: is_digit_of_def split: if_splits)
  then have "parse_integer_fixup_radix (''0x'' @ digits_text num spec) 0 = (digits_text num spec, 16)"
    by (simp add: parse_integer_fixup_radix_def cs char_at_def tolower_def)
  moreover have "digits_of 16 (digits_text num spec) = digits_text num spec"
    "value_from 16 0 (digits_text num spec) = unat (magnitude num spec)"
    using digits_of_digits_text [OF b] digits_text_value [OF b] assms by simp_all
  ultimately show ?thesis
    using digits_text_length(2) [OF b] unat_u64_bound [of "magnitude num spec"] by (simp add: read_number_def Let_def)
qed

lemma magnitude_unsigned: "\<not> has SIGN spec \<Longrightarrow> magnitude num spec = num"
  by (simp add: magnitude_def)

lemma sign_text_unsigned: "\<not> has SIGN spec \<Longrightarrow> sign_text num spec = []"
  by (simp add: sign_text_def)

lemma sint_negative:
  assumes "(num :: u64) <s 0"
  shows "int (unat (- num)) = - sint num"
proof -
  have s: "sint num < 0" using assms by (simp add: word_sless_alt)
  then have "\<not> unat num < 2 ^ 63" using sint_unat [of num] by (simp split: if_splits)
  moreover have "- num = of_nat (2 ^ 64 - unat num)"
    using unat_u64_bound [of num] by (simp add: of_nat_diff)
  ultimately have "unat (- num) = 2 ^ 64 - unat num"
    using unat_of_nat_small [of "2 ^ 64 - unat num", where 'a = 64] by (simp only:) simp
  then show ?thesis using sint_unat [of num] \<open>\<not> unat num < 2 ^ 63\<close> unat_u64_bound [of num]
    by (simp add: of_nat_diff del: of_nat_unat)
qed

lemma sint_range64: "- (2 ^ 63) \<le> sint (num :: u64)" "sint (num :: u64) \<le> 2 ^ 63 - 1"
  using sint_unat [of num] unat_u64_bound [of num] by (simp_all del: of_nat_unat split: if_splits)

lemma read_signed_text:
  "read_integer (number_text num (plain_spec SIGN 10)) 10 = Inr (sint num)"
proof -
  let ?s = "plain_spec SIGN 10"
  have b: "base ?s \<in> {8, 10, 16}" "base ?s = 10" by (simp_all add: plain_spec_def)
  have h: "has SIGN ?s" "\<not> has PLUS ?s" "\<not> has SPACE ?s" "prefix_text num ?s = []"
    by (simp_all add: has_def plain_spec_def SIGN_def PLUS_def SPACE_def prefix_text_def)
  note r = read_digits_text [OF b(1), of num, unfolded b(2)]
  show ?thesis
  proof (cases "num <s 0")
    case True
    then have "number_text num ?s = CHR ''-'' # digits_text num ?s"
      using h by (simp add: number_text_plain sign_text_def)
    then show ?thesis using r True h sint_negative [OF True] by (simp add: read_integer_def magnitude_def)
  next
    case False
    then have "0 \<le> sint num" by (simp add: word_sless_alt)
    then have "int (unat num) = sint num" using sint_unat [of num] unat_u64_bound [of num]
      by (simp del: of_nat_unat split: if_splits)
    moreover have "number_text num ?s = digits_text num ?s"
      using h False by (simp add: number_text_plain sign_text_def)
    ultimately show ?thesis using r False h digits_text_chars(2,3) [OF b(1), of num]
      by (simp add: read_integer_def skip_plus_def magnitude_def)
  qed
qed

lemma kstrtoull_digits:
  assumes "t = number_text num (plain_spec fl b)" and "\<not> has SIGN (plain_spec fl b)" "b \<in> {8, 10, 16}"
    and "read_number (skip_plus t) rb = Inr (unat num)" "rb \<le> 16"
  shows "kstrtoull t rb = Inr num"
proof -
  have "length (digits_text num (plain_spec fl b)) \<le> 22"
    using assms(3) by (intro digits_text_length) (simp add: plain_spec_def)
  moreover have "length (prefix_text num (plain_spec fl b)) \<le> 2" by (simp add: prefix_text_def)
  ultimately have "length t < 2 ^ 31"
    using assms(1,2) by (simp add: number_text_plain sign_text_unsigned)
  from kstrtoull_value [OF assms(5) this] show ?thesis using assms(4) by simp
qed

lemma lead_length: "length (sign_text num spec) \<le> 1" "length (prefix_text num spec) \<le> 2"
  by (simp_all add: sign_text_def prefix_text_def)

lemma number_text_length:
  assumes "base (plain_spec fl b) \<in> {8, 10, 16}"
  shows "length (number_text num (plain_spec fl b)) < 26"
  using digits_text_length(1) [OF assms, of num] lead_length [of num "plain_spec fl b"]
  by (simp only: number_text_plain length_append)

lemma number_text_no_nul:
  "base spec \<in> {8, 10, 16} \<Longrightarrow> spec = plain_spec fl b \<Longrightarrow> CHR 0x00 \<notin> set (number_text num spec)"
  using digits_text_chars(1) [of spec num] by (simp add: number_text_plain sign_text_def prefix_text_def)

lemma snprintf_long_long:
  assumes "format_decode fmt spec0 = (length fmt, plain_spec fl b)" and "fmt \<noteq> []" and "b \<in> {8, 10, 16}"
    and "fits addr (length buf)" and "26 \<le> length buf" and "join64 (args 1) (args 0) = num"
  shows "\<exists>b' n. snprintf (Suc depth) E addr (length buf) fmt args buf = Some (b', n)
    \<and> cstr b' = number_text num (plain_spec fl b)"
proof -
  have b: "base (plain_spec fl b) \<in> {8, 10, 16}" using assms(3) by (simp add: plain_spec_def)
  have "vsn_loop E (vsnprintf depth E) addr args fmt 0 spec0 st = Some (emits (number_text num (plain_spec fl b)) st)" for addr st
    using loop_long_long [OF assms(1) _ assms(2)] assms(6) by (simp add: plain_spec_def)
  from snprintf_emits [OF this assms(4)] show ?thesis
    using number_text_length [OF b, of num] number_text_no_nul [OF b refl, of num] assms(5) by auto
qed

text \<open>
  \<^bold>\<open>C22\<close>. What \<open>snprintf\<close> prints into a buffer of at least 26 bytes, the functions of \<open>lib/kstrtox.c\<close>
  read back: the number printed with \<open>%llu\<close>, \<open>%llx\<close> or \<open>%llo\<close> in that base, with \<open>%#llx\<close> in the
  base the prefix selects, and with \<open>%lld\<close> also when it is negative.
\<close>

theorem snprintf_kstrto_roundtrip:
  assumes "fits addr (length buf)" and "26 \<le> length buf" and "num = join64 (args 1) (args 0)"
  shows "(\<exists>b n. snprintf (Suc depth) E addr (length buf) ''%llu'' args buf = Some (b, n) \<and> kstrtoull (cstr b) 10 = Inr num)
    \<and> (\<exists>b n. snprintf (Suc depth) E addr (length buf) ''%llx'' args buf = Some (b, n) \<and> kstrtoull (cstr b) 16 = Inr num)
    \<and> (\<exists>b n. snprintf (Suc depth) E addr (length buf) ''%llo'' args buf = Some (b, n) \<and> kstrtoull (cstr b) 8 = Inr num)
    \<and> (\<exists>b n. snprintf (Suc depth) E addr (length buf) ''%#llx'' args buf = Some (b, n) \<and> kstrtoull (cstr b) 0 = Inr num)
    \<and> (\<exists>b n. snprintf (Suc depth) E addr (length buf) ''%lld'' args buf = Some (b, n) \<and> kstrtoll (cstr b) 10 = Inr num)"
proof (intro conjI)
  note print = snprintf_long_long [OF _ _ _ assms(1,2) assms(3) [symmetric]]
  have plain: "kstrtoull (number_text num (plain_spec fl b)) b = Inr num"
    if "fl \<in> {0, SMALL}" and b: "b \<in> {8, 10, 16}" for fl b
  proof -
    let ?s = "plain_spec fl b"
    have s: "\<not> has SIGN ?s" "prefix_text num ?s = []" and bs: "base ?s \<in> {8, 10, 16}"
      using that by (auto simp: has_def plain_spec_def SIGN_def SMALL_def SPECIAL_def prefix_text_def)
    have t: "number_text num ?s = digits_text num ?s" using s by (simp add: number_text_plain sign_text_unsigned)
    have "read_number (skip_plus (number_text num ?s)) b = Inr (unat num)"
      using read_digits_text [OF bs, of num] digits_text_chars(2) [OF bs, of num] s
      by (simp add: t skip_plus_def magnitude_unsigned) (simp add: plain_spec_def)
    then show ?thesis using b by (intro kstrtoull_digits [OF refl s(1)]) auto
  qed
  show "\<exists>b n. snprintf (Suc depth) E addr (length buf) ''%llu'' args buf = Some (b, n) \<and> kstrtoull (cstr b) 10 = Inr num"
    using print [of "''%llu''" 0 10] plain [of 0 10] decode_long_long by fastforce
  show "\<exists>b n. snprintf (Suc depth) E addr (length buf) ''%llx'' args buf = Some (b, n) \<and> kstrtoull (cstr b) 16 = Inr num"
    using print [of "''%llx''" SMALL 16] plain [of SMALL 16] decode_long_long by fastforce
  show "\<exists>b n. snprintf (Suc depth) E addr (length buf) ''%llo'' args buf = Some (b, n) \<and> kstrtoull (cstr b) 8 = Inr num"
    using print [of "''%llo''" 0 8] plain [of 0 8] decode_long_long by fastforce
  let ?h = "plain_spec (SPECIAL OR SMALL) 16"
  have h: "\<not> has SIGN ?h" "prefix_text num ?h = ''0x''"
    by (simp_all add: has_def plain_spec_def SIGN_def SMALL_def SPECIAL_def prefix_text_def)
  have "read_number (skip_plus (number_text num ?h)) 0 = Inr (unat num)"
    using read_hex_prefix [of ?h num] h
    by (simp add: number_text_plain sign_text_unsigned skip_plus_def magnitude_unsigned) (simp add: plain_spec_def)
  then have "kstrtoull (number_text num ?h) 0 = Inr num" by (intro kstrtoull_digits [OF refl h(1)]) auto
  then show "\<exists>b n. snprintf (Suc depth) E addr (length buf) ''%#llx'' args buf = Some (b, n) \<and> kstrtoull (cstr b) 0 = Inr num"
    using print [of "''%#llx''" "SPECIAL OR SMALL" 16] decode_long_long by fastforce
  let ?d = "plain_spec SIGN 10"
  have "length (number_text num ?d) < 2 ^ 31"
    using number_text_length [of SIGN 10 num] by (simp add: plain_spec_def)
  from kstrtoll_value [OF _ this, of 10] have "map_sum id sint (kstrtoll (number_text num ?d) 10) = Inr (sint num)"
    using read_signed_text [of num] sint_range64 [of num] by (simp add: in_range_def)
  then have "kstrtoll (number_text num ?d) 10 = Inr num"
    by (cases "kstrtoll (number_text num ?d) 10") (auto dest: arg_cong [where f = "of_int :: int \<Rightarrow> u64"])
  then show "\<exists>b n. snprintf (Suc depth) E addr (length buf) ''%lld'' args buf = Some (b, n) \<and> kstrtoll (cstr b) 10 = Inr num"
    using print [of "''%lld''" SIGN 10] decode_long_long by fastforce
qed

theorem snprintf_kstrto_roundtrip_witness:
  "\<exists>b n. snprintf 1 \<lparr>str_at = \<lambda>_. [], va_format_at = \<lambda>_. ([], (\<lambda>_. 0), 0), ptr_to_hashval = \<lambda>_. None,
        debug_boot_weak_hash = False, no_hash_pointers = False\<rparr> 0xC0000000 32 ''%lld'' (\<lambda>i. if i = 0 then 0xFFFFFFFB else 0xFFFFFFFF)
        (replicate 32 (CHR '' '')) = Some (b, n)
      \<and> kstrtoll (cstr b) 10 = Inr (- 5)"
proof -
  let ?a = "\<lambda>i :: nat. if i = 0 then 0xFFFFFFFB else 0xFFFFFFFF :: u32"
  have j: "- 5 = join64 (?a 1) (?a 0)" by (simp add: join64_def)
  have f: "fits 0xC0000000 (length (replicate 32 (CHR '' '')))" by (simp add: fits_def INT_MAX_def)
  show ?thesis
    using snprintf_kstrto_roundtrip [OF f _ j, of 0] by simp
qed

end
