(* ===== verification/Kcmdline.thy ===== *)
theory Kcmdline
  imports Kcstring
begin

text \<open>
  The scanners of the kernel command line: the state machines of \<open>arch/x86/lib/cmdline.c\<close> and their
  copies in the boot code, \<open>arch/x86/boot/cmdline.c\<close>. A command line is a C string, the boot code
  reads it through a segment of bytes. The lemmas relate both to the words of the line.
\<close>

section \<open>The scanners of the kernel\<close>

datatype scan = st_wordstart | st_wordcmp | st_wordskip | st_bufcpy

definition myisspace :: "char \<Rightarrow> bool" where
  "myisspace c \<longleftrightarrow> (of_char c :: nat) \<le> 32"

abbreviation NUL :: char where "NUL \<equiv> CHR 0x00"

text \<open>One character of \<open>__cmdline_find_option_bool\<close>: the value returned, or the state, \<open>wstart\<close> and
  \<open>opptr\<close>.\<close>

type_synonym bool_state = "scan \<times> nat \<times> string"

definition bool_skip :: "char \<Rightarrow> nat \<Rightarrow> string \<Rightarrow> nat + bool_state" where
  "bool_skip c wstart opptr =
     (if c = NUL then Inl 0
      else if myisspace c then Inr (st_wordstart, wstart, opptr)
      else Inr (st_wordskip, wstart, opptr))"

definition bool_cmp :: "char \<Rightarrow> nat \<Rightarrow> string \<Rightarrow> nat + bool_state" where
  "bool_cmp c wstart opptr =
     (if char_at opptr 0 = NUL then
        if c = NUL \<or> myisspace c then Inl wstart else bool_skip c wstart opptr
      else if c = NUL then Inl 0
      else if c = char_at opptr 0 then Inr (st_wordcmp, wstart, tl opptr)
      else bool_skip c wstart (tl opptr))"

definition bool_step :: "string \<Rightarrow> nat \<Rightarrow> char \<Rightarrow> bool_state \<Rightarrow> nat + bool_state" where
  "bool_step option pos c s =
     (case s of (state, wstart, opptr) \<Rightarrow>
        if state = st_wordstart then
          if c = NUL then Inl 0
          else if myisspace c then Inr (st_wordstart, wstart, opptr)
          else bool_cmp c pos option
        else if state = st_wordcmp then bool_cmp c wstart opptr
        else bool_skip c wstart opptr)"

text \<open>The loop over at most \<open>n\<close> more characters.\<close>

fun bool_loop :: "string \<Rightarrow> nat \<Rightarrow> string \<Rightarrow> nat \<Rightarrow> bool_state \<Rightarrow> nat" where
  "bool_loop option 0 cmdline pos s = 0"
| "bool_loop option (Suc n) cmdline pos s =
     (case bool_step option (pos + 1) (char_at cmdline 0) s of
        Inl r \<Rightarrow> r
      | Inr s \<Rightarrow> bool_loop option n (tl cmdline) (pos + 1) s)"

definition find_option_bool :: "string option \<Rightarrow> nat \<Rightarrow> string \<Rightarrow> int" where
  "find_option_bool cmdline max_cmdline_size option =
     (case cmdline of None \<Rightarrow> -1
      | Some s \<Rightarrow> int (bool_loop option max_cmdline_size s 0 (st_wordstart, 0, [])))"

text \<open>One character of \<open>__cmdline_find_option\<close>: the state, \<open>opptr\<close>, \<open>len\<close>, the buffer and
  \<open>bufptr - buffer\<close>.\<close>

type_synonym opt_state = "scan \<times> string \<times> int \<times> string \<times> nat"

definition opt_skip :: "char \<Rightarrow> opt_state \<Rightarrow> opt_state" where
  "opt_skip c s = (case s of (state, rest) \<Rightarrow> (if myisspace c then st_wordstart else st_wordskip, rest))"

definition opt_cmp :: "char \<Rightarrow> opt_state \<Rightarrow> opt_state" where
  "opt_cmp c s =
     (case s of (state, opptr, len, buf, bufptr) \<Rightarrow>
        if c = CHR ''='' \<and> char_at opptr 0 = NUL then (st_bufcpy, opptr, 0, buf, 0)
        else if c = char_at opptr 0 then (st_wordcmp, tl opptr, len, buf, bufptr)
        else opt_skip c (st_wordskip, tl opptr, len, buf, bufptr))"

definition opt_step :: "string \<Rightarrow> int \<Rightarrow> char \<Rightarrow> opt_state \<Rightarrow> opt_state" where
  "opt_step option bufsize c s =
     (case s of (state, opptr, len, buf, bufptr) \<Rightarrow>
        (case state of
           st_wordstart \<Rightarrow> if myisspace c then s else opt_cmp c (st_wordcmp, option, len, buf, bufptr)
         | st_wordcmp \<Rightarrow> opt_cmp c s
         | st_wordskip \<Rightarrow> opt_skip c s
         | st_bufcpy \<Rightarrow>
             if myisspace c then (st_wordstart, opptr, len, buf, bufptr)
             else if len + 1 < bufsize then (st_bufcpy, opptr, len + 1, buf[bufptr := c], bufptr + 1)
             else (st_bufcpy, opptr, len + 1, buf, bufptr)))"

fun opt_loop :: "string \<Rightarrow> int \<Rightarrow> nat \<Rightarrow> string \<Rightarrow> opt_state \<Rightarrow> opt_state" where
  "opt_loop option bufsize 0 cmdline s = s"
| "opt_loop option bufsize (Suc n) cmdline s =
     (if char_at cmdline 0 = NUL then s
      else opt_loop option bufsize n (tl cmdline) (opt_step option bufsize (char_at cmdline 0) s))"

text \<open>The result is the length and the buffer.\<close>

definition opt_finish :: "int \<Rightarrow> opt_state \<Rightarrow> int \<times> string" where
  "opt_finish bufsize s =
     (case s of (state, opptr, len, buf, bufptr) \<Rightarrow> (len, if bufsize \<noteq> 0 then buf[bufptr := NUL] else buf))"

definition find_option :: "string option \<Rightarrow> nat \<Rightarrow> string \<Rightarrow> string \<Rightarrow> int \<Rightarrow> int \<times> string" where
  "find_option cmdline max_cmdline_size option buffer bufsize =
     (case cmdline of None \<Rightarrow> (-1, buffer)
      | Some s \<Rightarrow> opt_finish bufsize (opt_loop option bufsize max_cmdline_size s (st_wordstart, [], -1, buffer, 0)))"

definition COMMAND_LINE_SIZE :: nat where "COMMAND_LINE_SIZE = 2048"

definition cmdline_find_option_bool :: "string option \<Rightarrow> string \<Rightarrow> int" where
  "cmdline_find_option_bool cmdline option = find_option_bool cmdline COMMAND_LINE_SIZE option"

definition cmdline_find_option :: "string option \<Rightarrow> string \<Rightarrow> string \<Rightarrow> int \<Rightarrow> int \<times> string" where
  "cmdline_find_option cmdline option buffer bufsize = find_option cmdline COMMAND_LINE_SIZE option buffer bufsize"

section \<open>The scanners of the boot code\<close>

text \<open>\<open>fs\<close> gives the bytes of the segment that \<open>set_fs\<close> selects, by their offset.\<close>

definition boot_opt_step :: "string \<Rightarrow> int \<Rightarrow> char \<Rightarrow> opt_state \<Rightarrow> opt_state" where
  "boot_opt_step option bufsize c s =
     (case s of (state, opptr, len, buf, bufptr) \<Rightarrow>
        let cmp = (\<lambda>opptr.
              if c = CHR ''='' \<and> char_at opptr 0 = NUL then (st_bufcpy, opptr, 0, buf, 0)
              else if myisspace c then (st_wordstart, opptr, len, buf, bufptr)
              else if c \<noteq> char_at opptr 0 then (st_wordskip, tl opptr, len, buf, bufptr)
              else (st_wordcmp, tl opptr, len, buf, bufptr))
        in case state of
             st_wordstart \<Rightarrow> if myisspace c then s else cmp option
           | st_wordcmp \<Rightarrow> cmp opptr
           | st_wordskip \<Rightarrow> if myisspace c then (st_wordstart, opptr, len, buf, bufptr) else s
           | st_bufcpy \<Rightarrow>
               if myisspace c then (st_wordstart, opptr, len, buf, bufptr)
               else if len < bufsize - 1 then (st_bufcpy, opptr, len + 1, buf[bufptr := c], bufptr + 1)
               else (st_bufcpy, opptr, len + 1, buf, bufptr))"

function boot_opt_loop :: "(nat \<Rightarrow> char) \<Rightarrow> string \<Rightarrow> int \<Rightarrow> nat \<Rightarrow> opt_state \<Rightarrow> opt_state" where
  "boot_opt_loop fs option bufsize cptr s =
     (if cptr < 0x10000 \<and> fs cptr \<noteq> NUL
      then boot_opt_loop fs option bufsize (cptr + 1) (boot_opt_step option bufsize (fs cptr) s) else s)"
  by pat_completeness auto
termination by (relation "measure (\<lambda>(fs, option, bufsize, cptr, s). 0x10000 - cptr)") auto

declare boot_opt_loop.simps [simp del]

definition boot_find_option :: "nat \<Rightarrow> (nat \<Rightarrow> char) \<Rightarrow> string \<Rightarrow> string \<Rightarrow> int \<Rightarrow> int \<times> string" where
  "boot_find_option cmdline_ptr fs option buffer bufsize =
     (if cmdline_ptr = 0 then (-1, buffer)
      else opt_finish bufsize
        (boot_opt_loop fs option bufsize (cmdline_ptr mod 16) (st_wordstart, [], -1, buffer, 0)))"

definition boot_bool_step :: "string \<Rightarrow> nat \<Rightarrow> char \<Rightarrow> bool_state \<Rightarrow> nat + bool_state" where
  "boot_bool_step option pos c s =
     (case s of (state, wstart, opptr) \<Rightarrow>
        let cmp = (\<lambda>wstart opptr.
              if char_at opptr 0 = NUL then
                if c = NUL \<or> myisspace c then Inl wstart else Inr (st_wordskip, wstart, opptr)
              else if c = NUL then Inl 0
              else if c \<noteq> char_at opptr 0 then Inr (st_wordskip, wstart, tl opptr)
              else Inr (st_wordcmp, wstart, tl opptr))
        in if state = st_wordstart then
             if c = NUL then Inl 0
             else if myisspace c then Inr (st_wordstart, wstart, opptr)
             else cmp pos option
           else if state = st_wordcmp then cmp wstart opptr
           else if c = NUL then Inl 0
           else if myisspace c then Inr (st_wordstart, wstart, opptr)
           else Inr (st_wordskip, wstart, opptr))"

function boot_bool_loop :: "(nat \<Rightarrow> char) \<Rightarrow> string \<Rightarrow> nat \<Rightarrow> nat \<Rightarrow> bool_state \<Rightarrow> nat" where
  "boot_bool_loop fs option cptr pos s =
     (if cptr < 0x10000 then
        case boot_bool_step option (pos + 1) (fs cptr) s of
          Inl r \<Rightarrow> r
        | Inr s \<Rightarrow> boot_bool_loop fs option (cptr + 1) (pos + 1) s
      else 0)"
  by pat_completeness auto
termination by (relation "measure (\<lambda>(fs, option, cptr, pos, s). 0x10000 - cptr)") auto

declare boot_bool_loop.simps [simp del]

definition boot_find_option_bool :: "nat \<Rightarrow> (nat \<Rightarrow> char) \<Rightarrow> string \<Rightarrow> int" where
  "boot_find_option_bool cmdline_ptr fs option =
     (if cmdline_ptr = 0 then -1
      else int (boot_bool_loop fs option (cmdline_ptr mod 16) 0 (st_wordstart, 0, [])))"

section \<open>The words of a line\<close>

function cmd_words :: "nat \<Rightarrow> string \<Rightarrow> (nat \<times> string) list" where
  "cmd_words pos [] = []"
| "cmd_words pos (c # s) =
     (if myisspace c then cmd_words (pos + 1) s
      else let w = c # takeWhile (\<lambda>c. \<not> myisspace c) s
           in (pos, w) # cmd_words (pos + length w) (dropWhile (\<lambda>c. \<not> myisspace c) s))"
  by pat_completeness auto
termination
  by (relation "measure (\<lambda>(pos, s). length s)") (auto simp: le_imp_less_Suc length_dropWhile_le)

text \<open>The position of the first word equal to the option, counted from 1; 0 without one.\<close>

definition first_word :: "string \<Rightarrow> (nat \<times> string) list \<Rightarrow> nat" where
  "first_word option ws = (case find (\<lambda>(p, w). w = option) ws of None \<Rightarrow> 0 | Some (p, w) \<Rightarrow> p + 1)"

lemma first_word_Nil [simp]: "first_word option [] = 0"
  by (simp add: first_word_def)

lemma first_word_Cons [simp]: "first_word option ((p, w) # ws) = (if w = option then p + 1 else first_word option ws)"
  by (simp add: first_word_def)

text \<open>A rest that does not continue a word.\<close>

definition ends_word :: "string \<Rightarrow> bool" where
  "ends_word s \<longleftrightarrow> s = [] \<or> myisspace (hd s)"

lemma ends_dropWhile: "ends_word (dropWhile (\<lambda>c. \<not> myisspace c) s)"
  using hd_dropWhile [of "\<lambda>c. \<not> myisspace c" s] by (auto simp: ends_word_def)

lemma myisspace_NUL [simp]: "myisspace NUL"
  by (simp add: myisspace_def)

lemma myisspace_eq [simp]: "\<not> myisspace (CHR ''='')"
  by (simp add: myisspace_def)

lemma char_at_0: "NUL \<notin> set s \<Longrightarrow> char_at s 0 = NUL \<longleftrightarrow> s = []"
  by (cases s) auto

section \<open>Searching for a word\<close>

text \<open>The scanner on a text that ends with the terminating zero.\<close>

fun bool_run :: "(nat \<Rightarrow> char \<Rightarrow> bool_state \<Rightarrow> nat + bool_state) \<Rightarrow> nat \<Rightarrow> string \<Rightarrow> bool_state \<Rightarrow> nat" where
  "bool_run step pos [] s = 0"
| "bool_run step pos (c # t) s =
     (case step (pos + 1) c s of Inl r \<Rightarrow> r | Inr s \<Rightarrow> bool_run step (pos + 1) t s)"

lemma bool_loop_run:
  assumes "length t < n" and "NUL \<notin> set t"
  shows "bool_loop option n t pos s = bool_run (bool_step option) pos (t @ [NUL]) s"
  using assms
proof (induction t arbitrary: n pos s)
  case Nil
  then obtain m where "n = Suc m" by (cases n) auto
  moreover have "\<exists>r. bool_step option (pos + 1) NUL s = Inl r"
    by (cases s) (auto simp: bool_step_def bool_cmp_def bool_skip_def)
  ultimately show ?case by auto
next
  case (Cons c t)
  then obtain m where "n = Suc m" by (cases n) auto
  then show ?case using Cons by (auto split: sum.split)
qed

text \<open>A string in the segment, with its terminating zero.\<close>

definition text_at :: "(nat \<Rightarrow> char) \<Rightarrow> nat \<Rightarrow> string \<Rightarrow> bool" where
  "text_at fs cptr t \<longleftrightarrow> cptr + length t < 0x10000 \<and> (\<forall>i<length t. fs (cptr + i) = t ! i) \<and> fs (cptr + length t) = NUL"

lemma text_at_Nil: "text_at fs cptr [] \<Longrightarrow> cptr < 0x10000 \<and> fs cptr = NUL"
  by (simp add: text_at_def)

lemma text_at_Cons: "text_at fs cptr (c # t) \<Longrightarrow> cptr < 0x10000 \<and> fs cptr = c \<and> text_at fs (cptr + 1) t"
  unfolding text_at_def by force

lemma boot_bool_loop_run:
  assumes "text_at fs cptr t"
  shows "boot_bool_loop fs option cptr pos s = bool_run (boot_bool_step option) pos (t @ [NUL]) s"
  using assms
proof (induction t arbitrary: cptr pos s)
  case Nil
  have "\<exists>r. boot_bool_step option (pos + 1) NUL s = Inl r"
    by (cases s) (auto simp: boot_bool_step_def Let_def)
  then show ?case using text_at_Nil [OF Nil] by (subst boot_bool_loop.simps) auto
next
  case (Cons c t)
  then show ?case using text_at_Cons [OF Cons.prems]
    by (subst boot_bool_loop.simps) (auto split: sum.split)
qed

text \<open>A scanner that starts over at a blank that ends a word before the option ends.\<close>

definition restarts :: "(nat \<Rightarrow> char \<Rightarrow> bool_state \<Rightarrow> nat + bool_state) \<Rightarrow> bool" where
  "restarts step \<longleftrightarrow> (\<forall>pos c x ws r. myisspace c \<longrightarrow> c \<noteq> NUL \<longrightarrow> \<not> myisspace x \<longrightarrow>
     step pos c (st_wordcmp, ws, x # r) = Inr (st_wordstart, ws, r))"

text \<open>What both scanners do with one character, except at such a blank.\<close>

locale word_scanner =
  fixes step :: "string \<Rightarrow> nat \<Rightarrow> char \<Rightarrow> bool_state \<Rightarrow> nat + bool_state"
  assumes start_nul: "step opn pos NUL (st_wordstart, ws, r) = Inl 0"
    and start_space: "myisspace c \<Longrightarrow> c \<noteq> NUL \<Longrightarrow> step opn pos c (st_wordstart, ws, r) = Inr (st_wordstart, ws, r)"
    and start_char: "\<not> myisspace c \<Longrightarrow> step opn pos c (st_wordstart, ws, r) = step opn pos c (st_wordcmp, pos, opn)"
    and skip_nul: "step opn pos NUL (st_wordskip, ws, r) = Inl 0"
    and skip_space: "myisspace c \<Longrightarrow> c \<noteq> NUL \<Longrightarrow> step opn pos c (st_wordskip, ws, r) = Inr (st_wordstart, ws, r)"
    and skip_char: "\<not> myisspace c \<Longrightarrow> step opn pos c (st_wordskip, ws, r) = Inr (st_wordskip, ws, r)"
    and cmp_end: "myisspace c \<Longrightarrow> step opn pos c (st_wordcmp, ws, []) = Inl ws"
    and cmp_more: "\<not> myisspace c \<Longrightarrow> step opn pos c (st_wordcmp, ws, []) = Inr (st_wordskip, ws, [])"
    and cmp_nul: "x \<noteq> NUL \<Longrightarrow> step opn pos NUL (st_wordcmp, ws, x # r) = Inl 0"
    and cmp_match: "x \<noteq> NUL \<Longrightarrow> step opn pos x (st_wordcmp, ws, x # r) = Inr (st_wordcmp, ws, r)"
    and cmp_mismatch: "\<not> myisspace c \<Longrightarrow> x \<noteq> NUL \<Longrightarrow> c \<noteq> x \<Longrightarrow>
      step opn pos c (st_wordcmp, ws, x # r) = Inr (st_wordskip, ws, r)"
begin

lemma run_skip:
  assumes "\<forall>c\<in>set w. \<not> myisspace c"
  shows "bool_run (step opn) pos (w @ d # t) (st_wordskip, ws, r)
    = (case step opn (pos + length w + 1) d (st_wordskip, ws, r) of Inl v \<Rightarrow> v
       | Inr s \<Rightarrow> bool_run (step opn) (pos + length w + 1) t s)"
  using assms by (induction w arbitrary: pos) (auto simp: skip_char split: sum.split)

text \<open>The comparison of a word \<open>w\<close>, ended by \<open>d\<close>, with the rest \<open>r\<close> of the option.\<close>

lemma run_cmp:
  assumes "\<forall>c\<in>set w. \<not> myisspace c" and "\<forall>c\<in>set r. \<not> myisspace c" and "myisspace d"
    and early: "\<not> (\<exists>x y. r = w @ x # y) \<or> d = NUL \<or> restarts (step opn)"
    and R: "\<And>ws r. d \<noteq> NUL \<Longrightarrow> bool_run (step opn) (pos + length w + 1) t (st_wordstart, ws, r) = R"
  shows "bool_run (step opn) pos (w @ d # t) (st_wordcmp, ws, r)
    = (if w = r then ws else if d = NUL then 0 else R)"
  using assms
proof (induction w arbitrary: pos r)
  case Nil
  show ?case
  proof (cases r)
    case Nil
    then show ?thesis using \<open>myisspace d\<close> by (simp add: cmp_end)
  next
    case (Cons x y)
    then have "d = NUL \<or> restarts (step opn)" "\<not> myisspace x" "x \<noteq> NUL" using Nil.prems by auto
    then show ?thesis using Cons Nil.prems(3,5) by (cases "d = NUL") (auto simp: cmp_nul restarts_def)
  qed
next
  case (Cons c w)
  have skip: "bool_run (step opn) (pos + 1) (w @ d # t) (st_wordskip, ws, r') = (if d = NUL then 0 else R)" for r'
    using run_skip [of w opn "pos + 1" d t ws r'] Cons.prems by (simp add: skip_nul skip_space)
  show ?case
  proof (cases r)
    case Nil
    then show ?thesis using skip Cons.prems by (simp add: cmp_more)
  next
    case (Cons x y)
    note r = this
    have x: "x \<noteq> NUL" using Cons.prems r by auto
    show ?thesis
    proof (cases "c = x")
      case True
      then show ?thesis using Cons.IH [of y "pos + 1"] Cons.prems r x by (simp add: cmp_match)
    next
      case False
      then show ?thesis using skip Cons.prems r x by (simp add: cmp_mismatch)
    qed
  qed
qed

text \<open>A scanner that starts over, or a line none of whose words is a proper prefix of the option.\<close>

lemma run_words:
  assumes "NUL \<notin> set s" and opn: "\<forall>c\<in>set opn. \<not> myisspace c"
    and "restarts (step opn) \<or> (\<forall>(p, w)\<in>set (cmd_words pos s). \<not> (\<exists>x y. opn = w @ x # y))"
  shows "bool_run (step opn) pos (s @ [NUL]) (st_wordstart, ws, r) = first_word opn (cmd_words pos s)"
  using assms
proof (induction pos s arbitrary: ws r rule: cmd_words.induct)
  case (1 pos)
  then show ?case by (simp add: start_nul)
next
  case (2 pos c s)
  show ?case
  proof (cases "myisspace c")
    case True
    moreover have "c \<noteq> NUL" using 2(3) by auto
    ultimately show ?thesis using 2 by (simp add: start_space)
  next
    case False
    define w where "w = c # takeWhile (\<lambda>c. \<not> myisspace c) s"
    define s' where "s' = dropWhile (\<lambda>c. \<not> myisspace c) s"
    have cs: "c # s = w @ s'" by (simp add: w_def s'_def)
    have words: "cmd_words pos (c # s) = (pos, w) # cmd_words (pos + length w) s'"
      using False by (simp add: w_def s'_def Let_def)
    have nul: "NUL \<notin> set s'" using 2(3) by (auto simp: s'_def dest: set_dropWhileD)
    have IH: "bool_run (step opn) (pos + length w) (s' @ [NUL]) (st_wordstart, ws, r)
        = first_word opn (cmd_words (pos + length w) s')" for ws r
      using 2(2) [OF False w_def, of ws r] nul opn 2(5) words by (auto simp: s'_def)
    have wsp: "\<forall>c\<in>set w. \<not> myisspace c" using False by (auto simp: w_def dest: set_takeWhileD)
    have nopre: "\<not> (\<exists>x y. opn = w @ x # y) \<or> restarts (step opn)" using 2(5) words by auto
    obtain d t where dt: "s' @ [NUL] = d # t" "myisspace d" "d = NUL \<longleftrightarrow> s' = []"
    proof (cases s')
      case (Cons d t)
      then show thesis using that [of d "t @ [NUL]"] ends_dropWhile [of s] nul by (auto simp: ends_word_def s'_def)
    qed (use that in simp)
    have R: "bool_run (step opn) (pos + length w + 1) t (st_wordstart, ws, r)
        = first_word opn (cmd_words (pos + length w) s')" if "d \<noteq> NUL" for ws r
      using IH [of ws r] dt that by (simp add: start_space)
    have "bool_run (step opn) pos ((c # s) @ [NUL]) (st_wordstart, ws, r)
        = bool_run (step opn) pos (w @ d # t) (st_wordcmp, pos + 1, opn)"
    proof -
      have "(c # s) @ [NUL] = w @ d # t" using cs dt(1) by simp
      then show ?thesis using start_char [OF False] by (simp add: w_def)
    qed
    also have "\<dots> = (if w = opn then pos + 1 else if d = NUL then 0 else first_word opn (cmd_words (pos + length w) s'))"
      using nopre by (intro run_cmp wsp opn dt(2) R) auto
    also have "\<dots> = first_word opn (cmd_words pos (c # s))" using words dt(3) by auto
    finally show ?thesis by simp
  qed
qed

end

locale exact_scanner = word_scanner +
  assumes starts_over: "restarts (step opn)"
begin

lemma run_all_words:
  assumes "NUL \<notin> set s" and "\<forall>c\<in>set opn. \<not> myisspace c"
  shows "bool_run (step opn) pos (s @ [NUL]) (st_wordstart, ws, r) = first_word opn (cmd_words pos s)"
  using run_words [OF assms] starts_over by blast

end

interpretation lib: exact_scanner bool_step
  by unfold_locales (auto simp: bool_step_def bool_cmp_def bool_skip_def restarts_def)

interpretation boot: word_scanner boot_bool_step
  by unfold_locales (auto simp: boot_bool_step_def)

lemma find_option_bool_words:
  assumes "NUL \<notin> set s" and "\<forall>c\<in>set opn. \<not> myisspace c" and "length s < n"
  shows "find_option_bool (Some s) n opn = int (first_word opn (cmd_words 0 s))"
  using lib.run_all_words [OF assms(1,2)] bool_loop_run [OF assms(3,1)] by (simp add: find_option_bool_def)

lemma boot_find_option_bool_words:
  assumes "NUL \<notin> set s" and "\<forall>c\<in>set opn. \<not> myisspace c" and "text_at fs (ptr mod 16) s" and "ptr \<noteq> 0"
    and "\<forall>(p, w)\<in>set (cmd_words 0 s). \<not> (\<exists>x y. opn = w @ x # y)"
  shows "boot_find_option_bool ptr fs opn = int (first_word opn (cmd_words 0 s))"
  using boot.run_words [OF assms(1,2)] assms(5) boot_bool_loop_run [OF assms(3)] assms(4)
  by (simp add: boot_find_option_bool_def)

section \<open>Copying the value of an option\<close>

fun value_of :: "string \<Rightarrow> string \<Rightarrow> string option" where
  "value_of [] (c # w) = (if c = CHR ''='' then Some w else None)"
| "value_of (x # r) (c # w) = (if c = x then value_of r w else None)"
| "value_of r [] = None"

definition last_value :: "string \<Rightarrow> string list \<Rightarrow> string option \<Rightarrow> string option" where
  "last_value opn ws v = fold (\<lambda>w v. case value_of opn w of Some t \<Rightarrow> Some t | None \<Rightarrow> v) ws v"

lemma last_value_simps [simp]:
  "last_value opn [] v = v"
  "last_value opn (w # ws) v = last_value opn ws (case value_of opn w of Some t \<Rightarrow> Some t | None \<Rightarrow> v)"
  by (simp_all add: last_value_def)

text \<open>\<open>len\<close>, the buffer of \<open>n\<close> bytes and \<open>bufptr\<close> when the value copied last is \<open>v\<close>.\<close>

fun value_in :: "nat \<Rightarrow> string option \<Rightarrow> int \<times> string \<times> nat \<Rightarrow> bool" where
  "value_in n v (len, buf, p) \<longleftrightarrow> length buf = n \<and>
     (case v of None \<Rightarrow> len = -1 \<and> p = 0
      | Some t \<Rightarrow> len = int (length t) \<and> p = min (length t) (n - 1) \<and> take p buf = take p t)"

lemma opt_loop_fold:
  "length s \<le> n \<Longrightarrow> NUL \<notin> set s \<Longrightarrow> opt_loop opn bs n s st = fold (opt_step opn bs) s st"
proof (induction s arbitrary: n st)
  case Nil
  then show ?case by (cases n) auto
next
  case (Cons c s)
  then obtain m where "n = Suc m" by (cases n) auto
  moreover have "c \<noteq> NUL" using Cons.prems by auto
  ultimately show ?case using Cons by simp
qed

lemma boot_opt_loop_fold:
  "text_at fs cptr s \<Longrightarrow> NUL \<notin> set s \<Longrightarrow> boot_opt_loop fs opn bs cptr st = fold (boot_opt_step opn bs) s st"
proof (induction s arbitrary: cptr st)
  case Nil
  then show ?case using text_at_Nil [OF Nil(1)] by (subst boot_opt_loop.simps) simp
next
  case (Cons c s)
  have "c \<noteq> NUL" using Cons.prems by auto
  then show ?case using Cons text_at_Cons [OF Cons.prems(1)] by (subst boot_opt_loop.simps) simp
qed

locale value_scanner =
  fixes step :: "string \<Rightarrow> int \<Rightarrow> char \<Rightarrow> opt_state \<Rightarrow> opt_state"
  assumes start_space: "myisspace c \<Longrightarrow> step opn bs c (st_wordstart, r, d) = (st_wordstart, r, d)"
    and start_char: "\<not> myisspace c \<Longrightarrow> step opn bs c (st_wordstart, r, d) = step opn bs c (st_wordcmp, opn, d)"
    and cmp_value: "step opn bs (CHR ''='') (st_wordcmp, [], len, buf, p) = (st_bufcpy, [], 0, buf, 0)"
    and cmp_more: "\<not> myisspace c \<Longrightarrow> c \<noteq> CHR ''='' \<Longrightarrow> step opn bs c (st_wordcmp, [], d) = (st_wordskip, [], d)"
    and cmp_match: "\<not> myisspace x \<Longrightarrow> step opn bs x (st_wordcmp, x # r, d) = (st_wordcmp, r, d)"
    and cmp_mismatch: "\<not> myisspace c \<Longrightarrow> \<not> myisspace x \<Longrightarrow> c \<noteq> x \<Longrightarrow>
      step opn bs c (st_wordcmp, x # r, d) = (st_wordskip, r, d)"
    and skip_char: "\<not> myisspace c \<Longrightarrow> step opn bs c (st_wordskip, r, d) = (st_wordskip, r, d)"
    and copy_char: "\<not> myisspace c \<Longrightarrow> step opn bs c (st_bufcpy, r, len, buf, p) =
      (if len + 1 < bs then (st_bufcpy, r, len + 1, buf[p := c], p + 1) else (st_bufcpy, r, len + 1, buf, p))"
    and leave: "myisspace c \<Longrightarrow> c \<noteq> NUL \<Longrightarrow> st \<noteq> st_wordstart \<Longrightarrow> \<forall>x\<in>set r. \<not> myisspace x \<Longrightarrow>
      \<exists>r'. step opn bs c (st, r, d) = (st_wordstart, r', d)"
begin

lemma run_skip: "\<forall>c\<in>set w. \<not> myisspace c \<Longrightarrow> fold (step opn bs) w (st_wordskip, r, d) = (st_wordskip, r, d)"
  by (induction w) (simp_all add: skip_char)

lemma copy_one:
  assumes "\<not> myisspace c" and "value_in n (Some t) d"
  shows "\<exists>d'. step opn (int n) c (st_bufcpy, r, d) = (st_bufcpy, r, d') \<and> value_in n (Some (t @ [c])) d'"
proof -
  obtain buf where d: "d = (int (length t), buf, min (length t) (n - 1))" and b: "length buf = n"
    and tk: "take (min (length t) (n - 1)) buf = take (min (length t) (n - 1)) t"
    using assms(2) by (cases d) auto
  show ?thesis
  proof (cases "length t + 1 < n")
    case True
    then have "take (length t) buf = t" using tk by (simp add: min_absorb1)
    then have "take (Suc (length t)) (buf[length t := c]) = t @ [c]"
      using True b by (simp add: take_Suc_conv_app_nth)
    then show ?thesis using True b assms(1) by (simp add: d copy_char min_absorb1)
  next
    case False
    then have "min (length t + 1) (n - 1) = min (length t) (n - 1)" by auto
    moreover have "take (min (length t) (n - 1)) (t @ [c]) = take (min (length t) (n - 1)) t" by simp
    ultimately show ?thesis using False b tk assms(1) by (simp add: d copy_char)
  qed
qed

lemma run_copy:
  assumes "\<forall>c\<in>set w. \<not> myisspace c" and "value_in n (Some t) d"
  shows "\<exists>d'. fold (step opn (int n)) w (st_bufcpy, r, d) = (st_bufcpy, r, d') \<and> value_in n (Some (t @ w)) d'"
  using assms
proof (induction w arbitrary: t d)
  case (Cons c w)
  obtain d1 where "step opn (int n) c (st_bufcpy, r, d) = (st_bufcpy, r, d1)" and "value_in n (Some (t @ [c])) d1"
    using copy_one [of c n t d opn r] Cons.prems by auto
  then show ?case using Cons.IH [of "t @ [c]" d1] Cons.prems by simp
qed auto

lemma run_cmp:
  assumes "\<forall>c\<in>set w. \<not> myisspace c" and "\<forall>c\<in>set r. \<not> myisspace c" and "value_in n v d"
  shows "\<exists>st r' d'. fold (step opn (int n)) w (st_wordcmp, r, d) = (st, r', d') \<and> st \<noteq> st_wordstart
    \<and> (\<forall>c\<in>set r'. \<not> myisspace c) \<and> value_in n (case value_of r w of Some t \<Rightarrow> Some t | None \<Rightarrow> v) d'"
  using assms
proof (induction r w rule: value_of.induct)
  case (1 c w)
  show ?case
  proof (cases "c = CHR ''=''")
    case True
    obtain len buf p where d: "d = (len, buf, p)" by (cases d)
    have "value_in n (Some []) (0, buf, 0)" using 1(3) by (auto simp: d split: option.splits)
    from run_copy [OF _ this, of w opn "[]"] show ?thesis using True 1 by (auto simp: d cmp_value)
  next
    case False
    then show ?thesis using 1 run_skip [of w] by (simp add: cmp_more)
  qed
next
  case (2 x r c w)
  show ?case
  proof (cases "c = x")
    case True
    then show ?thesis using 2 by (simp add: cmp_match)
  next
    case False
    then show ?thesis using 2 run_skip [of w] by (simp add: cmp_mismatch)
  qed
qed auto

lemma run_values:
  assumes "NUL \<notin> set s" and "\<forall>c\<in>set opn. \<not> myisspace c" and "value_in n v d"
  shows "\<exists>st r' d'. fold (step opn (int n)) s (st_wordstart, r, d) = (st, r', d')
    \<and> value_in n (last_value opn (map snd (cmd_words pos s)) v) d'"
  using assms
proof (induction pos s arbitrary: v d r rule: cmd_words.induct)
  case (2 pos c s)
  show ?case
  proof (cases "myisspace c")
    case True
    then show ?thesis using 2 by (simp add: start_space)
  next
    case False
    define w where "w = c # takeWhile (\<lambda>c. \<not> myisspace c) s"
    define s' where "s' = dropWhile (\<lambda>c. \<not> myisspace c) s"
    have cs: "c # s = w @ s'" by (simp add: w_def s'_def)
    have words: "cmd_words pos (c # s) = (pos, w) # cmd_words (pos + length w) s'"
      using False by (simp add: w_def s'_def Let_def)
    have nul: "NUL \<notin> set s'" using 2(3) by (auto simp: s'_def dest: set_dropWhileD)
    have wsp: "\<forall>c\<in>set w. \<not> myisspace c" using False by (auto simp: w_def dest: set_takeWhileD)
    define v1 where "v1 = (case value_of opn w of Some t \<Rightarrow> Some t | None \<Rightarrow> v)"
    obtain st r1 d1 where f: "fold (step opn (int n)) w (st_wordcmp, opn, d) = (st, r1, d1)" and st: "st \<noteq> st_wordstart"
      and r1: "\<forall>c\<in>set r1. \<not> myisspace c" and d1: "value_in n v1 d1"
      using run_cmp [OF wsp 2(4,5)] unfolding v1_def by blast
    have start: "fold (step opn (int n)) (c # s) (st_wordstart, r, d) = fold (step opn (int n)) s' (st, r1, d1)"
    proof -
      have "fold (step opn (int n)) w (st_wordstart, r, d) = (st, r1, d1)"
        using f start_char [OF False] by (simp add: w_def)
      then show ?thesis unfolding cs by simp
    qed
    have IH: "\<exists>st r' d'. fold (step opn (int n)) s' (st_wordstart, r, d1) = (st, r', d')
        \<and> value_in n (last_value opn (map snd (cmd_words (pos + length w) s')) v1) d'" for r
      using 2(2) [OF False w_def _ 2(4) d1, of r] nul by (simp add: s'_def)
    have lv: "last_value opn (map snd (cmd_words pos (c # s))) v = last_value opn (map snd (cmd_words (pos + length w) s')) v1"
      by (simp only: words list.map snd_conv last_value_simps v1_def)
    show ?thesis
    proof (cases s')
      case Nil
      then show ?thesis using start d1 lv by simp
    next
      case (Cons e t)
      have e: "myisspace e" "e \<noteq> NUL" using ends_dropWhile [of s, folded s'_def] nul Cons by (auto simp: ends_word_def)
      obtain r2 where "step opn (int n) e (st, r1, d1) = (st_wordstart, r2, d1)" using leave [OF e st r1] by blast
      then have "fold (step opn (int n)) s' (st, r1, d1) = fold (step opn (int n)) s' (st_wordstart, r2, d1)"
        using Cons start_space [OF e(1)] by simp
      then show ?thesis using start IH [of r2] lv by simp
    qed
  qed
qed auto

end

lemma space_not_head:
  assumes "myisspace c" and "c \<noteq> NUL" and "\<forall>x\<in>set r. \<not> myisspace x"
  shows "c \<noteq> char_at r 0" and "c \<noteq> CHR ''=''"
  using assms by (cases r; auto)+

interpretation lib_value: value_scanner opt_step
proof unfold_locales
  fix c st r opn bs d
  assume "myisspace c" and "c \<noteq> NUL" and "st \<noteq> st_wordstart" and "\<forall>x\<in>set r. \<not> myisspace x"
  then show "\<exists>r'. opt_step opn bs c (st, r, d) = (st_wordstart, r', d)"
    using space_not_head [of c r] by (cases d; cases st) (auto simp: opt_step_def opt_cmp_def opt_skip_def)
qed (auto simp: opt_step_def opt_cmp_def opt_skip_def)

interpretation boot_value: value_scanner boot_opt_step
proof unfold_locales
  fix c st r opn bs d
  assume "myisspace c" and "c \<noteq> NUL" and "st \<noteq> st_wordstart" and "\<forall>x\<in>set r. \<not> myisspace x"
  then show "\<exists>r'. boot_opt_step opn bs c (st, r, d) = (st_wordstart, r', d)"
    using space_not_head [of c r] by (cases d; cases st) (auto simp: boot_opt_step_def Let_def)
qed (auto simp: boot_opt_step_def Let_def)

lemma value_in_finish:
  assumes "value_in n v d" and "opt_finish (int n) (st, r, d) = (len, b)"
  shows "len = (case v of None \<Rightarrow> -1 | Some t \<Rightarrow> int (length t))" and "length b = n"
    and "holds_text b (case v of None \<Rightarrow> [] | Some t \<Rightarrow> t)"
proof -
  obtain l buf p where d: "d = (l, buf, p)" by (cases d)
  have b: "b = (if n \<noteq> 0 then buf[p := NUL] else buf)" "len = l" using assms(2) by (auto simp: d opt_finish_def)
  show "len = (case v of None \<Rightarrow> -1 | Some t \<Rightarrow> int (length t))" "length b = n"
    using assms(1) b by (auto simp: d split: option.splits)
  define t where "t = (case v of None \<Rightarrow> [] | Some t \<Rightarrow> t)"
  have p: "p = min (length t) (n - 1)" "take p buf = take p t" "length buf = n"
    using assms(1) by (auto simp: d t_def split: option.splits)
  show "holds_text b (case v of None \<Rightarrow> [] | Some t \<Rightarrow> t)"
    unfolding t_def [symmetric] holds_text_def
  proof
    assume "0 < length b"
    then have n: "0 < n" using b p by (auto split: if_splits)
    have "take p b = take p t" using n b p by simp
    moreover have "take (length t) (take (length b - 1) b) = take p b" using n b p by (simp add: min.commute)
    moreover have "take (length b - 1) t = take p t" using n b p by (simp add: min_def)
    moreover have "b ! min (length t) (length b - 1) = NUL" using n b p by auto
    ultimately show "take (length t) (take (length b - 1) b) = take (length b - 1) t
        \<and> b ! min (length t) (length b - 1) = NUL" by simp
  qed
qed

section \<open>What the scanners find\<close>

text \<open>
  \<^bold>\<open>C28\<close>. The kernel's \<open>cmdline_find_option_bool\<close> returns the position of the first word of the
  command line that equals the option, counted from 1, and 0 when there is none; the copy in the boot
  code does the same on lines where no word is a proper prefix of the option.
\<close>

theorem find_option_bool_correct:
  assumes "NUL \<notin> set line" and "\<forall>c\<in>set opn. \<not> myisspace c" and "length line < COMMAND_LINE_SIZE"
  shows "cmdline_find_option_bool (Some line) opn = int (first_word opn (cmd_words 0 line))
    \<and> (ptr \<noteq> 0 \<and> text_at fs (ptr mod 16) line \<and> (\<forall>(p, w)\<in>set (cmd_words 0 line). \<not> (\<exists>x y. opn = w @ x # y))
       \<longrightarrow> boot_find_option_bool ptr fs opn = int (first_word opn (cmd_words 0 line)))"
  using find_option_bool_words [OF assms] boot_find_option_bool_words [OF assms(1,2)]
  by (auto simp: cmdline_find_option_bool_def)

theorem find_option_bool_correct_witness:
  "cmdline_find_option_bool (Some ''ro fo foo'') ''foo'' = 7
    \<and> boot_find_option_bool 1 (\<lambda>i. char_at '' ro foo'' i) ''foo'' = 4"
proof
  show "cmdline_find_option_bool (Some ''ro fo foo'') ''foo'' = 7"
    using find_option_bool_correct [of "''ro fo foo''" "''foo''" 0 "\<lambda>_. NUL"]
    by (simp add: myisspace_def COMMAND_LINE_SIZE_def)
  have t: "text_at (\<lambda>i. char_at '' ro foo'' i) (1 mod 16) ''ro foo''"
    by (auto simp: text_at_def char_at_def)
  show "boot_find_option_bool 1 (\<lambda>i. char_at '' ro foo'' i) ''foo'' = 4"
    using find_option_bool_correct [of "''ro foo''" "''foo''" 1 "\<lambda>i. char_at '' ro foo'' i"] t
    by (simp add: myisspace_def COMMAND_LINE_SIZE_def Cons_eq_append_conv)
qed


text \<open>
  \<^bold>\<open>C29\<close>. The value scanners of the kernel and of the boot code return the length of the value in the
  last word of the form option=value, or -1, and leave in the buffer as much of that value as fits,
  terminated by a zero.
\<close>

theorem find_option_correct:
  assumes "NUL \<notin> set line" and "\<forall>c\<in>set opn. \<not> myisspace c" and "length line < COMMAND_LINE_SIZE"
    and "ptr \<noteq> 0" and "text_at fs (ptr mod 16) line"
    and "r = cmdline_find_option (Some line) opn buffer (int (length buffer))
       \<or> r = boot_find_option ptr fs opn buffer (int (length buffer))"
  defines "v \<equiv> last_value opn (map snd (cmd_words 0 line)) None"
  shows "fst r = (case v of None \<Rightarrow> -1 | Some t \<Rightarrow> int (length t))
    \<and> length (snd r) = length buffer \<and> holds_text (snd r) (case v of None \<Rightarrow> [] | Some t \<Rightarrow> t)"
proof -
  let ?n = "length buffer"
  have i: "value_in ?n None (-1, buffer, 0)" by simp
  obtain st r' d where "value_in ?n v d" and "r = opt_finish (int ?n) (st, r', d)"
  proof -
    obtain st r' d where "fold (opt_step opn (int ?n)) line (st_wordstart, [], -1, buffer, 0) = (st, r', d)" "value_in ?n v d"
      using lib_value.run_values [OF assms(1,2) i, of "[]" 0] unfolding v_def by blast
    moreover obtain st2 r2 d2 where
      "fold (boot_opt_step opn (int ?n)) line (st_wordstart, [], -1, buffer, 0) = (st2, r2, d2)" "value_in ?n v d2"
      using boot_value.run_values [OF assms(1,2) i, of "[]" 0] unfolding v_def by blast
    moreover have "opt_loop opn (int ?n) COMMAND_LINE_SIZE line (st_wordstart, [], -1, buffer, 0)
        = fold (opt_step opn (int ?n)) line (st_wordstart, [], -1, buffer, 0)"
      using assms(1,3) by (intro opt_loop_fold) simp_all
    moreover note boot_opt_loop_fold [OF assms(5,1), of opn "int ?n" "(st_wordstart, [], -1, buffer, 0)"]
    ultimately have "r = opt_finish (int ?n) (st, r', d) \<or> r = opt_finish (int ?n) (st2, r2, d2)"
      using assms(4,6) by (simp add: cmdline_find_option_def find_option_def boot_find_option_def)
    then show thesis using that \<open>value_in ?n v d\<close> \<open>value_in ?n v d2\<close> by blast
  qed
  moreover obtain len b where "opt_finish (int ?n) (st, r', d) = (len, b)" by fastforce
  ultimately show ?thesis using value_in_finish [of ?n v d st r' len b] by simp
qed

theorem find_option_correct_witness:
  "fst (cmdline_find_option (Some ''a=1 foo=bar'') ''foo'' ''....'' 4) = 3
    \<and> cstr (snd (cmdline_find_option (Some ''a=1 foo=bar'') ''foo'' ''....'' 4)) = ''bar''"
proof -
  define r where "r = cmdline_find_option (Some ''a=1 foo=bar'') ''foo'' ''....'' (int (length ''....''))"
  have t: "text_at (\<lambda>i. char_at ''a=1 foo=bar'' i) (16 mod 16) ''a=1 foo=bar''"
    by (auto simp: text_at_def char_at_def)
  have "last_value ''foo'' (map snd (cmd_words 0 ''a=1 foo=bar'')) None = Some ''bar''"
    by (simp add: myisspace_def)
  then have "fst r = 3 \<and> length (snd r) = 4 \<and> holds_text (snd r) ''bar''"
    using find_option_correct [OF _ _ _ _ t disjI1 [OF r_def], of] by (simp add: myisspace_def COMMAND_LINE_SIZE_def)
  then show ?thesis using cstr_holds_text [of "snd r" "''bar''"] by (simp add: r_def)
qed

end
