(* ===== verification/Kparams.thy ===== *)
theory Kparams
  imports Kcmdline
begin

unbundle bit_operations_syntax

text \<open>
  Parsing the boot parameters: \<open>next_arg\<close> of \<open>lib/cmdline.c\<close>, which cuts one argument out of the line
  by storing zeros into it, \<open>skip_spaces\<close>, and the loop of \<open>kernel/params.c\<close> that hands the arguments
  to the handlers of a parameter table. A line is a buffer of bytes, pointers are indices into it.
\<close>

section \<open>Cutting out one argument\<close>

lemma isspace_NUL [simp]: "\<not> isspace NUL"
  by (simp add: isspace_def ismask_def ctype_def)

lemma isspace_quote [simp]: "\<not> isspace (CHR 0x22)"
  by (simp add: isspace_def ismask_def ctype_def)

lemma char_at_inside: "char_at b p \<noteq> NUL \<Longrightarrow> p < length b"
  by (auto simp: char_at_def split: if_splits)

lemma char_at_space: "isspace (char_at b p) \<Longrightarrow> p < length b"
  by (rule char_at_inside) auto

function skip_spaces :: "string \<Rightarrow> nat \<Rightarrow> nat" where
  "skip_spaces b p = (if isspace (char_at b p) then skip_spaces b (p + 1) else p)"
  by pat_completeness auto
termination by (relation "measure (\<lambda>(b, p). length b - p)") (auto dest!: char_at_space)

declare skip_spaces.simps [simp del]

text \<open>The loop over the characters of the argument returns \<open>i\<close> and \<open>equals\<close>.\<close>

function arg_scan :: "string \<Rightarrow> nat \<Rightarrow> nat \<Rightarrow> nat \<Rightarrow> bool \<Rightarrow> nat \<times> nat" where
  "arg_scan b args i equals in_quote =
     (let c = char_at b (args + i) in
      if c = NUL then (i, equals)
      else if isspace c \<and> \<not> in_quote then (i, equals)
      else
        arg_scan b args (i + 1)
          (if equals = 0 then if c = CHR ''='' then i else equals else equals)
          (if c = CHR 0x22 then \<not> in_quote else in_quote))"
  by pat_completeness auto
termination
  by (relation "measure (\<lambda>(b, args, i, equals, in_quote). length b - (args + i))") (auto dest!: char_at_inside)

declare arg_scan.simps [simp del]

definition next_arg :: "string \<Rightarrow> nat \<Rightarrow> string \<times> nat \<times> nat option \<times> nat" where
  "next_arg b args =
     (let quoted = (char_at b args = CHR 0x22);
          args = (if quoted then args + 1 else args);
          (i, equals) = arg_scan b args 0 0 quoted;
          param = args;
          (b, val) =
            (if equals = 0 then (b, None)
             else
               let b = b[args + equals := NUL];
                   val = args + equals + 1
               in if char_at b val = CHR 0x22
                  then (if char_at b (args + i - 1) = CHR 0x22 then b[args + i - 1 := NUL] else b, Some (val + 1))
                  else (b, Some val));
          b = (if quoted \<and> char_at b (args + i - 1) = CHR 0x22 then b[args + i - 1 := NUL] else b);
          (b, args) = (if char_at b (args + i) \<noteq> NUL then (b[args + i := NUL], args + i + 1) else (b, args + i))
      in (b, param, val, skip_spaces b args))"

section \<open>What an argument means\<close>

text \<open>The characters of an argument, up to a blank outside of quotes.\<close>

fun arg_token :: "bool \<Rightarrow> string \<Rightarrow> string" where
  "arg_token q [] = []"
| "arg_token q (c # s) = (if isspace c \<and> \<not> q then [] else c # arg_token (if c = CHR 0x22 then \<not> q else q) s)"

text \<open>An argument is split at the first equals sign behind its first character.\<close>

definition arg_split :: "string \<Rightarrow> (string \<times> string) option" where
  "arg_split t = (if CHR ''='' \<in> set (tl t)
     then Some (hd t # takeWhile (\<lambda>c. c \<noteq> CHR ''='') (tl t), tl (dropWhile (\<lambda>c. c \<noteq> CHR ''='') (tl t))) else None)"

definition unquote :: "bool \<Rightarrow> string \<Rightarrow> string" where
  "unquote q s = (if q \<and> s \<noteq> [] \<and> last s = CHR 0x22 then butlast s else s)"

definition arg_meaning :: "bool \<Rightarrow> string \<Rightarrow> string \<times> string option" where
  "arg_meaning q t =
     (case arg_split t of
        None \<Rightarrow> (unquote q t, None)
      | Some (k, v) \<Rightarrow> (k, Some (if v \<noteq> [] \<and> hd v = CHR 0x22 then unquote True (tl v) else unquote q v)))"

text \<open>The first argument of a line, and the line behind it.\<close>

definition opens_quote :: "string \<Rightarrow> bool" where
  "opens_quote s \<longleftrightarrow> s \<noteq> [] \<and> hd s = CHR 0x22"

definition arg_text :: "string \<Rightarrow> string" where
  "arg_text s = (if opens_quote s then tl s else s)"

definition first_arg :: "string \<Rightarrow> string \<times> string option" where
  "first_arg s = arg_meaning (opens_quote s) (arg_token (opens_quote s) (arg_text s))"

definition after_arg :: "string \<Rightarrow> string" where
  "after_arg s = dropWhile isspace (tl (drop (length (arg_token (opens_quote s) (arg_text s))) (arg_text s)))"

subsection \<open>The scan\<close>

lemma char_at_append [simp]: "char_at (p @ s) (length p + i) = char_at s i"
  by (simp add: char_at_def nth_append)

lemma char_at_append0 [simp]: "char_at (p @ s) (length p) = char_at s 0"
  using char_at_append [of p s 0] by simp

fun eq_pos :: "nat \<Rightarrow> string \<Rightarrow> nat" where
  "eq_pos i [] = 0"
| "eq_pos i (c # t) = (if c = CHR ''='' \<and> i \<noteq> 0 then i else eq_pos (i + 1) t)"

lemma arg_scan_token:
  assumes "length p = args + i" and "NUL \<notin> set s"
  shows "arg_scan (p @ s @ [NUL]) args i e q
    = (i + length (arg_token q s), if e \<noteq> 0 then e else eq_pos i (arg_token q s))"
  using assms
proof (induction s arbitrary: p i e q)
  case Nil
  have "char_at (p @ [NUL]) (args + i) = NUL" using char_at_append0 [of p "[NUL]"] Nil by simp
  then show ?case by (subst arg_scan.simps) simp
next
  case (Cons c s)
  have c: "char_at (p @ (c # s) @ [NUL]) (args + i) = c"
    using char_at_append0 [of p "(c # s) @ [NUL]"] Cons.prems by simp
  have IH: "arg_scan ((p @ [c]) @ s @ [NUL]) args (i + 1) e q
      = (i + 1 + length (arg_token q s), if e \<noteq> 0 then e else eq_pos (i + 1) (arg_token q s))" for e q
    using Cons.prems by (intro Cons.IH) auto
  have "c \<noteq> NUL" using Cons.prems by auto
  then show ?case using c IH by (subst arg_scan.simps) (auto simp: Let_def)
qed

lemma eq_pos_later: "0 < i \<Longrightarrow> eq_pos i t = (if CHR ''='' \<in> set t then i + length (takeWhile (\<lambda>c. c \<noteq> CHR ''='') t) else 0)"
  by (induction t arbitrary: i) auto

lemma arg_split_None: "arg_split t = None \<Longrightarrow> eq_pos 0 t = 0"
  by (cases t) (auto simp: arg_split_def eq_pos_later split: if_splits)

lemma arg_split_Some:
  assumes "arg_split t = Some (k, v)"
  shows "eq_pos 0 t = length k" and "k \<noteq> []" and "t = k @ CHR ''='' # v"
proof -
  obtain c u where t: "t = c # u" "CHR ''='' \<in> set u" using assms by (cases t) (auto simp: arg_split_def split: if_splits)
  let ?P = "\<lambda>c. c \<noteq> CHR ''=''"
  have kv: "k = c # takeWhile ?P u" "v = tl (dropWhile ?P u)" using assms t by (auto simp: arg_split_def)
  have ne: "dropWhile ?P u \<noteq> []" using t(2) by (auto simp: dropWhile_eq_Nil_conv)
  then have "hd (dropWhile ?P u) = CHR ''=''" using hd_dropWhile [OF ne] by simp
  with ne have "dropWhile ?P u = CHR ''='' # v" using kv by (cases "dropWhile ?P u") auto
  then show "t = k @ CHR ''='' # v" using t kv takeWhile_dropWhile_id [of ?P u] by simp
  show "eq_pos 0 t = length k" "k \<noteq> []" using t kv by (auto simp: eq_pos_later)
qed

lemma token_prefix: "\<exists>u. s = arg_token q s @ u \<and> (u = [] \<or> isspace (hd u))"
proof (induction q s rule: arg_token.induct)
  case (2 q c s)
  then show ?case by (cases "isspace c \<and> \<not> q") auto
qed simp

lemma skip_spaces_dropWhile:
  "skip_spaces (p @ s @ [NUL]) (length p) = length p + (length s - length (dropWhile isspace s))"
proof (induction s arbitrary: p)
  case Nil
  show ?case by (subst skip_spaces.simps) simp
next
  case (Cons c s)
  have le: "length (dropWhile isspace s) \<le> length s" by (rule length_dropWhile_le)
  show ?case using Cons [of "p @ [c]"] le by (subst skip_spaces.simps) (simp add: Suc_diff_le)
qed


subsection \<open>The stores\<close>

lemma cstr_NUL [simp]: "NUL \<notin> set k \<Longrightarrow> cstr (k @ NUL # r) = k"
  unfolding cstr_def by (subst takeWhile_append2) auto

lemma cstr_NUL0 [simp]: "cstr (NUL # r) = []"
  by (simp add: cstr_def)

text \<open>The last character of an argument, and the store that removes it.\<close>

lemma last_char: "t \<noteq> [] \<Longrightarrow> char_at (p @ t @ r) (length p + length t - 1) = last t"
  by (cases t rule: rev_cases) (simp_all add: char_at_def nth_append)

lemma cut_last: "t \<noteq> [] \<Longrightarrow> (p @ t @ r)[length p + length t - 1 := c] = p @ butlast t @ c # r"
  by (cases t rule: rev_cases) (simp_all add: list_update_append)

text \<open>The characters behind the argument, once the blank has become a zero.\<close>

definition close_arg :: "string \<Rightarrow> string" where
  "close_arg u = (if u = [] then [] else NUL # tl u)"

lemma last_step:
  assumes "u = [] \<or> isspace (hd u)" and "length x = n"
  shows "(if char_at (x @ u @ [NUL]) n \<noteq> NUL then ((x @ u @ [NUL])[n := NUL], n + 1) else (x @ u @ [NUL], n))
    = (x @ close_arg u @ [NUL], n + (length u - length (tl u)))"
proof (cases u)
  case (Cons c w)
  then have "c \<noteq> NUL" using assms by auto
  then show ?thesis using Cons assms(2) by (auto simp: close_arg_def)
qed (use assms in \<open>auto simp: close_arg_def\<close>)

lemma skip_behind:
  assumes "length x = n"
  shows "skip_spaces (x @ close_arg u @ [NUL]) (n + (length u - length (tl u)))
    = length x + length u - length (dropWhile isspace (tl u))"
proof (cases u)
  case Nil
  then show ?thesis using skip_spaces_dropWhile [of x "[]"] assms by (simp add: close_arg_def)
next
  case (Cons c w)
  have "length (dropWhile isspace w) \<le> length w" by (rule length_dropWhile_le)
  then show ?thesis using skip_spaces_dropWhile [of "x @ [NUL]" w] Cons assms by (simp add: close_arg_def)
qed

text \<open>A closing quote is overwritten; a value loses it also when it starts with a quote itself.\<close>

definition drop_quote :: "bool \<Rightarrow> string \<Rightarrow> string" where
  "drop_quote q v = (if q \<and> v \<noteq> [] \<and> last v = CHR 0x22 then butlast v @ [NUL] else v)"

lemma length_drop_quote [simp]: "length (drop_quote q v) = length v"
  by (cases v rule: rev_cases) (auto simp: drop_quote_def)

lemma drop_quote_Cons: "drop_quote q (c # v) = (if v = [] then if q \<and> c = CHR 0x22 then [NUL] else [c] else c # drop_quote q v)"
  by (simp add: drop_quote_def)

lemma drop_quote_text:
  assumes "NUL \<notin> set v"
  shows "cstr (drop_quote q v @ NUL # r) = unquote q v"
proof -
  have "NUL \<notin> set (butlast v)" using assms by (auto dest: in_set_butlastD)
  then show ?thesis using assms by (simp add: drop_quote_def unquote_def)
qed

lemma store_param:
  assumes "length x = n" and "q \<Longrightarrow> \<exists>y. x = y @ [CHR 0x22]"
  shows "(if q \<and> char_at (x @ t @ r) (n + length t - 1) = CHR 0x22
          then (x @ t @ r)[n + length t - 1 := NUL] else x @ t @ r)
    = (if q \<and> t = [] then butlast x @ [NUL] else x) @ drop_quote q t @ r"
proof (cases "t = []")
  case True
  show ?thesis
  proof (cases q)
    case True
    with assms obtain y where "x = y @ [CHR 0x22]" by auto
    then show ?thesis using assms(1) \<open>t = []\<close> by (auto simp: drop_quote_def char_at_def nth_append)
  qed (use \<open>t = []\<close> in \<open>simp add: drop_quote_def\<close>)
next
  case False
  then show ?thesis using last_char [OF False, of x r] cut_last [OF False, of x r NUL] assms(1) by (auto simp: drop_quote_def)
qed

lemma store_value:
  fixes x k v r :: string
  assumes "length x = n" and "NUL \<notin> set v" and "\<exists>c r'. r = c # r' \<and> c \<noteq> CHR 0x22"
  defines "b \<equiv> x @ k @ NUL # v @ r" and "l \<equiv> n + (length k + 1 + length v) - 1"
  shows "(let (b, val) = (if char_at b (n + length k + 1) = CHR 0x22
            then (if char_at b l = CHR 0x22 then b[l := NUL] else b, Some (n + length k + 1 + 1))
            else (b, Some (n + length k + 1)))
          in (if q \<and> char_at b l = CHR 0x22 then b[l := NUL] else b, val))
    = (x @ k @ NUL # drop_quote (q \<or> opens_quote v) v @ r,
       Some (n + length k + 1 + (if opens_quote v then 1 else 0)))"
proof -
  let ?x = "x @ k @ [NUL]"
  have b: "b = ?x @ v @ r" by (simp add: b_def)
  have hd: "char_at b (n + length k + 1) = CHR 0x22 \<longleftrightarrow> opens_quote v"
  proof -
    have "char_at b (n + length k + 1) = char_at (v @ r) 0" using char_at_append0 [of ?x "v @ r"] b assms(1) by simp
    then show ?thesis using assms(3) by (cases v) (auto simp: opens_quote_def)
  qed
  show ?thesis
  proof (cases "v = []")
    case True
    have "char_at b l = NUL" using assms(1) True by (auto simp: b_def l_def char_at_def nth_append)
    then show ?thesis using hd True by (auto simp: opens_quote_def drop_quote_def b_def)
  next
    case False
    have l: "l = length ?x + length v - 1" using assms(1) by (simp add: l_def)
    have lc: "char_at b l = last v" using last_char [OF False, of ?x r] b l by simp
    have cut: "b[l := NUL] = ?x @ butlast v @ NUL # r" using cut_last [OF False, of ?x r NUL] b l by simp
    have "char_at (?x @ butlast v @ NUL # r) l = NUL"
      using False l by (cases v rule: rev_cases) (auto simp: char_at_def nth_append)
    then show ?thesis using hd lc cut False b by (auto simp: drop_quote_def)
  qed
qed

text \<open>\<open>next_arg\<close> on a buffer that holds the text \<open>s\<close> at its position.\<close>

lemma next_arg_shape:
  assumes s: "NUL \<notin> set s" "s = t @ u" "t = arg_token q s" and u: "u = [] \<or> isspace (hd u)"
    and x: "length x = n" "q \<Longrightarrow> \<exists>y. x = y @ [CHR 0x22]"
    and b: "b = x @ s @ [NUL]" "q \<longleftrightarrow> char_at b a = CHR 0x22" "n = (if q then a + 1 else a)"
  shows "next_arg b a = (case arg_split t of
      None \<Rightarrow> ((if q \<and> t = [] then butlast x @ [NUL] else x) @ drop_quote q t @ close_arg u @ [NUL], n, None,
        length x + length s - length (dropWhile isspace (tl u)))
    | Some (k, v) \<Rightarrow> (x @ k @ NUL # drop_quote (q \<or> opens_quote v) v @ close_arg u @ [NUL], n,
        Some (n + length k + 1 + (if opens_quote v then 1 else 0)), length x + length s - length (dropWhile isspace (tl u))))"
proof -
  have scan: "arg_scan b n 0 0 q = (length t, eq_pos 0 t)" 
    using arg_scan_token [of x n 0 s 0 q] s(1) x(1) by (simp add: b(1) s(3) [symmetric])
  have step: "next_arg b a = (let (b, val) =
            (if eq_pos 0 t = 0 then (b, None)
             else
               let b = b[n + eq_pos 0 t := NUL]
               in if char_at b (n + eq_pos 0 t + 1) = CHR 0x22
                  then (if char_at b (n + length t - 1) = CHR 0x22 then b[n + length t - 1 := NUL] else b,
                        Some (n + eq_pos 0 t + 1 + 1))
                  else (b, Some (n + eq_pos 0 t + 1)));
          b = (if q \<and> char_at b (n + length t - 1) = CHR 0x22 then b[n + length t - 1 := NUL] else b);
          (b, args) = (if char_at b (n + length t) \<noteq> NUL then (b[n + length t := NUL], n + length t + 1) else (b, n + length t))
      in (b, n, val, skip_spaces b args))"
    unfolding next_arg_def Let_def b(2) [symmetric] b(3) [symmetric] scan prod.case by (rule refl)
  have fin: "(let (b, args) = (if char_at (y @ u @ [NUL]) (n + length t) \<noteq> NUL
                then ((y @ u @ [NUL])[n + length t := NUL], n + length t + 1) else (y @ u @ [NUL], n + length t))
              in (b, n, val, skip_spaces b args))
      = (y @ close_arg u @ [NUL], n, val, length x + length s - length (dropWhile isspace (tl u)))"
    if "length y = n + length t" for y and val :: "nat option"
    using last_step [OF u that] skip_behind [OF that, of u] x(1) s(2) that by (simp add: Let_def add.assoc)
  show ?thesis
  proof (cases "arg_split t")
    case None
    let ?x = "if q \<and> t = [] then butlast x @ [NUL] else x"
    have l: "length (?x @ drop_quote q t) = n + length t" using x b(3) by (cases x rule: rev_cases) auto
    have st: "(if q \<and> char_at b (n + length t - 1) = CHR 0x22 then b[n + length t - 1 := NUL] else b)
        = (?x @ drop_quote q t) @ u @ [NUL]"
      using store_param [where q = q and t = t and r = "u @ [NUL]", OF x] unfolding b(1) s(2) by (simp only: append_assoc)
    show ?thesis using fin [OF l, of None] unfolding step arg_split_None [OF None] None Let_def
      by (simp only: option.case simp_thms if_True prod.case st append_assoc)
  next
    case (Some kv)
    obtain k v where kv: "kv = (k, v)" by (cases kv)
    note sp = arg_split_Some [OF Some [unfolded kv]]
    let ?r = "u @ [NUL]"
    have r: "\<exists>c r'. ?r = c # r' \<and> c \<noteq> CHR 0x22" using u by (cases u) auto
    have v: "NUL \<notin> set v" using s(1) unfolding s(2) sp(3) by simp
    have st: "b[n + length k := NUL] = x @ k @ NUL # v @ ?r"
      using b(1) s(2) sp(3) x(1) by (simp add: list_update_append)
    have l: "length (x @ k @ NUL # drop_quote (q \<or> opens_quote v) v) = n + length t" using sp x by simp
    have lt: "length t = length k + 1 + length v" using sp by simp
    have k0: "length k \<noteq> 0" using sp by simp
    let ?b = "x @ k @ NUL # v @ ?r"
    let ?l = "n + (length k + 1 + length v) - 1"
    let ?P = "if char_at ?b (n + length k + 1) = CHR 0x22
      then (if char_at ?b ?l = CHR 0x22 then ?b[?l := NUL] else ?b, Some (n + length k + 1 + 1))
      else (?b, Some (n + length k + 1))"
    obtain b2 v2 where P: "?P = (b2, v2)" by (rule prod.exhaust)
    have eqs: "(if q \<and> char_at b2 ?l = CHR 0x22 then b2[?l := NUL] else b2) = (x @ k @ NUL # drop_quote (q \<or> opens_quote v) v) @ ?r"
      "v2 = Some (n + length k + 1 + (if opens_quote v then 1 else 0))"
      using store_value [OF x(1) v r, of k q] unfolding P Let_def prod.case by (auto simp: prod_eq_iff)
    have k0: "(length k = 0) = False" using sp by simp
    show ?thesis using fin [OF l, of v2] unfolding step sp(1) Some kv Let_def st lt k0
      by (simp only: option.case if_False prod.case P eqs append_assoc append_Cons)
  qed
qed


lemma close_arg_rest: "\<exists>r. close_arg u @ [NUL] = NUL # r"
  by (simp add: close_arg_def)

lemma drop_behind:
  assumes "length y = n"
  shows "drop (n + length u - length (dropWhile isspace (tl u))) (y @ close_arg u @ [NUL]) = dropWhile isspace (tl u) @ [NUL]"
proof (cases u)
  case Nil
  then show ?thesis using assms by (simp add: close_arg_def)
next
  case (Cons c w)
  obtain tk d where w: "w = tk @ d" "dropWhile isspace w = d" by (metis takeWhile_dropWhile_id)
  have "drop (n + Suc (length w) - length d) (y @ NUL # w @ [NUL]) = d @ [NUL]" using assms w(1) by simp
  then show ?thesis using Cons w(2) by (simp add: close_arg_def)
qed

lemma drop_prefix: "length x = n \<Longrightarrow> drop n (x @ z) = z"
  by simp

lemma token_NUL: "NUL \<notin> set s \<Longrightarrow> NUL \<notin> set (arg_token q s)"
  by (induction q s rule: arg_token.induct) auto

text \<open>The strings behind the two pointers and the rest of the line.\<close>

lemma next_arg_first:
  assumes s: "NUL \<notin> set s" and na: "next_arg (p @ s @ [NUL]) (length p) = (b', param, val, args)"
  shows "cstr (drop param b') = fst (first_arg s)" and "map_option (\<lambda>i. cstr (drop i b')) val = snd (first_arg s)"
    and "length b' = length p + length s + 1" and "drop args b' = after_arg s @ [NUL]"
    and "s \<noteq> [] \<Longrightarrow> length p < args" and "args \<le> length p + length s"
proof -
  define q where "q = opens_quote s"
  define x where "x = (if q then p @ [CHR 0x22] else p)"
  define s1 where "s1 = arg_text s"
  define t where "t = arg_token q s1"
  have b: "p @ s @ [NUL] = x @ s1 @ [NUL]"
    by (cases s) (auto simp: q_def x_def s1_def arg_text_def opens_quote_def)
  have s1: "NUL \<notin> set s1" using s by (cases s) (auto simp: s1_def arg_text_def)
  obtain u where u: "s1 = t @ u" "u = [] \<or> isspace (hd u)" using token_prefix [of s1 q] unfolding t_def by blast
  have tn: "NUL \<notin> set t" unfolding t_def by (rule token_NUL [OF s1])
  have q: "q \<longleftrightarrow> char_at (p @ s @ [NUL]) (length p) = CHR 0x22"
    by (cases s) (auto simp: q_def opens_quote_def)
  have x: "length x = (if q then length p + 1 else length p)" "q \<Longrightarrow> \<exists>y. x = y @ [CHR 0x22]" by (auto simp: x_def)
  have D: "dropWhile isspace (tl u) = after_arg s"
    unfolding after_arg_def q_def [symmetric] s1_def [symmetric] t_def [symmetric] by (simp add: u(1))
  let ?D = "dropWhile isspace (tl u)"
  have m: "first_arg s = arg_meaning q t" by (simp add: first_arg_def q_def t_def s1_def)
  note shape = next_arg_shape [OF s1 u(1) t_def u(2) refl x(2) b q x(1), unfolded na]
  obtain r where r: "close_arg u @ [NUL] = NUL # r" using close_arg_rest by blast
  obtain y where y: "length y = length x + length t" "b' = y @ close_arg u @ [NUL]"
      "args = length x + length s1 - length ?D" "param = length x"
    and str: "cstr (drop (length x) b') = fst (arg_meaning q t)" "map_option (\<lambda>i. cstr (drop i b')) val = snd (arg_meaning q t)"
  proof (cases "arg_split t")
    case None
    let ?x = "if q \<and> t = [] then butlast x @ [NUL] else x"
    have lx: "length ?x = length x" using x(2) by auto
    have b': "b' = (?x @ drop_quote q t) @ close_arg u @ [NUL]" "param = length x" "val = None" "args = length x + length s1 - length ?D"
      using shape None by simp_all
    have "drop (length x) b' = drop_quote q t @ NUL # r" unfolding b'(1) append_assoc r by (rule drop_prefix [OF lx])
    then show thesis using that [OF _ b'(1) b'(4) b'(2)] lx drop_quote_text [OF tn] None b'(3) by (simp add: arg_meaning_def)
  next
    case (Some kv)
    obtain k v where kv: "kv = (k, v)" by (cases kv)
    note sp = arg_split_Some [OF Some [unfolded kv]]
    have kn: "NUL \<notin> set k" "NUL \<notin> set v" using tn sp(3) by auto
    let ?i = "length x + length k + 1"
    have b': "b' = (x @ k @ NUL # drop_quote (q \<or> opens_quote v) v) @ close_arg u @ [NUL]" "param = length x"
      "val = Some (?i + (if opens_quote v then 1 else 0))" "args = length x + length s1 - length ?D"
      using shape Some kv by simp_all
    have d: "drop (length x) b' = k @ NUL # drop_quote (q \<or> opens_quote v) v @ NUL # r" using b'(1) r by simp
    have d2: "drop ?i b' = drop_quote (q \<or> opens_quote v) v @ NUL # r" using b'(1) r by simp
    have "cstr (drop (?i + (if opens_quote v then 1 else 0)) b')
        = (if opens_quote v then unquote True (tl v) else unquote q v)"
    proof (cases "opens_quote v")
      case True
      then obtain w where w: "v = CHR 0x22 # w" by (cases v) (auto simp: opens_quote_def)
      have "drop (?i + 1) b' = tl (drop ?i b')" by (simp add: drop_Suc tl_drop)
      also have "\<dots> = (if w = [] then NUL # r else drop_quote True w @ NUL # r)"
        unfolding d2 using w True by (simp add: drop_quote_Cons)
      finally show ?thesis using True w kn drop_quote_text [of w True] by (auto simp: unquote_def)
    next
      case False
      then show ?thesis using d2 drop_quote_text [OF kn(2)] by simp
    qed
    then have g: "map_option (\<lambda>i. cstr (drop i b')) val = snd (arg_meaning q t)"
      unfolding b'(3) arg_meaning_def Some kv by (simp add: opens_quote_def)
    have len: "length (x @ k @ NUL # drop_quote (q \<or> opens_quote v) v) = length x + length t" using sp(3) by simp
    have f: "cstr (drop (length x) b') = fst (arg_meaning q t)" unfolding d arg_meaning_def Some kv using kn(1) by simp
    show thesis by (rule that [OF len b'(1) b'(4) b'(2) f g])
  qed
  have l1: "length x + length s1 = length p + length s" using arg_cong [OF b, of length] by simp
  have le: "length ?D \<le> length (tl u)" by (rule length_dropWhile_le)
  show "cstr (drop param b') = fst (first_arg s)" "map_option (\<lambda>i. cstr (drop i b')) val = snd (first_arg s)"
    using str m y(4) by simp_all
  show "length b' = length p + length s + 1" using y l1 u(1) by (cases u) (simp_all add: close_arg_def)
  show "drop args b' = after_arg s @ [NUL]"
    using drop_behind [OF y(1), of u] y(2,3) u(1) D by (simp add: add.assoc)
  show "args \<le> length p + length s" using y(3) l1 by simp
  assume "s \<noteq> []"
  then have "0 < length s1 \<or> length p < length x" using l1 by auto
  moreover have "length s1 = length t + length u" using u(1) by simp
  moreover have "length (tl u) < length u \<or> length (tl u) = 0 \<and> length u = 0" by (cases u) auto
  moreover have "length p \<le> length x" by (simp add: x_def)
  ultimately show "length p < args" using y(3) le by linarith
qed


text \<open>Whatever the buffer holds, \<open>next_arg\<close> moves on and keeps the length of the buffer.\<close>

lemma skip_spaces_ge: "p \<le> skip_spaces b p"
proof (induction b p rule: skip_spaces.induct)
  case (1 b p)
  then show ?case by (subst skip_spaces.simps) (auto dest: Suc_leD)
qed

lemma arg_scan_ge: "i \<le> fst (arg_scan b args i equals in_quote)"
proof (induction b args i equals in_quote rule: arg_scan.induct)
  case (1 b args i equals in_quote)
  let ?c = "char_at b (args + i)"
  show ?case
  proof (cases "?c = NUL \<or> isspace ?c \<and> \<not> in_quote")
    case False
    then have "i + 1 \<le> fst (arg_scan b args i equals in_quote)" using "1.IH" [OF refl] by (subst arg_scan.simps) (simp add: Let_def)
    then show ?thesis by simp
  qed (subst arg_scan.simps, auto simp: Let_def)
qed

lemma arg_scan_moves:
  assumes "char_at b (args + i) \<noteq> NUL" and "\<not> isspace (char_at b (args + i)) \<or> in_quote"
  shows "i < fst (arg_scan b args i equals in_quote)"
  using assms arg_scan_ge [of "i + 1" b args] by (subst arg_scan.simps) (auto simp: Let_def Suc_le_eq)

lemma next_arg_progress:
  assumes c: "char_at b a \<noteq> NUL" and na: "next_arg b a = (b', param, val, args)"
  shows "a < args" and "length b' = length b"
proof -
  show "length b' = length b" using na unfolding next_arg_def Let_def by (auto split: prod.splits if_splits)
  define q where "q \<longleftrightarrow> char_at b a = CHR 0x22"
  define n where "n = (if q then a + 1 else a)"
  obtain i e where ie: "arg_scan b n 0 0 q = (i, e)" by fastforce
  have "n + i \<le> args" and m: "e = 0 \<Longrightarrow> \<not> q \<Longrightarrow> char_at b (n + i) \<noteq> NUL \<Longrightarrow> n + i + 1 \<le> args"
    using na skip_spaces_ge [of "n + i" b'] skip_spaces_ge [of "n + i + 1" b']
    unfolding next_arg_def Let_def q_def [symmetric] n_def [symmetric] ie prod.case
    by (auto split: prod.splits if_splits)
  show "a < args"
  proof (cases "q \<or> 0 < i")
    case True
    then show ?thesis using \<open>n + i \<le> args\<close> by (auto simp: n_def split: if_splits)
  next
    case False
    then have s: "isspace (char_at b a)" using arg_scan_moves [of b n 0 q 0] ie c by (auto simp: n_def)
    have "arg_scan b n 0 0 q = (0, 0)" using s False by (subst arg_scan.simps) (auto simp: n_def Let_def)
    then show ?thesis using ie m c False by (auto simp: n_def)
  qed
qed


section \<open>The parameter table\<close>

text \<open>The flags the kernel is tainted with, and those that make it panic.\<close>

record taint =
  tainted_mask :: u32
  panic_on_taint :: u32

definition TAINT_USER :: nat where "TAINT_USER = 6"

text \<open>\<open>add_taint\<close> with \<open>LOCKDEP_STILL_OK\<close>; a panic stops the machine.\<close>

definition add_taint :: "nat \<Rightarrow> taint \<Rightarrow> taint outcome" where
  "add_taint flag t =
     (let t = t\<lparr>tainted_mask := tainted_mask t OR push_bit flag 1\<rparr>
      in if tainted_mask t AND panic_on_taint t \<noteq> 0 then Bug else Ok t)"

text \<open>A parameter: its handler \<open>set_op\<close> gets the value and returns the error code and the state of
  the variables behind the parameters.\<close>

record 's kernel_param =
  kp_name :: string
  kp_level :: int
  kp_flags :: u8
  ops_flags :: u32
  set_op :: "string option \<Rightarrow> 's \<Rightarrow> int \<times> 's"

definition KERNEL_PARAM_FL_UNSAFE :: u8 where "KERNEL_PARAM_FL_UNSAFE = 1"
definition KERNEL_PARAM_FL_HWPARAM :: u8 where "KERNEL_PARAM_FL_HWPARAM = 2"
definition KERNEL_PARAM_OPS_FL_NOARG :: u32 where "KERNEL_PARAM_OPS_FL_NOARG = 1"

definition security_locked_down :: int where "security_locked_down = 0"

definition dash2underscore :: "char \<Rightarrow> char" where
  "dash2underscore c = (if c = CHR ''-'' then CHR ''_'' else c)"

fun parameqn :: "string \<Rightarrow> string \<Rightarrow> nat \<Rightarrow> bool" where
  "parameqn a b 0 = True"
| "parameqn a b (Suc n) =
     (if dash2underscore (char_at a 0) \<noteq> dash2underscore (char_at b 0) then False
      else parameqn (tl a) (tl b) n)"

definition parameq :: "string \<Rightarrow> string \<Rightarrow> bool" where
  "parameq a b = parameqn a b (length a + 1)"

definition param_check_unsafe :: "'s kernel_param \<Rightarrow> taint \<Rightarrow> (bool \<times> taint) outcome" where
  "param_check_unsafe kp t =
     (if kp_flags kp AND KERNEL_PARAM_FL_HWPARAM \<noteq> 0 \<and> security_locked_down \<noteq> 0 then Ok (False, t)
      else if kp_flags kp AND KERNEL_PARAM_FL_UNSAFE \<noteq> 0
      then obind (add_taint TAINT_USER t) (\<lambda>t. Ok (True, t))
      else Ok (True, t))"

text \<open>The error numbers of \<open>include/uapi/asm-generic/errno.h\<close>.\<close>

fun errno_code :: "errno \<Rightarrow> int" where
  "errno_code EINVAL = 22"
| "errno_code ERANGE = 34"

definition EPERM :: int where "EPERM = 1"
definition ENOENT :: int where "ENOENT = 2"

text \<open>Handlers of unknown parameters; the code may pass none.\<close>

type_synonym 's unknown_handler = "(string \<Rightarrow> string option \<Rightarrow> 's \<Rightarrow> int \<times> 's) option"

fun parse_one ::
  "'s unknown_handler \<Rightarrow> int \<Rightarrow> int \<Rightarrow> 's kernel_param list \<Rightarrow> string \<Rightarrow> string option
     \<Rightarrow> taint \<times> 's \<Rightarrow> (int \<times> taint \<times> 's) outcome" where
  "parse_one handle_unknown min_level max_level [] param val (t, s) =
     (case handle_unknown of
        Some h \<Rightarrow> (case h param val s of (err, s) \<Rightarrow> Ok (err, t, s))
      | None \<Rightarrow> Ok (- ENOENT, t, s))"
| "parse_one handle_unknown min_level max_level (kp # params) param val (t, s) =
     (if parameq param (kp_name kp) then
        if kp_level kp < min_level \<or> max_level < kp_level kp then Ok (0, t, s)
        else if val = None \<and> ops_flags kp AND KERNEL_PARAM_OPS_FL_NOARG = 0 then Ok (- errno_code EINVAL, t, s)
        else obind (param_check_unsafe kp t) (\<lambda>(safe, t).
               if safe then (case set_op kp val s of (err, s) \<Rightarrow> Ok (err, t, s))
               else Ok (- EPERM, t, s))
      else parse_one handle_unknown min_level max_level params param val (t, s))"

text \<open>What \<open>parse_args\<close> returns: a null pointer, the rest of the line or an error pointer.\<close>

datatype parse_result = Done | Rest nat | Failed int

definition result_or :: "int option \<Rightarrow> parse_result \<Rightarrow> parse_result" where
  "result_or err r = (case err of None \<Rightarrow> r | Some e \<Rightarrow> Failed e)"

function parse_loop ::
  "(string \<Rightarrow> string option \<Rightarrow> 'a \<Rightarrow> (int \<times> 'a) outcome) \<Rightarrow> string \<Rightarrow> nat \<Rightarrow> int option \<Rightarrow> 'a
     \<Rightarrow> (string \<times> parse_result \<times> 'a) outcome" where
  "parse_loop one b args err s =
     (if char_at b args \<noteq> NUL then
        (case next_arg b args of (b', param, val, args') \<Rightarrow>
           let p = cstr (drop param b'); v = map_option (\<lambda>i. cstr (drop i b')) val
           in if val = None \<and> p = ''--'' then Ok (b', result_or err (Rest args'), s)
              else
                (case one p v s of
                   Ok (ret, s) \<Rightarrow> parse_loop one b' args' (if ret = 0 then err else Some ret) s
                 | Bug \<Rightarrow> Bug | OutOfFuel \<Rightarrow> OutOfFuel))
      else Ok (b, result_or err Done, s))"
  by pat_completeness auto
termination
proof (relation "measure (\<lambda>(one, b, args, err, s). length b - args)", goal_cases)
  case (2 one b args err s b' y param y' val args' p v x ret s')
  then have na: "next_arg b args = (b', param, val, args')" by simp
  have "args < length b" by (rule char_at_inside [OF 2(1)])
  then show ?case using next_arg_progress [OF 2(1) na] by simp
qed simp

declare parse_loop.simps [simp del]

definition parse_args ::
  "'s kernel_param list \<Rightarrow> int \<Rightarrow> int \<Rightarrow> 's unknown_handler \<Rightarrow> string \<Rightarrow> nat \<Rightarrow> taint \<times> 's
     \<Rightarrow> (string \<times> parse_result \<times> taint \<times> 's) outcome" where
  "parse_args params min_level max_level unknown b args s =
     parse_loop (parse_one unknown min_level max_level params) b (skip_spaces b args) None s"


section \<open>What the loop does\<close>

text \<open>The arguments of a line handed to a function one by one. A bare \<open>--\<close> ends the parameters; the
  last error is the result.\<close>

datatype line_result = LDone | LRest string | LFailed int

lemma length_after_arg: "s \<noteq> [] \<Longrightarrow> length (after_arg s) < length s"
proof -
  assume "s \<noteq> []"
  let ?u = "drop (length (arg_token (opens_quote s) (arg_text s))) (arg_text s)"
  have 1: "length (after_arg s) \<le> length (tl ?u)" unfolding after_arg_def by (rule length_dropWhile_le)
  show ?thesis
  proof (cases "opens_quote s")
    case True
    then have "length (arg_text s) < length s" by (auto simp: arg_text_def opens_quote_def)
    then show ?thesis using 1 by simp
  next
    case False
    then have "length (tl ?u) < length s" using \<open>s \<noteq> []\<close> by (auto simp: arg_text_def)
    then show ?thesis using 1 by simp
  qed
qed

function each_arg ::
  "(string \<Rightarrow> string option \<Rightarrow> 'a \<Rightarrow> (int \<times> 'a) outcome) \<Rightarrow> string \<Rightarrow> int option \<Rightarrow> 'a
     \<Rightarrow> (line_result \<times> 'a) outcome" where
  "each_arg one s err st =
     (let stop = (\<lambda>r. Ok (case err of None \<Rightarrow> r | Some e \<Rightarrow> LFailed e, st))
      in if s = [] then stop LDone
         else if first_arg s = (''--'', None) then stop (LRest (after_arg s))
         else
           (case one (fst (first_arg s)) (snd (first_arg s)) st of
              Ok (ret, st) \<Rightarrow> each_arg one (after_arg s) (if ret = 0 then err else Some ret) st
            | Bug \<Rightarrow> Bug | OutOfFuel \<Rightarrow> OutOfFuel))"
  by pat_completeness auto
termination by (relation "measure (\<lambda>(one, s, err, st). length s)") (auto simp: length_after_arg)

declare each_arg.simps [simp del]

text \<open>The result of the code stands for that of the line when the rest pointer points to the rest.\<close>

fun stands_for :: "string \<Rightarrow> parse_result \<Rightarrow> line_result \<Rightarrow> bool" where
  "stands_for b Done LDone = True"
| "stands_for b (Rest i) (LRest t) = (cstr (drop i b) = t)"
| "stands_for b (Failed e) (LFailed e') = (e = e')"
| "stands_for b _ _ = False"

lemma after_arg_NUL: "NUL \<notin> set s \<Longrightarrow> NUL \<notin> set (after_arg s)"
proof -
  assume "NUL \<notin> set s"
  then have "NUL \<notin> set (arg_text s)" by (cases s) (auto simp: arg_text_def)
  then show ?thesis unfolding after_arg_def
    by (metis (no_types, lifting) in_set_dropD list.set_sel(2) set_dropWhileD tl_Nil)
qed

lemma parse_loop_each:
  assumes "NUL \<notin> set s" and "b = p @ s @ [NUL]" and same: "\<And>p v st. NUL \<notin> set p \<Longrightarrow> one p v st = one' p v st"
  shows "case each_arg one' s err st of
      Ok (r, st') \<Rightarrow> \<exists>b' res. parse_loop one b (length p) err st = Ok (b', res, st') \<and> length b' = length b \<and> stands_for b' res r
    | Bug \<Rightarrow> parse_loop one b (length p) err st = Bug
    | OutOfFuel \<Rightarrow> parse_loop one b (length p) err st = OutOfFuel"
  using assms
proof (induction one' s err st arbitrary: b p rule: each_arg.induct)
  case (1 one' s err st)
  show ?case
  proof (cases "s = []")
    case True
    then have "char_at b (length p) = NUL" using "1.prems" by simp
    then show ?thesis using True
      by (subst each_arg.simps, subst parse_loop.simps) (cases err, auto simp: result_or_def)
  next
    case False
    then have c: "char_at b (length p) \<noteq> NUL" using "1.prems" by (cases s) auto
    obtain b1 param val args where na: "next_arg b (length p) = (b1, param, val, args)" by (cases "next_arg b (length p)")
    note f = next_arg_first [OF "1.prems"(1) na [unfolded "1.prems"(2)]]
    have an: "NUL \<notin> set (after_arg s)" by (rule after_arg_NUL [OF "1.prems"(1)])
    have l1: "length b1 = length b" using f(3) "1.prems"(2) by simp
    have b1: "b1 = take args b1 @ after_arg s @ [NUL]" using f(4) append_take_drop_id [of args b1] by metis
    have la: "length (take args b1) = args" using f(3,6) by simp
    have dashes: "val = None \<and> cstr (drop param b1) = ''--'' \<longleftrightarrow> first_arg s = (''--'', None)"
      using f(1) [symmetric] f(2) [symmetric] by (auto simp: prod_eq_iff)
    show ?thesis
    proof (cases "first_arg s = (''--'', None)")
      case True
      have "cstr (drop args b1) = after_arg s" using f(4) an by simp
      then show ?thesis using True dashes c na False l1
        by (subst each_arg.simps, subst parse_loop.simps) (cases err, auto simp: result_or_def)
    next
      case nd: False
      have pn: "NUL \<notin> set (fst (first_arg s))" unfolding f(1) [symmetric] cstr_def by (auto dest: set_takeWhileD)
      have step: "parse_loop one b (length p) err st =
          (case one' (fst (first_arg s)) (snd (first_arg s)) st of
             Ok (ret, st) \<Rightarrow> parse_loop one b1 args (if ret = 0 then err else Some ret) st
           | Bug \<Rightarrow> Bug | OutOfFuel \<Rightarrow> OutOfFuel)"
        using c na f(1,2) dashes nd "1.prems"(3) [OF pn] by (subst parse_loop.simps) (auto simp: Let_def)
      show ?thesis
      proof (cases "one' (fst (first_arg s)) (snd (first_arg s)) st")
        case (Ok r)
        obtain ret st1 where r: "r = (ret, st1)" by (cases r)
        have each: "each_arg one' s err st = each_arg one' (after_arg s) (if ret = 0 then err else Some ret) st1"
          using False nd Ok r by (subst each_arg.simps) (simp add: Let_def)
        have loop: "parse_loop one b (length p) err st = parse_loop one b1 args (if ret = 0 then err else Some ret) st1"
          unfolding step Ok r by simp
        show ?thesis using "1.IH" [OF refl False nd Ok r [symmetric] an b1 "1.prems"(3)] unfolding each loop la l1 by assumption
      qed (use step False nd in \<open>subst each_arg.simps, simp\<close>)+
    qed
  qed
qed

lemma parameqn_iff:
  assumes "NUL \<notin> set a" and "NUL \<notin> set b"
  shows "parameqn a b (length a + 1) \<longleftrightarrow> map dash2underscore a = map dash2underscore b"
  using assms
proof (induction a arbitrary: b)
  case Nil
  then show ?case by (cases b) (auto simp: dash2underscore_def)
next
  case (Cons c a)
  then show ?case by (cases b) (auto simp: dash2underscore_def)
qed


text \<open>A parameter is looked up by its name, dashes counting as underscores.\<close>

definition same_param :: "string \<Rightarrow> 's kernel_param \<Rightarrow> bool" where
  "same_param param kp \<longleftrightarrow> map dash2underscore param = map dash2underscore (kp_name kp)"

definition apply_param ::
  "int \<Rightarrow> int \<Rightarrow> 's kernel_param \<Rightarrow> string option \<Rightarrow> taint \<times> 's \<Rightarrow> (int \<times> taint \<times> 's) outcome" where
  "apply_param min_level max_level kp val st =
     (if kp_level kp \<notin> {min_level..max_level} then Ok (0, st)
      else if val = None \<and> ops_flags kp AND KERNEL_PARAM_OPS_FL_NOARG = 0 then Ok (- errno_code EINVAL, st)
      else if kp_flags kp AND KERNEL_PARAM_FL_UNSAFE = 0 then
        Ok (fst (set_op kp val (snd st)), fst st, snd (set_op kp val (snd st)))
      else obind (add_taint TAINT_USER (fst st)) (\<lambda>t. Ok (fst (set_op kp val (snd st)), t, snd (set_op kp val (snd st)))))"

definition lookup_param ::
  "'s unknown_handler \<Rightarrow> int \<Rightarrow> int \<Rightarrow> 's kernel_param list \<Rightarrow> string \<Rightarrow> string option
     \<Rightarrow> taint \<times> 's \<Rightarrow> (int \<times> taint \<times> 's) outcome" where
  "lookup_param unknown min_level max_level params param val st =
     (case find (same_param param) params of
        Some kp \<Rightarrow> apply_param min_level max_level kp val st
      | None \<Rightarrow>
          (case unknown of
             Some h \<Rightarrow> Ok (fst (h param val (snd st)), fst st, snd (h param val (snd st)))
           | None \<Rightarrow> Ok (- ENOENT, st)))"

lemma parse_one_lookup:
  assumes "NUL \<notin> set param" and "\<forall>kp\<in>set params. NUL \<notin> set (kp_name kp)"
  shows "parse_one unknown min_level max_level params param val st = lookup_param unknown min_level max_level params param val st"
  using assms
proof (induction params)
  case Nil
  show ?case by (cases st) (auto simp: lookup_param_def split: option.splits prod.splits)
next
  case (Cons kp params)
  have eq: "parameq param (kp_name kp) \<longleftrightarrow> same_param param kp"
    using parameqn_iff [of param "kp_name kp"] Cons.prems by (simp add: parameq_def same_param_def)
  obtain t s where st: "st = (t, s)" by (cases st)
  show ?case
  proof (cases "same_param param kp")
    case True
    then show ?thesis using eq st
      by (cases "add_taint TAINT_USER t")
        (auto simp: lookup_param_def apply_param_def param_check_unsafe_def security_locked_down_def split: prod.splits)
  next
    case False
    then show ?thesis using eq st Cons by (simp add: lookup_param_def)
  qed
qed


text \<open>
  \<^bold>\<open>C32\<close>. \<open>next_arg\<close> cuts the first argument out of the line: behind the pointers it returns stand the
  name and the value of the argument, with their quotes removed, and the rest of the line starts behind
  the blanks that follow. It moves on whenever the line is not empty, and stays inside the buffer.
\<close>

theorem next_arg_cuts:
  assumes "NUL \<notin> set s" and "next_arg (p @ s @ [NUL]) (length p) = (b', param, val, args)"
  shows "(cstr (drop param b'), map_option (\<lambda>i. cstr (drop i b')) val) = first_arg s
    \<and> length b' = length p + length s + 1 \<and> drop args b' = after_arg s @ [NUL]
    \<and> (s = [] \<or> length p < args) \<and> args \<le> length p + length s"
  using next_arg_first [OF assms] by (auto simp: prod_eq_iff)

lemmas arg_eval = first_arg_def after_arg_def arg_text_def opens_quote_def arg_meaning_def arg_split_def unquote_def
  isspace_def ismask_def ctype_def

theorem next_arg_cuts_witness:
  "\<exists>b' param val args. next_arg (''foo='' @ CHR 0x22 # ''a b'' @ CHR 0x22 # '' ro'' @ [NUL]) 0 = (b', param, val, args)
     \<and> cstr (drop param b') = ''foo'' \<and> map_option (\<lambda>i. cstr (drop i b')) val = Some ''a b'' \<and> drop args b' = ''ro'' @ [NUL]"
proof -
  let ?s = "''foo='' @ CHR 0x22 # ''a b'' @ CHR 0x22 # '' ro''"
  obtain b' param val args where na: "next_arg (?s @ [NUL]) 0 = (b', param, val, args)" by (rule prod_cases4)
  have "first_arg ?s = (''foo'', Some ''a b'')" "after_arg ?s = ''ro''" by (simp_all add: arg_eval)
  then show ?thesis using next_arg_cuts [of ?s "[]" b' param val args] na by simp
qed

lemma skip_to_text:
  assumes "NUL \<notin> set s"
  obtains p' where "p @ s @ [NUL] = p' @ dropWhile isspace s @ [NUL]" and "skip_spaces (p @ s @ [NUL]) (length p) = length p'"
proof -
  have l: "length s = length (takeWhile isspace s) + length (dropWhile isspace s)"
    by (metis length_append takeWhile_dropWhile_id)
  show thesis
    using that [of "p @ takeWhile isspace s"] skip_spaces_dropWhile [of p s] l by simp
qed

lemma each_arg_fuel:
  assumes "\<And>p v st. one p v st \<noteq> OutOfFuel"
  shows "each_arg one s err st \<noteq> OutOfFuel"
  using assms
proof (induction one s err st rule: each_arg.induct)
  case (1 one s err st)
  show ?case
  proof (cases "s = [] \<or> first_arg s = (''--'', None)")
    case True
    then show ?thesis by (subst each_arg.simps) (auto simp: Let_def)
  next
    case False
    then have n: "s \<noteq> []" "first_arg s \<noteq> (''--'', None)" by auto
    show ?thesis
    proof (cases "one (fst (first_arg s)) (snd (first_arg s)) st")
      case (Ok r)
      obtain ret st1 where r: "r = (ret, st1)" by (cases r)
      show ?thesis using "1.IH" [OF refl n Ok r [symmetric] "1.prems"] n Ok r by (subst each_arg.simps) (simp add: Let_def)
    qed (use 1(2) n in \<open>subst each_arg.simps, simp\<close>)+
  qed
qed

lemma lookup_fuel: "lookup_param unknown min_level max_level params param val st \<noteq> OutOfFuel"
  by (cases "tainted_mask (fst st) OR push_bit TAINT_USER 1 AND panic_on_taint (fst st) = 0")
    (auto simp: lookup_param_def apply_param_def add_taint_def Let_def split: option.splits)

text \<open>
  \<^bold>\<open>C31\<close>. \<open>parse_args\<close> cuts the line in place, and does with it what its meaning says: each argument in
  turn goes to the first parameter of its name, dashes and underscores being the same, or to the handler of
  unknown ones; a bare \<open>--\<close> stops it and what follows is returned; the last error is the result.
\<close>

theorem parse_args_meaning:
  assumes "NUL \<notin> set s" and "\<forall>kp\<in>set params. NUL \<notin> set (kp_name kp)"
  shows "case each_arg (lookup_param unknown min_level max_level params) (dropWhile isspace s) None st of
      Ok (r, st') \<Rightarrow> \<exists>b' res. parse_args params min_level max_level unknown (p @ s @ [NUL]) (length p) st = Ok (b', res, st')
        \<and> length b' = length p + length s + 1 \<and> stands_for b' res r
    | Bug \<Rightarrow> parse_args params min_level max_level unknown (p @ s @ [NUL]) (length p) st = Bug
    | OutOfFuel \<Rightarrow> False"
proof -
  obtain p' where p': "p @ s @ [NUL] = p' @ dropWhile isspace s @ [NUL]" "skip_spaces (p @ s @ [NUL]) (length p) = length p'"
    by (rule skip_to_text [OF assms(1)])
  have s: "NUL \<notin> set (dropWhile isspace s)" using assms(1) by (auto dest: set_dropWhileD)
  have loop: "parse_args params min_level max_level unknown (p @ s @ [NUL]) (length p) st
      = parse_loop (parse_one unknown min_level max_level params) (p @ s @ [NUL]) (length p') None st"
    unfolding parse_args_def p'(2) by (rule refl)
  show ?thesis
    using parse_loop_each [where one = "parse_one unknown min_level max_level params"
        and one' = "lookup_param unknown min_level max_level params" and err = None and st = st, OF s p'(1) parse_one_lookup [OF _ assms(2)]]
      each_arg_fuel [of "lookup_param unknown min_level max_level params" "dropWhile isspace s" None st, OF lookup_fuel]
    unfolding loop by (auto split: outcome.splits)
qed

theorem parse_args_meaning_witness:
  "\<exists>b' i st. parse_args [\<lparr>kp_name = ''foo_bar'', kp_level = 0, kp_flags = 1, ops_flags = 0, set_op = \<lambda>v s. (0, v)\<rparr>] (- 1) 0 None
      (''foo-bar=7 -- init'' @ [NUL]) 0 (\<lparr>tainted_mask = 0, panic_on_taint = 0\<rparr>, None) = Ok (b', Rest i, st)
    \<and> cstr (drop i b') = ''init'' \<and> snd st = Some ''7'' \<and> tainted_mask (fst st) = 64"
proof -
  let ?kp = "\<lparr>kp_name = ''foo_bar'', kp_level = 0, kp_flags = 1, ops_flags = 0, set_op = \<lambda>v s. (0, v)\<rparr>"
  let ?st = "(\<lparr>tainted_mask = 0, panic_on_taint = 0\<rparr>, None)"
  have "each_arg (lookup_param None (- 1) 0 [?kp]) ''foo-bar=7 -- init'' None ?st
      = Ok (LRest ''init'', \<lparr>tainted_mask = 64, panic_on_taint = 0\<rparr>, Some ''7'')"
    by (simp add: each_arg.simps arg_eval lookup_param_def apply_param_def same_param_def dash2underscore_def
        add_taint_def TAINT_USER_def KERNEL_PARAM_FL_UNSAFE_def Let_def)
  moreover have "dropWhile isspace ''foo-bar=7 -- init'' = ''foo-bar=7 -- init''" by (simp add: arg_eval)
  ultimately obtain b' res where "parse_args [?kp] (- 1) 0 None (''foo-bar=7 -- init'' @ [NUL]) 0 ?st
        = Ok (b', res, \<lparr>tainted_mask = 64, panic_on_taint = 0\<rparr>, Some ''7'')" and "stands_for b' res (LRest ''init'')"
    using parse_args_meaning [where s = "''foo-bar=7 -- init''" and params = "[?kp]" and unknown = None and min_level = "- 1"
        and max_level = 0 and st = ?st and p = "[]"] by auto
  then show ?thesis by (cases res) auto
qed

end
