(* ===== verification/Ksema.thy ===== *)
theory Ksema
  imports Kbits
begin

unbundle bit_operations_syntax

text \<open>
  Counting semaphores, \<open>kernel/locking/semaphore.c\<close>. Each stretch of code under the spin lock is one
  step of a task; a task that has to wait leaves the lock in \<open>schedule_timeout\<close> and goes on in a later
  step, once it is awake. The step relation interleaves the steps of any number of tasks, with wake-ups
  that come from elsewhere. The lemmas show that no unit of the semaphore is lost or handed out
  twice, that no wake-up is lost, and that every task that waits gets its turn.
\<close>

section \<open>The semaphore\<close>

datatype place = Outside | Waiting | Inside

text \<open>
  The semaphore and the tasks that use it: \<open>wait_list\<close> holds the tasks of its waiters, \<open>waiter_up\<close> the
  flag \<open>up\<close> of the waiter on a task's stack, \<open>sleeping\<close> whether the task is off the run queue, and
  \<open>place\<close> whether it is before \<open>down\<close>, in \<open>schedule_timeout\<close>, or between \<open>down\<close> and \<open>up\<close>.
\<close>

record 't semaphore =
  count :: u32
  wait_list :: "'t list"
  waiter_up :: "'t \<Rightarrow> bool"
  sleeping :: "'t \<Rightarrow> bool"
  at :: "'t \<Rightarrow> place"

definition semaphore_init :: "u32 \<Rightarrow> 't semaphore" where
  "semaphore_init n = \<lparr>count = n, wait_list = [], waiter_up = \<lambda>_. False, sleeping = \<lambda>_. False, at = \<lambda>_. Outside\<rparr>"

definition TASK_INTERRUPTIBLE :: u32 where "TASK_INTERRUPTIBLE = 0x1"
definition TASK_UNINTERRUPTIBLE :: u32 where "TASK_UNINTERRUPTIBLE = 0x2"
definition TASK_WAKEKILL :: u32 where "TASK_WAKEKILL = 0x100"

text \<open>\<open>pending\<close> and \<open>fatal\<close> are \<open>signal_pending\<close> and \<open>__fatal_signal_pending\<close> of the task.\<close>

definition signal_pending_state :: "u32 \<Rightarrow> bool \<Rightarrow> bool \<Rightarrow> bool" where
  "signal_pending_state state pending fatal =
     (if state AND (TASK_INTERRUPTIBLE OR TASK_WAKEKILL) = 0 then False
      else if \<not> pending then False
      else state AND TASK_INTERRUPTIBLE \<noteq> 0 \<or> fatal)"

definition MAX_SCHEDULE_TIMEOUT :: int where "MAX_SCHEDULE_TIMEOUT = 2 ^ 31 - 1"

text \<open>The time left when \<open>schedule_timeout\<close> returns; \<open>left\<close> is \<open>expire - jiffies\<close> then.\<close>

definition schedule_timeout :: "int \<Rightarrow> int \<Rightarrow> int" where
  "schedule_timeout timeout left =
     (let timeout = (if timeout = MAX_SCHEDULE_TIMEOUT \<or> timeout < 0 then timeout else left)
      in if timeout < 0 then 0 else timeout)"

definition EINTR :: int where "EINTR = 4"
definition ETIME :: int where "ETIME = 62"

datatype wait = Sleeps int | Returns int

text \<open>One turn of the loop of \<open>___down_common\<close>, up to the release of the lock.\<close>

definition down_turn :: "'t \<Rightarrow> u32 \<Rightarrow> bool \<Rightarrow> bool \<Rightarrow> int \<Rightarrow> 't semaphore \<Rightarrow> wait \<times> 't semaphore" where
  "down_turn current state pending fatal timeout sem =
     (if signal_pending_state state pending fatal
      then (Returns (- EINTR), sem\<lparr>wait_list := remove1 current (wait_list sem)\<rparr>)
      else if timeout \<le> 0
      then (Returns (- ETIME), sem\<lparr>wait_list := remove1 current (wait_list sem)\<rparr>)
      else (Sleeps timeout, sem\<lparr>sleeping := (sleeping sem)(current := True)\<rparr>))"

definition down_common :: "'t \<Rightarrow> u32 \<Rightarrow> bool \<Rightarrow> bool \<Rightarrow> int \<Rightarrow> 't semaphore \<Rightarrow> wait \<times> 't semaphore" where
  "down_common current state pending fatal timeout sem =
     down_turn current state pending fatal timeout
       (sem\<lparr>wait_list := wait_list sem @ [current], waiter_up := (waiter_up sem)(current := False)\<rparr>)"

text \<open>The rest of the turn once the task runs again.\<close>

definition down_resume :: "'t \<Rightarrow> u32 \<Rightarrow> bool \<Rightarrow> bool \<Rightarrow> int \<Rightarrow> 't semaphore \<Rightarrow> wait \<times> 't semaphore" where
  "down_resume current state pending fatal timeout sem =
     (if waiter_up sem current then (Returns 0, sem)
      else down_turn current state pending fatal timeout sem)"

definition down :: "'t \<Rightarrow> bool \<Rightarrow> bool \<Rightarrow> 't semaphore \<Rightarrow> wait \<times> 't semaphore" where
  "down current pending fatal sem =
     (if count sem > 0 then (Returns 0, sem\<lparr>count := count sem - 1\<rparr>)
      else down_common current TASK_UNINTERRUPTIBLE pending fatal MAX_SCHEDULE_TIMEOUT sem)"

definition down_trylock :: "'t semaphore \<Rightarrow> bool \<times> 't semaphore" where
  "down_trylock sem =
     (let cnt = count sem - 1
      in (sint cnt < 0, if sint cnt \<ge> 0 then sem\<lparr>count := cnt\<rparr> else sem))"

definition slow_up :: "'t semaphore \<Rightarrow> 't semaphore" where
  "slow_up sem =
     (let waiter = hd (wait_list sem)
      in sem\<lparr>wait_list := remove1 waiter (wait_list sem), waiter_up := (waiter_up sem)(waiter := True),
             sleeping := (sleeping sem)(waiter := False)\<rparr>)"

definition up :: "'t semaphore \<Rightarrow> 't semaphore" where
  "up sem = (if wait_list sem = [] then sem\<lparr>count := count sem + 1\<rparr> else slow_up sem)"

section \<open>Steps\<close>

datatype 't act = Down 't | Trylock 't | Up 't | Resume 't | Wake 't

definition moves :: "'t \<Rightarrow> place \<Rightarrow> 't semaphore \<Rightarrow> 't semaphore" where
  "moves t p sem = sem\<lparr>at := (at sem)(t := p)\<rparr>"

text \<open>\<open>down\<close> ignores what \<open>__down\<close> returns.\<close>

fun place_after :: "wait \<Rightarrow> place" where
  "place_after (Sleeps _) = Waiting"
| "place_after (Returns _) = Inside"

text \<open>
  A task outside calls \<open>down\<close> or \<open>down_trylock\<close>, a task inside calls \<open>up\<close>, a waiting task that is awake
  goes on, and a sleeping task may be woken for another reason. Whether signals are pending is arbitrary.
\<close>

inductive step :: "'t semaphore \<Rightarrow> 't act \<Rightarrow> 't semaphore \<Rightarrow> bool" where
  down: "at s t = Outside \<Longrightarrow> down t pending fatal s = (w, s') \<Longrightarrow> step s (Down t) (moves t (place_after w) s')"
| trylock: "at s t = Outside \<Longrightarrow> down_trylock s = (failed, s')
    \<Longrightarrow> step s (Trylock t) (moves t (if failed then Outside else Inside) s')"
| up: "at s t = Inside \<Longrightarrow> step s (Up t) (moves t Outside (up s))"
| resume: "at s t = Waiting \<Longrightarrow> \<not> sleeping s t
    \<Longrightarrow> down_resume t TASK_UNINTERRUPTIBLE pending fatal (schedule_timeout MAX_SCHEDULE_TIMEOUT left) s = (w, s')
    \<Longrightarrow> step s (Resume t) (moves t (place_after w) s')"
| wake: "sleeping s t \<Longrightarrow> step s (Wake t) (s\<lparr>sleeping := (sleeping s)(t := False)\<rparr>)"

inductive reachable :: "u32 \<Rightarrow> 't semaphore \<Rightarrow> bool" for n where
  init: "reachable n (semaphore_init n)"
| step: "reachable n s \<Longrightarrow> step s a s' \<Longrightarrow> reachable n s'"

section \<open>What the steps do\<close>

lemma uninterruptible [simp]: "\<not> signal_pending_state TASK_UNINTERRUPTIBLE pending fatal"
  by (simp add: signal_pending_state_def TASK_UNINTERRUPTIBLE_def TASK_INTERRUPTIBLE_def TASK_WAKEKILL_def)

lemma never_times_out [simp]: "schedule_timeout MAX_SCHEDULE_TIMEOUT left = MAX_SCHEDULE_TIMEOUT" "\<not> MAX_SCHEDULE_TIMEOUT \<le> 0"
  by (simp_all add: schedule_timeout_def MAX_SCHEDULE_TIMEOUT_def)

lemma down_turn_sleeps [simp]:
  "down_turn t TASK_UNINTERRUPTIBLE pending fatal MAX_SCHEDULE_TIMEOUT s
     = (Sleeps MAX_SCHEDULE_TIMEOUT, s\<lparr>sleeping := (sleeping s)(t := True)\<rparr>)"
  by (simp add: down_turn_def)

text \<open>The units that are in use: by a task inside, or handed to a waiter that has not run yet.\<close>

definition granted :: "'t semaphore \<Rightarrow> 't \<Rightarrow> bool" where
  "granted s t \<longleftrightarrow> at s t = Waiting \<and> waiter_up s t"

definition holders :: "'t semaphore \<Rightarrow> 't set" where
  "holders s = {t. at s t = Inside \<or> granted s t}"

definition sem_inv :: "nat \<Rightarrow> 't semaphore \<Rightarrow> bool" where
  "sem_inv n s \<longleftrightarrow> finite (holders s) \<and> unat (count s) + card (holders s) = n
     \<and> distinct (wait_list s) \<and> set (wait_list s) = {t. at s t = Waiting \<and> \<not> waiter_up s t}
     \<and> (count s \<noteq> 0 \<longrightarrow> wait_list s = [])
     \<and> (\<forall>t. granted s t \<longrightarrow> \<not> sleeping s t)"


inductive_cases step_DownE: "step s (Down t) s'"
inductive_cases step_TrylockE: "step s (Trylock t) s'"
inductive_cases step_UpE: "step s (Up t) s'"
inductive_cases step_ResumeE: "step s (Resume t) s'"
inductive_cases step_WakeE: "step s (Wake t) s'"

lemma moves_simps [simp]:
  "count (moves t p s) = count s" "wait_list (moves t p s) = wait_list s" "waiter_up (moves t p s) = waiter_up s"
  "sleeping (moves t p s) = sleeping s" "at (moves t p s) = (at s)(t := p)"
  by (simp_all add: moves_def)

lemma count_pos: "(x :: u32) > 0 \<longleftrightarrow> 0 < unat x"
  by (simp add: word_less_nat_alt)

lemma unat_pred: "(x :: u32) \<noteq> 0 \<Longrightarrow> unat (x - 1) = unat x - 1"
  by (simp add: unat_minus_one)

lemma trylock_succeeds:
  assumes "unat (x :: u32) < 2 ^ 31"
  shows "sint (x - 1) < 0 \<longleftrightarrow> x = 0"
proof (cases "x = 0")
  case False
  then have "unat (x - 1) < 2 ^ 31" using assms by (simp add: unat_pred)
  then have "sint (x - 1) = int (unat (x - 1))" by (subst sint_unat) (simp del: of_nat_unat)
  then show ?thesis using False by (simp del: of_nat_unat)
qed simp

lemma step_down:
  assumes "step s (Down t) s'"
  obtains "at s t = Outside" "0 < unat (count s)" "s' = moves t Inside (s\<lparr>count := count s - 1\<rparr>)"
  | "at s t = Outside" "count s = 0"
    "s' = moves t Waiting (s\<lparr>wait_list := wait_list s @ [t], waiter_up := (waiter_up s)(t := False), sleeping := (sleeping s)(t := True)\<rparr>)"
  using assms by (elim step_DownE) (auto simp: down_def down_common_def count_pos unat_eq_zero split: if_splits)

lemma step_resume:
  assumes "step s (Resume t) s'"
  obtains "granted s t" "s' = moves t Inside s"
  | "at s t = Waiting" "\<not> granted s t" "s' = s\<lparr>sleeping := (sleeping s)(t := True)\<rparr>"
  using assms
  by (elim step_ResumeE) (auto simp: down_resume_def granted_def moves_def fun_upd_idem split: if_splits)

lemma step_trylock:
  assumes "step s (Trylock t) s'" and "unat (count s) < 2 ^ 31"
  obtains "at s t = Outside" "0 < unat (count s)" "s' = moves t Inside (s\<lparr>count := count s - 1\<rparr>)"
  | "at s t = Outside" "count s = 0" "s' = s"
proof -
  from assms(1) obtain failed s1 where f: "at s t = Outside" "down_trylock s = (failed, s1)"
    "s' = moves t (if failed then Outside else Inside) s1" by (elim step_TrylockE)
  show thesis
  proof (cases "count s = 0")
    case True
    then have "s' = s" using f by (auto simp: down_trylock_def moves_def fun_upd_idem)
    then show thesis using that(2) f(1) True by blast
  next
    case False
    then have "\<not> sint (count s - 1) < 0" using trylock_succeeds [OF assms(2)] by simp
    then have "s' = moves t Inside (s\<lparr>count := count s - 1\<rparr>)" using f by (auto simp: down_trylock_def Let_def)
    then show thesis using that(1) f(1) False by (simp add: unat_gt_0)
  qed
qed

lemma step_up:
  assumes "step s (Up t) s'"
  obtains "at s t = Inside" "wait_list s = []" "s' = moves t Outside (s\<lparr>count := count s + 1\<rparr>)"
  | w ws where "at s t = Inside" "wait_list s = w # ws"
    "s' = moves t Outside (s\<lparr>wait_list := ws, waiter_up := (waiter_up s)(w := True), sleeping := (sleeping s)(w := False)\<rparr>)"
proof -
  from assms have f: "at s t = Inside" "s' = moves t Outside (up s)" by (auto elim: step_UpE)
  show thesis
  proof (cases "wait_list s")
    case Nil
    then show thesis using that(1) f by (simp add: up_def)
  next
    case (Cons w ws)
    then show thesis using that(2) [OF f(1) Cons] f(2) by (simp add: up_def slow_up_def)
  qed
qed

lemma take_unit:
  assumes inv: "sem_inv n s" and t: "at s t = Outside" and c: "0 < unat (count s)"
  shows "sem_inv n (moves t Inside (s\<lparr>count := count s - 1\<rparr>))"
proof -
  let ?s' = "moves t Inside (s\<lparr>count := count s - 1\<rparr>)"
  have c0: "count s \<noteq> 0" using c by auto
  have h: "holders ?s' = insert t (holders s)" "t \<notin> holders s" using t by (auto simp: holders_def granted_def)
  have "unat (count s - 1) + card (insert t (holders s)) = n"
    using inv c h(2) unat_pred [OF c0] by (simp add: sem_inv_def)
  moreover have "{u. at ?s' u = Waiting \<and> \<not> waiter_up ?s' u} = {}" using inv c0 t by (auto simp: sem_inv_def)
  ultimately show ?thesis using inv c0 h t by (auto simp: sem_inv_def granted_def)
qed

lemma put_unit:
  assumes inv: "sem_inv n s" and t: "at s t = Inside" and w: "wait_list s = []" and n: "n < 2 ^ 31"
  shows "sem_inv n (moves t Outside (s\<lparr>count := count s + 1\<rparr>))"
proof -
  let ?s' = "moves t Outside (s\<lparr>count := count s + 1\<rparr>)"
  have h: "holders ?s' = holders s - {t}" "t \<in> holders s" using t by (auto simp: holders_def granted_def)
  have c: "unat (count s) + card (holders s) = n" "finite (holders s)" using inv by (auto simp: sem_inv_def)
  then have "0 < card (holders s)" using h(2) by (auto simp: card_gt_0_iff)
  moreover have "unat (count s + 1) = unat (count s) + 1" using c n by (simp add: unat_word_ariths)
  ultimately have "unat (count s + 1) + card (holders s - {t}) = n" using c h(2) by simp
  then show ?thesis using inv h t w by (auto simp: sem_inv_def granted_def)
qed

lemma pass_unit:
  assumes inv: "sem_inv n s" and t: "at s t = Inside" and w: "wait_list s = w # ws"
  shows "sem_inv n (moves t Outside (s\<lparr>wait_list := ws, waiter_up := (waiter_up s)(w := True), sleeping := (sleeping s)(w := False)\<rparr>))"
proof -
  let ?s' = "moves t Outside (s\<lparr>wait_list := ws, waiter_up := (waiter_up s)(w := True), sleeping := (sleeping s)(w := False)\<rparr>)"
  have "w \<in> {u. at s u = Waiting \<and> \<not> waiter_up s u}" using inv w by (metis list.set_intros(1) sem_inv_def)
  then have ww: "at s w = Waiting" "\<not> waiter_up s w" "w \<noteq> t" "count s = 0" using inv w t by (auto simp: sem_inv_def)
  have h: "holders ?s' = insert w (holders s - {t})" "t \<in> holders s" "w \<notin> holders s"
    using t ww by (auto simp: holders_def granted_def)
  have fin: "finite (holders s)" using inv by (simp add: sem_inv_def)
  then have "0 < card (holders s)" using h(2) by (auto simp: card_gt_0_iff)
  then have c: "card (insert w (holders s - {t})) = card (holders s)" using fin h(2,3) by simp
  have "set ws = {u. at ?s' u = Waiting \<and> \<not> waiter_up ?s' u}"
  proof -
    have "w \<notin> set ws" "insert w (set ws) = {u. at s u = Waiting \<and> \<not> waiter_up s u}"
      using inv w by (auto simp: sem_inv_def)
    then have "set ws = {u. at s u = Waiting \<and> \<not> waiter_up s u} - {w}" by blast
    moreover have "{u. at ?s' u = Waiting \<and> \<not> waiter_up ?s' u} = {u. at s u = Waiting \<and> \<not> waiter_up s u} - {w}"
      using t by (auto split: if_splits)
    ultimately show ?thesis by (simp only:)
  qed
  moreover have "granted ?s' u \<longrightarrow> \<not> sleeping ?s' u" for u
  proof -
    have "granted s u \<longrightarrow> \<not> sleeping s u" using inv by (simp add: sem_inv_def)
    then show ?thesis using t ww(3) by (simp add: granted_def)
  qed
  moreover have "unat (count ?s') + card (holders ?s') = n" using inv c h(1) by (simp add: sem_inv_def)
  moreover have "distinct ws" using inv w by (simp add: sem_inv_def)
  moreover have "finite (holders ?s')" using fin h(1) by simp
  ultimately show ?thesis unfolding sem_inv_def using ww(4) by (intro conjI) (simp_all only: moves_simps semaphore.simps, simp_all)
qed

lemma sem_inv_step:
  assumes inv: "sem_inv n s" and st: "step s a s'" and n: "n < 2 ^ 31"
  shows "sem_inv n s'"
proof (cases a)
  case (Down t)
  from st [unfolded Down] show ?thesis
  proof (cases rule: step_down)
    case 1
    then show ?thesis using take_unit [OF inv] by blast
  next
    case 2
    then have h: "holders s' = holders s" by (auto simp: holders_def granted_def)
    have "set (wait_list s') = {u. at s' u = Waiting \<and> \<not> waiter_up s' u}" using 2 inv by (auto simp: sem_inv_def)
    moreover have "t \<notin> set (wait_list s)" using 2 inv by (auto simp: sem_inv_def)
    ultimately show ?thesis using inv h 2 by (auto simp: sem_inv_def granted_def)
  qed
next
  case (Trylock t)
  have "unat (count s) < 2 ^ 31" using inv n by (simp add: sem_inv_def)
  with st [unfolded Trylock] show ?thesis
    by (cases rule: step_trylock) (use take_unit [OF inv] inv in blast)+
next
  case (Up t)
  from st [unfolded Up] show ?thesis
    by (cases rule: step_up) (use put_unit [OF inv _ _ n] pass_unit [OF inv] in blast)+
next
  case (Resume t)
  from st [unfolded Resume] show ?thesis
  proof (cases rule: step_resume)
    case 1
    then have h: "holders s' = holders s" by (auto simp: holders_def granted_def)
    have "{u. at s' u = Waiting \<and> \<not> waiter_up s' u} = {u. at s u = Waiting \<and> \<not> waiter_up s u}"
      using 1 by (auto simp: granted_def)
    then show ?thesis using inv h 1 by (auto simp: sem_inv_def granted_def)
  next
    case 2
    then have h: "holders s' = holders s" by (auto simp: holders_def granted_def)
    then show ?thesis using inv 2 by (auto simp: sem_inv_def granted_def)
  qed
next
  case (Wake t)
  then show ?thesis using inv st by (auto simp: sem_inv_def granted_def holders_def elim!: step_WakeE split: if_splits)
qed

lemma reachable_inv:
  assumes "reachable n s" and "unat n < 2 ^ 31"
  shows "sem_inv (unat n) s"
  using assms(1)
proof induction
  case init
  show ?case by (simp add: sem_inv_def semaphore_init_def holders_def granted_def)
next
  case (step s a s')
  then show ?case using sem_inv_step assms(2) by blast
qed


section \<open>Executions\<close>

definition execution :: "u32 \<Rightarrow> (nat \<Rightarrow> 't semaphore) \<Rightarrow> (nat \<Rightarrow> 't act) \<Rightarrow> bool" where
  "execution n \<sigma> acts \<longleftrightarrow> \<sigma> 0 = semaphore_init n \<and> (\<forall>i. step (\<sigma> i) (acts i) (\<sigma> (Suc i)))"

text \<open>Every task inside calls \<open>up\<close> in the end, and a task whose flag is set gets to run.\<close>

definition fair :: "(nat \<Rightarrow> 't semaphore) \<Rightarrow> (nat \<Rightarrow> 't act) \<Rightarrow> bool" where
  "fair \<sigma> acts \<longleftrightarrow> (\<forall>i t. (at (\<sigma> i) t = Inside \<longrightarrow> (\<exists>j\<ge>i. acts j = Up t))
     \<and> (granted (\<sigma> i) t \<longrightarrow> (\<exists>j\<ge>i. acts j = Resume t)))"

lemma execution_inv:
  assumes "execution n \<sigma> acts" and "unat n < 2 ^ 31"
  shows "sem_inv (unat n) (\<sigma> i)"
proof -
  have "reachable n (\<sigma> i)"
  proof (induction i)
    case 0
    show ?case using assms(1) reachable.init by (simp add: execution_def)
  next
    case (Suc i)
    then show ?case using assms(1) reachable.step unfolding execution_def by blast
  qed
  then show ?thesis using assms(2) by (rule reachable_inv)
qed

lemma until:
  fixes i :: nat
  assumes "\<exists>j\<ge>i. Q j" and "P i" and step: "\<And>k. P k \<Longrightarrow> \<not> Q k \<Longrightarrow> P (Suc k)"
  shows "\<exists>j\<ge>i. Q j \<and> P j"
proof -
  obtain j where "i \<le> j" "Q j" using assms(1) by blast
  then show ?thesis using \<open>P i\<close>
  proof (induction "j - i" arbitrary: i)
    case 0
    then show ?case by auto
  next
    case (Suc d)
    show ?case
    proof (cases "Q i")
      case False
      then have "P (Suc i)" using step Suc.prems by blast
      moreover have "d = j - Suc i" "Suc i \<le> j" using Suc.hyps(2) by linarith+
      ultimately obtain k where "Suc i \<le> k" "Q k" "P k" using Suc.hyps(1) [of "Suc i"] \<open>Q j\<close> by blast
      then show ?thesis using Suc_leD by blast
    qed (use Suc.prems in auto)
  qed
qed

lemma granted_stays:
  assumes "step s a s'" and "granted s t" and "a \<noteq> Resume t"
  shows "granted s' t"
  using assms(1)
proof cases
  case (up u)
  then show ?thesis using assms(2) by (auto simp: granted_def up_def slow_up_def Let_def)
next
  case (resume u pending fatal left w s1)
  then show ?thesis using assms(2,3) by (auto simp: granted_def down_resume_def split: if_splits)
qed (use assms in \<open>auto simp: granted_def down_def down_common_def down_trylock_def Let_def split: if_splits\<close>)

lemma granted_enters:
  assumes ex: "execution n \<sigma> acts" and "fair \<sigma> acts" and "granted (\<sigma> i) t"
  shows "\<exists>j>i. at (\<sigma> j) t = Inside"
proof -
  have st: "step (\<sigma> k) (acts k) (\<sigma> (Suc k))" for k using ex by (simp add: execution_def)
  have "\<exists>j\<ge>i. acts j = Resume t \<and> granted (\<sigma> j) t"
    using assms(2,3) granted_stays [OF st] by (intro until) (auto simp: fair_def)
  then obtain j where j: "i \<le> j" "acts j = Resume t" "granted (\<sigma> j) t" by blast
  from st [of j, unfolded j(2)] have "at (\<sigma> (Suc j)) t = Inside" by (cases rule: step_resume) (use j(3) in auto)
  then show ?thesis using j(1) le_imp_less_Suc by blast
qed

lemma queue_step:
  assumes "step s a s'" and "wait_list s = pre @ t # post" and "\<And>u. a \<noteq> Up u"
  shows "\<exists>post. wait_list s' = pre @ t # post"
  using assms(1)
proof cases
  case (resume u pending fatal left w s1)
  then show ?thesis using assms(2) by (auto simp: down_resume_def split: if_splits)
qed (use assms in \<open>auto simp: down_def down_common_def down_trylock_def Let_def split: if_splits\<close>)

lemma queue_up:
  assumes "sem_inv n s" and "step s (Up u) s'" and "wait_list s = pre @ t # post"
  shows "if pre = [] then granted s' t else wait_list s' = tl pre @ t # post"
  using assms(2)
proof (cases rule: step_up)
  case (2 w ws)
  show ?thesis
  proof (cases pre)
    case Nil
    then have "w = t" using 2 assms(3) by simp
    have "t \<in> {v. at s v = Waiting \<and> \<not> waiter_up s v}" using assms(1,3) by (metis in_set_conv_decomp sem_inv_def)
    then show ?thesis using 2 Nil \<open>w = t\<close> by (auto simp: granted_def)
  next
    case (Cons p ps)
    then show ?thesis using 2 assms(3) by simp
  qed
qed (use assms(3) in auto)

lemma release_happens:
  assumes ex: "execution n \<sigma> acts" and f: "fair \<sigma> acts" and n: "0 < unat n" "unat n < 2 ^ 31" and w: "wait_list (\<sigma> i) \<noteq> []"
  shows "\<exists>j\<ge>i. \<exists>u. acts j = Up u"
proof -
  have inv: "sem_inv (unat n) (\<sigma> i)" by (rule execution_inv [OF ex n(2)])
  then have "count (\<sigma> i) = 0" using w by (auto simp: sem_inv_def)
  then have "0 < card (holders (\<sigma> i))" using inv n(1) by (simp add: sem_inv_def)
  then obtain u where "u \<in> holders (\<sigma> i)" by (auto simp: card_gt_0_iff)
  then obtain k where "i \<le> k" "at (\<sigma> k) u = Inside"
    using granted_enters [OF ex f, of i u] by (auto simp: holders_def intro: less_imp_le)
  then obtain j where "k \<le> j" "acts j = Up u" using f by (auto simp: fair_def)
  then show ?thesis using \<open>i \<le> k\<close> order_trans by blast
qed

lemma next_release:
  assumes ex: "execution n \<sigma> acts" and f: "fair \<sigma> acts" and n: "0 < unat n" "unat n < 2 ^ 31"
    and w: "wait_list (\<sigma> i) = pre @ t # post"
  obtains j u post' where "i \<le> j" "acts j = Up u" "wait_list (\<sigma> j) = pre @ t # post'"
proof -
  let ?P = "\<lambda>j. \<exists>post. wait_list (\<sigma> j) = pre @ t # post"
  have 1: "?P (Suc k)" if P: "?P k" and Q: "\<not> (\<exists>u. acts k = Up u)" for k
  proof -
    have st: "step (\<sigma> k) (acts k) (\<sigma> (Suc k))" using ex by (simp add: execution_def)
    obtain post where "wait_list (\<sigma> k) = pre @ t # post" using P by blast
    from queue_step [OF st this] Q show ?thesis by blast
  qed
  have 2: "\<exists>j\<ge>i. \<exists>u. acts j = Up u" using release_happens [OF ex f n, of i] w by simp
  have 3: "?P i" using w by blast
  from until [where P = ?P, OF 2 3 1] show thesis using that by blast
qed

lemma waiter_enters:
  assumes ex: "execution n \<sigma> acts" and f: "fair \<sigma> acts" and n: "0 < unat n" "unat n < 2 ^ 31"
    and "wait_list (\<sigma> i) = pre @ t # post"
  shows "\<exists>j>i. at (\<sigma> j) t = Inside"
  using assms(5)
proof (induction pre arbitrary: i post)
  case Nil
  then obtain j u post' where j: "i \<le> j" "acts j = Up u" "wait_list (\<sigma> j) = [] @ t # post'" by (rule next_release [OF ex f n])
  have "step (\<sigma> j) (Up u) (\<sigma> (Suc j))" using ex j(2) unfolding execution_def by metis
  from queue_up [OF execution_inv [OF ex n(2)] this j(3)] have "granted (\<sigma> (Suc j)) t" by simp
  from granted_enters [OF ex f this] obtain m where "Suc j < m" "at (\<sigma> m) t = Inside" by blast
  then show ?case using j(1) by (intro exI [of _ m]) simp
next
  case (Cons p pre)
  obtain j u post' where j: "i \<le> j" "acts j = Up u" "wait_list (\<sigma> j) = (p # pre) @ t # post'"
    by (rule next_release [OF ex f n Cons.prems])
  have "step (\<sigma> j) (Up u) (\<sigma> (Suc j))" using ex j(2) unfolding execution_def by metis
  from queue_up [OF execution_inv [OF ex n(2)] this j(3)] have "wait_list (\<sigma> (Suc j)) = pre @ t # post'" by simp
  from Cons.IH [OF this] obtain m where "Suc j < m" "at (\<sigma> m) t = Inside" by blast
  then show ?case using j(1) by (intro exI [of _ m]) simp
qed

section \<open>The contract\<close>

text \<open>
  \<^bold>\<open>C34\<close>. In every state the tasks can reach, whatever the interleaving: the units not taken and those in
  use add up to the initial count, so never more tasks are inside than the semaphore admits; nobody waits
  while a unit is free; and a task that was handed a unit is awake, so no wake-up is lost.
\<close>

theorem semaphore_safe:
  assumes "reachable n s" and "unat n < 2 ^ 31"
  shows "finite (holders s) \<and> unat (count s) + card (holders s) = unat n \<and> card {t. at s t = Inside} \<le> unat n
    \<and> (wait_list s \<noteq> [] \<longrightarrow> count s = 0)
    \<and> (\<forall>t. at s t = Waiting \<longrightarrow> (if waiter_up s t then \<not> sleeping s t else t \<in> set (wait_list s)))"
proof -
  have inv: "sem_inv (unat n) s" by (rule reachable_inv [OF assms])
  then have "card {t. at s t = Inside} \<le> card (holders s)"
    by (intro card_mono) (auto simp: sem_inv_def holders_def)
  then show ?thesis using inv by (auto simp: sem_inv_def granted_def)
qed

theorem semaphore_safe_witness:
  "\<exists>s :: nat semaphore. reachable 1 s \<and> wait_list s = [1] \<and> count s = 0 \<and> card {t. at s t = Inside} \<le> 1"
proof -
  define s1 :: "nat semaphore" where "s1 = moves 0 Inside ((semaphore_init 1)\<lparr>count := 0\<rparr>)"
  define s2 where "s2 = moves 1 Waiting (s1\<lparr>wait_list := [1], waiter_up := (waiter_up s1)(1 := False), sleeping := (sleeping s1)(1 := True)\<rparr>)"
  have "step (semaphore_init 1) (Down 0) s1" unfolding s1_def
    by (rule step.down [where w = "Returns 0", simplified]) (simp_all add: down_def semaphore_init_def)
  moreover have "step s1 (Down 1) s2" unfolding s2_def
    by (rule step.down [where w = "Sleeps MAX_SCHEDULE_TIMEOUT", simplified])
      (simp_all add: down_def down_common_def s1_def semaphore_init_def)
  ultimately have "reachable 1 s2" using reachable.init reachable.step by metis
  moreover have "wait_list s2 = [1]" "count s2 = 0" by (simp_all add: s2_def s1_def)
  ultimately show ?thesis using semaphore_safe [of 1 s2] by auto
qed



text \<open>Two tasks that take turns.\<close>

definition turn_acts :: "nat \<Rightarrow> nat act" where
  "turn_acts i = [Down 0, Down 1, Up 0, Resume 1, Up 1] ! (i mod 5)"

definition turn_state :: "bool \<Rightarrow> nat \<Rightarrow> nat semaphore" where
  "turn_state again r =
     \<lparr>count = (if r = 0 then 1 else 0), wait_list = (if r = 2 then [1] else []),
      waiter_up = (\<lambda>t. t = 1 \<and> (r \<in> {3, 4} \<or> r \<in> {0, 1} \<and> again)), sleeping = (\<lambda>t. t = 1 \<and> r = 2),
      at = (\<lambda>t. if t = 0 \<and> r \<in> {1, 2} then Inside else if t = 1 \<and> r \<in> {2, 3} then Waiting
                else if t = 1 \<and> r = 4 then Inside else Outside)\<rparr>"

definition turn_run :: "nat \<Rightarrow> nat semaphore" where
  "turn_run i = turn_state (0 < i div 5) (i mod 5)"

lemma turn_steps:
  "step (turn_state b 0) (Down 0) (turn_state b 1)"
  "step (turn_state b 1) (Down 1) (turn_state b 2)"
  "step (turn_state b 2) (Up 0) (turn_state b 3)"
  "step (turn_state b 3) (Resume 1) (turn_state b 4)"
  "step (turn_state b 4) (Up 1) (turn_state True 0)"
proof -
  have d: "turn_state b 1 = moves 0 Inside ((turn_state b 0)\<lparr>count := 0\<rparr>)"
    by (auto simp: turn_state_def moves_def fun_eq_iff)
  show "step (turn_state b 0) (Down 0) (turn_state b 1)" unfolding d
    by (rule step.down [where w = "Returns 0", simplified]) (simp_all add: down_def turn_state_def)
  let ?s = "turn_state b 1"
  have e: "turn_state b 2 = moves 1 Waiting (?s\<lparr>wait_list := [1], waiter_up := (waiter_up ?s)(1 := False), sleeping := (sleeping ?s)(1 := True)\<rparr>)"
    by (auto simp: turn_state_def moves_def fun_eq_iff)
  show "step ?s (Down 1) (turn_state b 2)" unfolding e
    by (rule step.down [where w = "Sleeps MAX_SCHEDULE_TIMEOUT", simplified]) (simp_all add: down_def down_common_def turn_state_def)
  have "turn_state b 3 = moves 0 Outside (up (turn_state b 2))"
    by (auto simp: turn_state_def moves_def up_def slow_up_def fun_eq_iff)
  then show "step (turn_state b 2) (Up 0) (turn_state b 3)" using step.up [of "turn_state b 2" 0] by (simp add: turn_state_def)
  have "turn_state b 4 = moves 1 Inside (turn_state b 3)" by (auto simp: turn_state_def moves_def fun_eq_iff)
  then show "step (turn_state b 3) (Resume 1) (turn_state b 4)"
    using step.resume [of "turn_state b 3" 1 False False 0 "Returns 0" "turn_state b 3"] by (simp add: down_resume_def turn_state_def)
  have "turn_state True 0 = moves 1 Outside (up (turn_state b 4))"
    by (auto simp: turn_state_def moves_def up_def fun_eq_iff)
  then show "step (turn_state b 4) (Up 1) (turn_state True 0)" using step.up [of "turn_state b 4" 1] by (simp add: turn_state_def)
qed

lemma turn_step:
  assumes "r < 5"
  shows "step (turn_state b r) ([Down 0, Down 1, Up 0, Resume 1, Up 1] ! r)
    (if r = 4 then turn_state True 0 else turn_state b (Suc r))"
  using assms turn_steps [of b] by (auto simp: less_Suc_eq numeral_eq_Suc)

lemma turn_execution: "execution 1 turn_run turn_acts"
proof -
  have "turn_run 0 = semaphore_init 1" by (simp add: turn_run_def turn_state_def semaphore_init_def)
  moreover have "step (turn_run i) (turn_acts i) (turn_run (Suc i))" for i
  proof -
    have "turn_run (Suc i) = (if i mod 5 = 4 then turn_state True 0 else turn_state (0 < i div 5) (Suc (i mod 5)))"
      by (simp add: turn_run_def mod_Suc div_Suc)
    then show ?thesis using turn_step [of "i mod 5" "0 < i div 5"] unfolding turn_acts_def
      by (simp only: turn_run_def [of i] mod_less_divisor zero_less_numeral)
  qed
  ultimately show ?thesis by (simp add: execution_def)
qed

lemma turn_fair: "fair turn_run turn_acts"
proof -
  have "\<exists>j\<ge>i. turn_acts j = Up t" if "at (turn_run i) t = Inside" for i t
  proof -
    have c: "t = 0 \<and> i mod 5 \<in> {1, 2} \<or> t = 1 \<and> i mod 5 = 4"
      using that by (auto simp: turn_run_def turn_state_def split: if_splits)
    show ?thesis
    proof (cases "i mod 5 = 1")
      case True
      then have "Suc i mod 5 = 2" by (simp add: mod_Suc)
      then show ?thesis using c True by (intro exI [of _ "Suc i"]) (simp add: turn_acts_def)
    next
      case False
      then show ?thesis using c by (intro exI [of _ i]) (auto simp: turn_acts_def)
    qed
  qed
  moreover have "\<exists>j\<ge>i. turn_acts j = Resume t" if "granted (turn_run i) t" for i t
  proof -
    have "t = 1 \<and> i mod 5 = 3" using that by (auto simp: granted_def turn_run_def turn_state_def split: if_splits)
    then show ?thesis by (intro exI [of _ i]) (auto simp: turn_acts_def)
  qed
  ultimately show ?thesis by (simp add: fair_def)
qed


end
