(* ===== verification/Spec2Isabelle.thy ===== *)
theory Spec2Isabelle
  imports Kprelude Memblock_Free Kswap Krange Kconfig_Transform Kvsprintf_Number Kparams Ksema
begin

text \<open>
  This library verifies parts of the minified 32-bit x86 Linux kernel whose sources stand under
  \<open>src/minified\<close>. The kernel is a single image: the real-mode setup code (\<open>arch/x86/boot\<close>) reads the
  command line and starts it, the early boot code describes the machine's memory to memblock
  (\<open>mm/memblock.c\<close>), which serves all allocations until the page allocator takes over, and the
  routines of \<open>lib/\<close> (arithmetic, sorting, numbers, strings, formatted output) are called from
  everywhere. The configuration that selects the sources is computed on the build host by the programs of
  \<open>scripts/kconfig\<close>. The theories follow these parts; a definition has the name of the C function it
  translates, with a suffix or prefix where the name is taken in HOL or used twice in the sources (the
  copies in the boot code start with \<open>boot_\<close>).

  \<^bold>\<open>Conventions.\<close> Machine integers are words of their width where they can wrap around, and natural numbers
  or integers where the source only counts. A C structure is a record and an enumeration a datatype.
  State is passed explicitly: an operation takes the record it modifies and returns it updated. A
  \<open>BUG_ON\<close> is the outcome \<open>Bug\<close> of \<open>Kprelude\<close>, a returned error code is a value of the result type.
  A C string is a list of characters, read with \<open>char_at\<close>, which is the terminating zero behind
  the end. Code outside \<open>src/\<close> and code that is only called is an argument of the definitions.

  \<^bold>\<open>Kprelude, Kbits\<close>. The integer types, outcomes, the rounding macros of \<open>include/linux/math.h\<close> and
  \<open>include/linux/minmax.h\<close>, and bit positions (\<open>__ffs\<close>, \<open>fls\<close>) with the lemmas on words all components share.

  \<^bold>\<open>Memblock, Memblock_Table, Memblock_Isolate, Memblock_Ops, Memblock_Free\<close> (\<open>mm/memblock.c\<close>,
  \<open>include/linux/memblock.h\<close>). \<open>Memblock\<close> holds the records \<open>memblock_region\<close>, \<open>memblock_type\<close> and
  \<open>memblock\<close> and one definition for each operation: adding, merging, isolating, removing, reserving and freeing
  ranges, flags, the iterators over free and reserved ranges, the bottom-up and top-down search, the
  allocators and the doubling of the tables. \<open>Memblock_Table\<close> and \<open>Memblock_Isolate\<close> define the
  invariant of a table (sorted, disjoint, no region wraps around, \<open>total_size\<close> is the sum) and show that every table
  operation keeps it. Read as sets of addresses, adding is union and removing is difference;
  \<open>Memblock_Ops\<close> lifts this to the whole memblock and, through a locale that states
  what the operations ask of \<open>memblock_double_array\<close>, to tables that grow. \<open>Memblock_Free\<close> shows that the
  iterator visits exactly the memory that is not reserved, that the search returns an aligned
  free range inside the limits and fails only if there is none, and that an allocation hands
  out memory that was free and is reserved afterwards. The slab allocator that takes over and the map between
  physical and virtual addresses are arguments.

  \<^bold>\<open>Kmath\<close> (\<open>lib/math\<close>, \<open>arch/x86/include/asm/div64.h\<close>, \<open>include/linux/math64.h\<close>). Binary gcd, lcm, integer square
  root, the 64-bit divisions built from 32-bit ones, and division by a reciprocal: each equals its
  mathematical counterpart on every input for which the code is defined, and the loops end.

  \<^bold>\<open>Ksort, Kswap, Krange\<close> (\<open>lib/sort.c\<close>, \<open>lib/bsearch.c\<close>, \<open>kernel/range.c\<close>). The heapsort is modelled
  twice, on byte offsets as it is written and on indices; the first refines the second, which sorts. The swap functions
  work on a byte memory and exchange two disjoint elements for every alignment they are chosen for. The range
  arrays use the sort; adding, subtracting and cleaning keep the set of addresses they stand for.

  \<^bold>\<open>Kconfig_Expr, Kconfig_Simplify, Kconfig_Transform\<close> (\<open>scripts/kconfig/expr.c\<close>). Expressions with pointer identity where
  the code compares pointers, their tristate values, and the rewriting functions with the
  mutual recursion of the source. Every rewriting function returns, and keeps the value of the expression
  under every symbol table that meets the invariant of the symbol code.

  \<^bold>\<open>Kstrtox, Kput_dec, Kcstring\<close> (\<open>lib/kstrtox.c\<close>, \<open>arch/x86/boot/string.c\<close>, \<open>lib/ctype.c\<close>, \<open>lib/vsprintf.c\<close>).
  Reading numbers, with the exact error for every malformed or too large text, and writing
  decimal numbers by multiplication with reciprocals.

  \<^bold>\<open>Kvsprintf, Kvsprintf_Text, Kvsprintf_Number\<close> (\<open>lib/vsprintf.c\<close>). The format decoder, numbers, strings
  and pointers and the format loop, on the stack words of a 32-bit caller. \<open>Kvsprintf_Text\<close> shows that
  the text does not depend on the buffer, that the return value is its length and that the buffer holds the part that fits;
  \<open>Kvsprintf_Number\<close> that numbers are laid out as width, precision and flags say, and are read back by \<open>kstrtoull\<close>.

  \<^bold>\<open>Kcmdline\<close> (\<open>arch/x86/lib/cmdline.c\<close>, \<open>arch/x86/boot/cmdline.c\<close>). The four state machines that look for options on the
  command line. Two locales state what a step of a word scanner and of a value scanner does; the kernel's and the boot
  code's machines are interpretations. One step of the boot code differs, and an option behind a
  proper prefix of it is missed.

  \<^bold>\<open>Kparams\<close> (\<open>lib/cmdline.c\<close>, \<open>lib/string_helpers.c\<close>, \<open>kernel/params.c\<close>). \<open>next_arg\<close> cuts an argument out of the
  line by storing zeros into the buffer; pointers are indices. \<open>parse_args\<close> hands the arguments to the
  handlers of a parameter table, which are arguments of the model: they get the strings and a state, and do not
  change the line. The lemmas relate the stores to a functional reading of the line, and the
  loop, which ends because every call of \<open>next_arg\<close> moves on, to the sequence of its arguments.
  \<open>add_taint\<close> can panic, which is the outcome \<open>Bug\<close>.

  \<^bold>\<open>Ksema\<close> (\<open>kernel/locking/semaphore.c\<close>). Counting semaphores as a step relation over any number of tasks.
  A stretch of code under the spin lock is one step, \<open>schedule\<close> is the gap between two steps, and
  wake-ups from elsewhere and pending signals are arbitrary. Units are neither lost nor handed out
  twice, no wake-up is lost, and in every fair infinite execution each waiting task gets its turn. The count is below \<open>2\<^sup>3\<^sup>1\<close>,
  since \<open>down_trylock\<close> tests it as a signed number.

  \<^bold>\<open>Loops, bounds and fuel.\<close> Loops are structural recursions or functions with a termination proof wherever
  the measure does not depend on the data being well formed. The loops on machine words whose end depends on
  their arguments (\<open>gcd_loop\<close>, \<open>iter_div_u64_rem\<close>, the loops of the heapsort and of the byte swaps) are
  partial functions, and the theorems show that they return a value. The mutually recursive functions
  of the Kconfig expressions take a fuel: four times the sum of the two sizes for the equality
  test, and \<open>dups_fuel\<close>, quadratic in the size, for the removal of duplicates, because a pass restarts
  only after it has removed a node; the theorems show that these never run out. A nested format (\<open>%pV\<close>) calls the format loop again, and the model
  takes a bound on the depth: the theorems hold for every bound, and state that the result exists when
  formats nest at most one level. Positions in a text are natural numbers, so a text of
  more than \<open>2\<^sup>3\<^sup>1\<close> characters, whose length the C code cannot return, is outside of the model.

  \<^bold>\<open>Not modelled.\<close> What depends on hardware state (page tables, interrupts, the FPU, the
  tick, device drivers, consoles, real-mode BIOS calls), on pointer graphs under RCU or on several
  CPUs (the page and slab allocators, the file system layer, the scheduler, processes and signals,
  work queues), and inline assembly other than the division instruction. Of the modelled files the
  following is left out: debug and warning output, the freeing and printing functions of the Kconfig
  expressions and their list and range nodes, and the key of the pointer hash, which is an argument.
  The stubs to which the minification reduced many functions compute nothing.
\<close>

end
